(* ===== verification/Prelude.thy ===== *)
theory Prelude
  imports Main "HOL-Library.Word" "HOL-Library.Multiset"
begin

text \<open>
  Shared vocabulary of the development: the exceptions the C++ sources throw, the result
  type of a fallible operation, addresses and linked chains of heap cells, and the generic
  list and option lemmas the component theories use.

  A C++ pointer is \<open>addr option\<close>, with \<open>None\<close> for \<open>nullptr\<close>; a heap is a map from
  addresses to cells, undefined at an address that is not allocated (never allocated, or
  already deleted).  Reading or writing through a null or dangling pointer is undefined
  behaviour in C++; an operation that would do so returns the error \<open>Undefined_behaviour\<close>, so
  that its absence is something to be proved.  An exception that leaves a destructor ends the
  program; that is the error \<open>Terminated\<close>.
\<close>

section \<open>Errors and results\<close>

datatype aw_error =
    autowiring_error string
  | dispatch_aborted_exception string
  | runtime_error string
  | out_of_range string
  | range_error string
  | invalid_argument string
  | Terminated
  | Undefined_behaviour

type_synonym 'a result = "aw_error + 'a"

definition bindR :: "'a result \<Rightarrow> ('a \<Rightarrow> 'b result) \<Rightarrow> 'b result" where
  "bindR r f = (case r of Inl e \<Rightarrow> Inl e | Inr x \<Rightarrow> f x)"

lemma bindR_simps [simp]:
  "bindR (Inl e) f = Inl e"
  "bindR (Inr x) f = f x"
  by (simp_all add: bindR_def)

lemma bindR_eq_Inr_iff: "bindR r f = Inr y \<longleftrightarrow> (\<exists>x. r = Inr x \<and> f x = Inr y)"
  by (cases r) auto

lemma bindR_eq_Inl_iff: "bindR r f = Inl e \<longleftrightarrow> r = Inl e \<or> (\<exists>x. r = Inr x \<and> f x = Inl e)"
  by (cases r) auto

lemma bindR_assoc: "bindR (bindR r f) g = bindR r (\<lambda>x. bindR (f x) g)"
  by (cases r) auto

text \<open>The fold of a fallible loop body over a list: it stops at the first exception.\<close>

fun foldR :: "('a \<Rightarrow> 's \<Rightarrow> 's result) \<Rightarrow> 'a list \<Rightarrow> 's \<Rightarrow> 's result" where
  "foldR f [] s = Inr s"
| "foldR f (x # xs) s = bindR (f x s) (foldR f xs)"

lemma foldR_append: "foldR f (xs @ ys) s = bindR (foldR f xs s) (foldR f ys)"
  by (induction xs arbitrary: s) (auto simp: bindR_def split: sum.splits)

text \<open>Hoare-style rule for \<^const>\<open>foldR\<close>: an invariant kept by every successful body.\<close>

lemma foldR_invariant:
  assumes "foldR f xs s = Inr t" and "I s"
    and "\<And>x s s'. x \<in> set xs \<Longrightarrow> I s \<Longrightarrow> f x s = Inr s' \<Longrightarrow> I s'"
  shows "I t"
  using assms
proof (induction xs arbitrary: s)
  case Nil
  then show ?case by simp
next
  case (Cons x xs)
  from Cons.prems(1) obtain s' where s': "f x s = Inr s'" "foldR f xs s' = Inr t"
    by (auto simp: bindR_eq_Inr_iff)
  from s'(1) Cons.prems(2,3) have "I s'" by auto
  with s'(2) Cons.prems(3) show ?case by (auto intro: Cons.IH)
qed

section \<open>Operations that change state and may throw\<close>

text \<open>
  A C++ exception leaves the state as the throwing operation had made it, so an operation on an
  object that lives on yields both: the exception, if any, and the state.
\<close>

type_synonym 's exn = "aw_error option \<times> 's"

definition seqX :: "'s exn \<Rightarrow> ('s \<Rightarrow> 's exn) \<Rightarrow> 's exn" where
  "seqX r f = (case r of (None, s) \<Rightarrow> f s | (Some e, s) \<Rightarrow> (Some e, s))"

lemma seqX_simps [simp]:
  "seqX (None, s) f = f s"
  "seqX (Some e, s) f = (Some e, s)"
  by (simp_all add: seqX_def)

lemma seqX_None_iff: "seqX r f = (None, t) \<longleftrightarrow> (\<exists>s. r = (None, s) \<and> f s = (None, t))"
  by (cases r) (auto simp: seqX_def split: option.splits)

fun foldX :: "('a \<Rightarrow> 's \<Rightarrow> 's exn) \<Rightarrow> 'a list \<Rightarrow> 's \<Rightarrow> 's exn" where
  "foldX f [] s = (None, s)"
| "foldX f (x # xs) s = seqX (f x s) (foldX f xs)"

lemma foldX_append: "foldX f (xs @ ys) s = seqX (foldX f xs s) (foldX f ys)"
  by (induction xs arbitrary: s) (auto simp: seqX_def split: prod.splits option.splits)

text \<open>An invariant that every body keeps, also when it throws, holds at the end.\<close>

lemma foldX_invariant:
  assumes "\<And>x s. x \<in> set xs \<Longrightarrow> I s \<Longrightarrow> I (snd (f x s))" "I s"
  shows "I (snd (foldX f xs s))"
  using assms
proof (induction xs arbitrary: s)
  case Nil
  then show ?case by simp
next
  case (Cons x xs)
  have "I (snd (f x s))" using Cons.prems by simp
  then show ?case using Cons by (cases "f x s") (auto simp: seqX_def split: option.splits)
qed

section \<open>Addresses and chains of cells\<close>

type_synonym addr = nat
type_synonym ptr = "addr option"

text \<open>
  \<open>chain nxt p as q\<close>: following the link field \<open>nxt\<close> from \<open>p\<close> visits exactly the cells
  \<open>as\<close>, every one of them allocated, and ends at \<open>q\<close>.  The link map is partial: it is
  undefined where no cell is allocated.
\<close>

fun chain :: "(addr \<rightharpoonup> ptr) \<Rightarrow> ptr \<Rightarrow> addr list \<Rightarrow> ptr \<Rightarrow> bool" where
  "chain nxt p [] q \<longleftrightarrow> p = q"
| "chain nxt p (a # as) q \<longleftrightarrow>
     p = Some a \<and> (case nxt a of None \<Rightarrow> False | Some r \<Rightarrow> chain nxt r as q)"

lemma chain_append:
  "chain nxt p (as @ bs) q \<longleftrightarrow> (\<exists>r. chain nxt p as r \<and> chain nxt r bs q)"
  by (induction as arbitrary: p) (auto split: option.splits)

lemma chain_upd_other [simp]:
  "a \<notin> set as \<Longrightarrow> chain (nxt(a := v)) p as q \<longleftrightarrow> chain nxt p as q"
  by (induction as arbitrary: p) (auto split: option.splits)

lemma chain_allocated: "chain nxt p as q \<Longrightarrow> a \<in> set as \<Longrightarrow> nxt a \<noteq> None"
  by (induction as arbitrary: p) (auto split: option.splits)

lemma chain_None [simp]: "chain nxt None as None \<longleftrightarrow> as = []"
  by (cases as) auto

lemma chain_Some_iff:
  "chain nxt (Some a) as None \<longleftrightarrow> (\<exists>bs r. as = a # bs \<and> nxt a = Some r \<and> chain nxt r bs None)"
  by (cases as) (auto split: option.splits)

lemma chain_unique: "chain nxt p as None \<Longrightarrow> chain nxt p bs None \<Longrightarrow> as = bs"
proof (induction as arbitrary: p bs)
  case Nil
  then show ?case by simp
next
  case (Cons a as)
  then show ?case by (cases bs) (auto split: option.splits)
qed

lemma chain_suffix_notin:
  assumes "chain nxt p (as @ a # bs) None"
  shows "a \<notin> set bs"
proof
  assume "a \<in> set bs"
  then obtain cs ds where bs: "bs = cs @ a # ds" by (auto simp: in_set_conv_decomp)
  from assms obtain r where "chain nxt r (a # cs @ a # ds) None" "chain nxt r (a # bs) None"
    by (auto simp: chain_append bs)
  then have 1: "chain nxt (Some a) (a # cs @ a # ds) None" by auto
  then have 2: "chain nxt (Some a) (a # ds) None"
    by (auto simp: chain_append split: option.splits)
  from chain_unique [OF 1 2] show False by simp
qed

lemma chain_distinct: "chain nxt p as None \<Longrightarrow> distinct as"
proof (induction as arbitrary: p)
  case Nil
  then show ?case by simp
next
  case (Cons a as)
  have "a \<notin> set as" using Cons.prems chain_suffix_notin [of nxt p "[]" a as] by simp
  with Cons show ?case by (auto split: option.splits)
qed

text \<open>Overwriting the null link of the last cell extends the chain.\<close>

lemma chain_snoc_link:
  assumes "chain nxt p (as @ [a]) None" "b \<notin> set (as @ [a])"
  shows "chain (nxt(b \<mapsto> None, a \<mapsto> Some b)) p (as @ [a, b]) None"
proof -
  have d: "a \<notin> set as" using chain_distinct [OF assms(1)] by simp
  from assms(1) have "chain nxt p as (Some a)"
    by (auto simp: chain_append split: option.splits)
  with d assms(2) have "chain (nxt(b \<mapsto> None, a \<mapsto> Some b)) p as (Some a)" by simp
  with assms(2) show ?thesis by (auto simp: chain_append)
qed

section \<open>Lists\<close>

lemma last_eq_iff_snoc: "xs \<noteq> [] \<Longrightarrow> last xs = x \<longleftrightarrow> (\<exists>ys. xs = ys @ [x])"
  by (metis append_butlast_last_id last_snoc)

lemma distinct_snoc_last: "distinct (xs @ [x]) \<Longrightarrow> x \<notin> set xs"
  by simp

section \<open>Forward simulation\<close>

text \<open>Operations that may fail (\<open>Inl\<close>) or not return (\<open>None\<close>), run one after the other.\<close>

fun run_all :: "('b \<Rightarrow> 's \<Rightarrow> 's result option) \<Rightarrow> 'b list \<Rightarrow> 's \<Rightarrow> 's result option" where
  "run_all f [] s = Some (Inr s)"
| "run_all f (a # as) s = Option.bind (f a s) (\<lambda>r. case r of Inl e \<Rightarrow> Some (Inl e) | Inr s1 \<Rightarrow> run_all f as s1)"

lemma run_all_Cons_iff:
  "run_all f (a # as) s = Some (Inr t) \<longleftrightarrow> (\<exists>s1. f a s = Some (Inr s1) \<and> run_all f as s1 = Some (Inr t))"
proof (cases "f a s")
  case (Some r)
  then show ?thesis by (cases r) simp_all
qed simp

text \<open>
  The contract between an implementation and its specification: from related states, whatever the
  specification does successfully the implementation does too, and the states are related again.
\<close>

locale forward_simulation =
  fixes impl :: "'b \<Rightarrow> 's \<Rightarrow> 's result option"
    and spec :: "'b \<Rightarrow> 't \<Rightarrow> 't result option"
    and rel :: "'s \<Rightarrow> 't \<Rightarrow> bool"
  assumes step: "rel s t \<Longrightarrow> spec a t = Some (Inr t') \<Longrightarrow> \<exists>s'. impl a s = Some (Inr s') \<and> rel s' t'"
begin

lemma run:
  "rel s t \<Longrightarrow> run_all spec as t = Some (Inr t') \<Longrightarrow> \<exists>s'. run_all impl as s = Some (Inr s') \<and> rel s' t'"
proof (induction as arbitrary: s t)
  case (Cons a as)
  from Cons.prems(2) obtain t0 where t0: "spec a t = Some (Inr t0)" "run_all spec as t0 = Some (Inr t')"
    unfolding run_all_Cons_iff by blast
  then obtain s0 where "impl a s = Some (Inr s0)" "rel s0 t0" using step [OF Cons.prems(1)] by blast
  then show ?case using Cons.IH [OF _ t0(2)] by auto
qed simp

end

section \<open>Systems that end\<close>

text \<open>
  The interface of a step relation whose steps keep an invariant and lower a weight: runs are bounded, and one can always be
  continued to a state from which there is no step.
\<close>

locale measured_system =
  fixes step :: "'s \<Rightarrow> 's \<Rightarrow> bool" and inv :: "'s \<Rightarrow> bool" and weight :: "'s \<Rightarrow> nat"
  assumes progress: "step s s' \<Longrightarrow> inv s \<Longrightarrow> inv s' \<and> weight s' < weight s"
begin

lemma steps_bounded: "(step ^^ n) s s' \<Longrightarrow> inv s \<Longrightarrow> inv s' \<and> n + weight s' \<le> weight s"
proof (induction n arbitrary: s')
  case (Suc n)
  then obtain u where "(step ^^ n) s u" "step u s'" by auto
  then show ?case using Suc.IH [of u] Suc.prems(2) progress [of u s'] by fastforce
qed simp

lemma ends: "inv s \<Longrightarrow> \<exists>n s'. (step ^^ n) s s' \<and> (\<nexists>u. step s' u)"
proof (induction "weight s" arbitrary: s rule: less_induct)
  case less
  show ?case
  proof (cases "\<exists>u. step s u")
    case True
    then obtain u where u: "step s u" by blast
    then obtain n s' where "(step ^^ n) u s'" "\<nexists>v. step s' v" using less progress [OF u] by blast
    then show ?thesis using relpowp_Suc_I2 [of step s u n s'] u by blast
  next
    case False
    then have "(step ^^ 0) s s" "\<nexists>u. step s u" by simp_all
    then show ?thesis by blast
  qed
qed

end

end
