(* ===== verification/Dispatch_Queue.thy ===== *)
theory Dispatch_Queue
  imports Prelude
begin

text \<open>
  The asynchronous queue of zero-argument functions, \<open>src/autowiring/DispatchQueue.{h,cpp}\<close>
  and \<open>DispatchThunk.h\<close>, at the level of its manual linked list: \<open>m_pHead\<close>, \<open>m_pTail\<close> and
  the \<open>m_pFlink\<close> field of every thunk are pointers into a heap of thunk cells.

  User code is a parameter: \<open>'f\<close> is the type of the pended function objects and
  \<open>run f q\<close> is the effect of calling one, which returns the exception it leaves with, if any,
  and the queue afterwards (a function may pend, cancel or abort on the queue it runs on).  The
  queue record is open: its \<open>more\<close> part is the world the functions act on beside the queue.

  A block of code that runs under \<open>m_dispatchLock\<close> is one definition or one part of a
  definition; \<open>m_queueUpdated\<close> counts the \<open>notify_all\<close> calls made on the condition variable.
  A blocking wait is a loop over an environment parameter, the change made by the other threads
  while the lock was released.
\<close>

section \<open>The priority queue of delayed thunks\<close>

record DispatchThunkDelayed =
  m_readyAt :: int
  m_thunk :: addr

text \<open>
  \<open>std::priority_queue\<close> with \<open>DispatchThunkDelayed::operator<\<close>, which is reversed: \<open>a < b\<close> when
  \<open>b\<close> is ready earlier, so \<open>top\<close> is a thunk with the least ready time.  The queue is kept as a
  list sorted by ready time; the standard library leaves the order of equal times open.
\<close>

definition delayed_less :: "DispatchThunkDelayed \<Rightarrow> DispatchThunkDelayed \<Rightarrow> bool" where
  "delayed_less lhs rhs \<longleftrightarrow> m_readyAt rhs < m_readyAt lhs"

fun pq_push :: "DispatchThunkDelayed \<Rightarrow> DispatchThunkDelayed list \<Rightarrow> DispatchThunkDelayed list" where
  "pq_push d [] = [d]"
| "pq_push d (e # es) = (if delayed_less e d then d # e # es else e # pq_push d es)"

definition pq_top :: "DispatchThunkDelayed list \<Rightarrow> DispatchThunkDelayed option" where
  "pq_top ds = (case ds of [] \<Rightarrow> None | d # _ \<Rightarrow> Some d)"

definition pq_pop :: "DispatchThunkDelayed list \<Rightarrow> DispatchThunkDelayed list" where
  "pq_pop ds = (case ds of [] \<Rightarrow> [] | _ # es \<Rightarrow> es)"

definition pq_ok :: "DispatchThunkDelayed list \<Rightarrow> bool" where
  "pq_ok ds \<longleftrightarrow> sorted (map m_readyAt ds)"

section \<open>The state\<close>

record 'f DispatchThunk =
  m_fx :: 'f
  m_pFlink :: ptr

record 'f DispatchQueue =
  onAborted :: bool
  m_dispatchCap :: nat
  m_count :: nat
  m_version :: "64 word"
  m_pHead :: ptr
  m_pTail :: ptr
  m_delayedQueue :: "DispatchThunkDelayed list"
  m_heap :: "addr \<rightharpoonup> 'f DispatchThunk"
  m_queueUpdated :: nat

type_synonym ('f, 'w) call = "'f \<Rightarrow> ('f, 'w) DispatchQueue_scheme \<Rightarrow>
  aw_error option \<times> ('f, 'w) DispatchQueue_scheme"

definition dq_new :: "nat \<Rightarrow> 'f DispatchQueue" where
  "dq_new dispatchCap = \<lparr>onAborted = False, m_dispatchCap = dispatchCap, m_count = 0,
     m_version = 1, m_pHead = None, m_pTail = None, m_delayedQueue = [],
     m_heap = Map.empty, m_queueUpdated = 0\<rparr>"

definition dq_default :: "'f DispatchQueue" where
  "dq_default = dq_new 1024"

subsection \<open>Cells of the heap\<close>

text \<open>\<open>new DispatchThunk\<close> at the fresh address \<open>a\<close>, and \<open>delete\<close>.\<close>

definition new_thunk ::
  "addr \<Rightarrow> 'f \<Rightarrow> ('f, 'w) DispatchQueue_scheme \<Rightarrow> ('f, 'w) DispatchQueue_scheme" where
  "new_thunk a f q = q\<lparr>m_heap := (m_heap q)(a \<mapsto> \<lparr>m_fx = f, m_pFlink = None\<rparr>)\<rparr>"

definition delete_thunk ::
  "addr \<Rightarrow> ('f, 'w) DispatchQueue_scheme \<Rightarrow> ('f, 'w) DispatchQueue_scheme result" where
  "delete_thunk a q =
     (case m_heap q a of None \<Rightarrow> Inl Undefined_behaviour
      | Some _ \<Rightarrow> Inr (q\<lparr>m_heap := (m_heap q)(a := None)\<rparr>))"

definition load_thunk ::
  "ptr \<Rightarrow> ('f, 'w) DispatchQueue_scheme \<Rightarrow> (addr \<times> 'f DispatchThunk) result" where
  "load_thunk p q =
     (case p of None \<Rightarrow> Inl Undefined_behaviour
      | Some a \<Rightarrow> (case m_heap q a of None \<Rightarrow> Inl Undefined_behaviour | Some c \<Rightarrow> Inr (a, c)))"

text \<open>The store \<open>p->m_pFlink = v\<close>.\<close>

definition set_flink ::
  "ptr \<Rightarrow> ptr \<Rightarrow> ('f, 'w) DispatchQueue_scheme \<Rightarrow> ('f, 'w) DispatchQueue_scheme result" where
  "set_flink p v q = bindR (load_thunk p q)
     (\<lambda>(a, c). Inr (q\<lparr>m_heap := (m_heap q)(a \<mapsto> c\<lparr>m_pFlink := v\<rparr>)\<rparr>))"

definition notify_all ::
  "('f, 'w) DispatchQueue_scheme \<Rightarrow> ('f, 'w) DispatchQueue_scheme" where
  "notify_all q = q\<lparr>m_queueUpdated := Suc (m_queueUpdated q)\<rparr>"

section \<open>Pending\<close>

text \<open>The base class's \<open>OnPended\<close> has an empty body.\<close>

definition OnPended ::
  "('f, 'w) DispatchQueue_scheme \<Rightarrow> ('f, 'w) DispatchQueue_scheme" where
  "OnPended q = q"

definition PendExisting ::
  "addr \<Rightarrow> ('f, 'w) DispatchQueue_scheme \<Rightarrow> ('f, 'w) DispatchQueue_scheme result" where
  "PendExisting thunk q =
     (let q1 = q\<lparr>m_count := Suc (m_count q)\<rparr> in
      bindR (case m_pHead q1 of
               Some _ \<Rightarrow> set_flink (m_pTail q1) (Some thunk) q1
             | None \<Rightarrow> Inr (notify_all (q1\<lparr>m_pHead := Some thunk\<rparr>)))
        (\<lambda>q2. Inr (OnPended (q2\<lparr>m_pTail := Some thunk\<rparr>))))"

definition Pend ::
  "addr \<Rightarrow> 'f \<Rightarrow> ('f, 'w) DispatchQueue_scheme \<Rightarrow> ('f, 'w) DispatchQueue_scheme result" where
  "Pend a f q = PendExisting a (new_thunk a f q)"

definition SetDispatcherCap ::
  "nat \<Rightarrow> ('f, 'w) DispatchQueue_scheme \<Rightarrow> ('f, 'w) DispatchQueue_scheme" where
  "SetDispatcherCap cap q = q\<lparr>m_dispatchCap := cap\<rparr>"

text \<open>\<open>AddExisting\<close>: over the cap the owning pointer's destructor deletes the thunk.\<close>

definition AddExisting ::
  "addr \<Rightarrow> ('f, 'w) DispatchQueue_scheme \<Rightarrow> ('f, 'w) DispatchQueue_scheme result" where
  "AddExisting pBase q =
     (if m_count q < m_dispatchCap q then PendExisting pBase q else delete_thunk pBase q)"

text \<open>The generic \<open>operator+=\<close>: a fresh thunk at address \<open>a\<close> for the function \<open>f\<close>.\<close>

definition dq_add ::
  "addr \<Rightarrow> 'f \<Rightarrow> ('f, 'w) DispatchQueue_scheme \<Rightarrow> (bool \<times> ('f, 'w) DispatchQueue_scheme) result" where
  "dq_add a f q =
     (let q0 = new_thunk a f q in
      if m_count q0 \<ge> m_dispatchCap q0 then
        bindR (delete_thunk a q0) (\<lambda>q1. Inr (False, q1))
      else
        (let q1 = q0\<lparr>m_count := Suc (m_count q0)\<rparr> in
         case m_pHead q1 of
           Some _ \<Rightarrow> bindR (set_flink (m_pTail q1) (Some a) q1)
                       (\<lambda>q2. Inr (True, OnPended (q2\<lparr>m_pTail := Some a\<rparr>)))
         | None \<Rightarrow> Inr (True, notify_all (OnPended (q1\<lparr>m_pHead := Some a, m_pTail := Some a\<rparr>)))))"

text \<open>\<open>operator+=(DispatchThunkDelayed&&)\<close>: the thunk of \<open>rhs\<close> is already allocated.\<close>

definition dq_add_delayed ::
  "DispatchThunkDelayed \<Rightarrow> ('f, 'w) DispatchQueue_scheme \<Rightarrow> ('f, 'w) DispatchQueue_scheme" where
  "dq_add_delayed rhs q =
     (let q1 = q\<lparr>m_delayedQueue := pq_push rhs (m_delayedQueue q)\<rparr>;
          shouldNotify = (map_option m_readyAt (pq_top (m_delayedQueue q1)) = Some (m_readyAt rhs)
                          \<and> m_count q1 = 0)
      in if shouldNotify then notify_all q1 else q1)"

text \<open>\<open>DispatchThunkDelayedExpressionRel::operator,\<close>: a delay of zero pends at once.\<close>

definition dq_add_rel ::
  "int \<Rightarrow> int \<Rightarrow> addr \<Rightarrow> 'f \<Rightarrow> ('f, 'w) DispatchQueue_scheme
     \<Rightarrow> ('f, 'w) DispatchQueue_scheme result" where
  "dq_add_rel now delay a f q =
     (if delay \<noteq> 0 then
        Inr (dq_add_delayed \<lparr>m_readyAt = now + delay, m_thunk = a\<rparr> (new_thunk a f q))
      else bindR (dq_add a f q) (\<lambda>(_, q'). Inr q'))"

definition dq_add_abs ::
  "int \<Rightarrow> addr \<Rightarrow> 'f \<Rightarrow> ('f, 'w) DispatchQueue_scheme \<Rightarrow> ('f, 'w) DispatchQueue_scheme" where
  "dq_add_abs wakeup a f q =
     dq_add_delayed \<lparr>m_readyAt = wakeup, m_thunk = a\<rparr> (new_thunk a f q)"

text \<open>
  \<open>operator+=(DispatchQueue&& rhs)\<close>: the thunks of \<open>rhs\<close> move over.  Both queues' thunks live
  in one heap in C++, so the model of the move adds the cells of \<open>rhs\<close> to this queue's heap
  and leaves \<open>rhs\<close> with none.
\<close>

fun move_delayed :: "DispatchThunkDelayed list \<Rightarrow> DispatchThunkDelayed list
    \<Rightarrow> DispatchThunkDelayed list" where
  "move_delayed [] ds = ds"
| "move_delayed (e # es) ds = move_delayed es (pq_push e ds)"

definition dq_splice ::
  "('f, 'w) DispatchQueue_scheme \<Rightarrow> ('f, 'v) DispatchQueue_scheme
     \<Rightarrow> (('f, 'w) DispatchQueue_scheme \<times> ('f, 'v) DispatchQueue_scheme) result" where
  "dq_splice q rhs =
     (let q0 = q\<lparr>m_heap := m_heap q ++ m_heap rhs\<rparr> in
      bindR (case m_pHead q0 of
               Some _ \<Rightarrow> set_flink (m_pTail q0) (m_pHead rhs) q0
             | None \<Rightarrow> Inr (q0\<lparr>m_pHead := m_pHead rhs\<rparr>))
        (\<lambda>q1. let q2 = q1\<lparr>m_pTail := m_pTail rhs, m_count := m_count q1 + m_count rhs,
                          m_delayedQueue := move_delayed (m_delayedQueue rhs) (m_delayedQueue q1)\<rparr>
              in Inr (OnPended (notify_all q2),
                      rhs\<lparr>m_pHead := None, m_pTail := None, m_count := 0,
                          m_delayedQueue := [], m_heap := Map.empty\<rparr>)))"

text \<open>The move constructor: an aborted queue is moved as its flag and cap only.\<close>

definition dq_move ::
  "'f DispatchQueue \<Rightarrow> ('f DispatchQueue \<times> 'f DispatchQueue) result" where
  "dq_move q =
     (let q0 = (dq_new (m_dispatchCap q))\<lparr>onAborted := onAborted q\<rparr> in
      if \<not> onAborted q0 then dq_splice q0 q else Inr (q0, q))"

section \<open>Promotion and dispatch\<close>

text \<open>
  One round of the promotion loop: link the thunk at the tail, count it.  The loop runs down
  \<open>m_delayedQueue\<close> from its top, popping each thunk it has linked.
\<close>

definition link_ready ::
  "addr \<Rightarrow> ('f, 'w) DispatchQueue_scheme \<Rightarrow> ('f, 'w) DispatchQueue_scheme result" where
  "link_ready thunk q =
     bindR (case m_pHead q of
              Some _ \<Rightarrow> set_flink (m_pTail q) (Some thunk) q
            | None \<Rightarrow> Inr (q\<lparr>m_pHead := Some thunk\<rparr>))
       (\<lambda>q1. Inr (q1\<lparr>m_pTail := Some thunk, m_count := Suc (m_count q1)\<rparr>))"

fun promote_loop ::
  "int \<Rightarrow> DispatchThunkDelayed list \<Rightarrow> ('f, 'w) DispatchQueue_scheme
     \<Rightarrow> ('f, 'w) DispatchQueue_scheme result" where
  "promote_loop now [] q = Inr q"
| "promote_loop now (d # ds) q =
     (if m_readyAt d < now then
        bindR (link_ready (m_thunk d) q)
          (\<lambda>q1. promote_loop now ds (q1\<lparr>m_delayedQueue := pq_pop (m_delayedQueue q1)\<rparr>))
      else Inr q)"

definition PromoteReadyDispatchersUnsafe ::
  "int \<Rightarrow> ('f, 'w) DispatchQueue_scheme \<Rightarrow> (bool \<times> ('f, 'w) DispatchQueue_scheme) result" where
  "PromoteReadyDispatchersUnsafe now q =
     (let nInitial = length (m_delayedQueue q) in
      bindR (promote_loop now (m_delayedQueue q) q)
        (\<lambda>q'. Inr (nInitial \<noteq> length (m_delayedQueue q'), q')))"

text \<open>The locked prefix of a dispatch: take the front thunk and pop it.\<close>

definition pop_front ::
  "('f, 'w) DispatchQueue_scheme
     \<Rightarrow> (addr \<times> 'f DispatchThunk \<times> ('f, 'w) DispatchQueue_scheme) result" where
  "pop_front q = bindR (load_thunk (m_pHead q) q)
     (\<lambda>(a, c). Inr (a, c, q\<lparr>m_pHead := m_pFlink c\<rparr>))"

text \<open>The decrement of the count, which notifies when it hits zero.\<close>

definition count_down ::
  "('f, 'w) DispatchQueue_scheme \<Rightarrow> ('f, 'w) DispatchQueue_scheme" where
  "count_down q =
     (let q1 = q\<lparr>m_count := m_count q - 1\<rparr> in if m_count q1 = 0 then notify_all q1 else q1)"

text \<open>
  \<open>DispatchEventUnsafe\<close>: the exit action counts down whether or not the function throws, and
  the owning pointer deletes the thunk in both cases.
\<close>

definition DispatchEventUnsafe ::
  "('f, 'w) call \<Rightarrow> ('f, 'w) DispatchQueue_scheme
     \<Rightarrow> (aw_error option \<times> ('f, 'w) DispatchQueue_scheme) result" where
  "DispatchEventUnsafe run q =
     bindR (pop_front q) (\<lambda>(a, c, q1).
       case run (m_fx c) q1 of (exc, q2) \<Rightarrow>
         bindR (delete_thunk a (count_down q2)) (\<lambda>q3. Inr (exc, q3)))"

text \<open>\<open>TryDispatchEventUnsafe\<close>: a function that throws goes back to the front of the queue.\<close>

definition TryDispatchEventUnsafe ::
  "('f, 'w) call \<Rightarrow> ('f, 'w) DispatchQueue_scheme
     \<Rightarrow> (aw_error option \<times> ('f, 'w) DispatchQueue_scheme) result" where
  "TryDispatchEventUnsafe run q =
     bindR (pop_front q) (\<lambda>(a, c, q1).
       case run (m_fx c) q1 of
         (Some exc, q2) \<Rightarrow>
           bindR (set_flink (Some a) (m_pHead q2) q2)
             (\<lambda>q3. Inr (Some exc, q3\<lparr>m_pHead := Some a\<rparr>))
       | (None, q2) \<Rightarrow>
           bindR (delete_thunk a (count_down q2)) (\<lambda>q3. Inr (None, q3)))"

text \<open>
  \<open>DispatchEvent\<close> and \<open>TryDispatchEvent\<close> at clock reading \<open>now\<close>.  The result is the exception
  that left the call, if any, and the return value.
\<close>

definition dispatch_guard ::
  "int \<Rightarrow> ('f, 'w) DispatchQueue_scheme \<Rightarrow> (bool \<times> ('f, 'w) DispatchQueue_scheme) result" where
  "dispatch_guard now q =
     (case m_pHead q of Some _ \<Rightarrow> Inr (True, q) | None \<Rightarrow> PromoteReadyDispatchersUnsafe now q)"

definition DispatchEvent ::
  "('f, 'w) call \<Rightarrow> int \<Rightarrow> ('f, 'w) DispatchQueue_scheme
     \<Rightarrow> (aw_error option \<times> bool \<times> ('f, 'w) DispatchQueue_scheme) result" where
  "DispatchEvent run now q =
     bindR (dispatch_guard now q) (\<lambda>(ready, q1).
       if \<not> ready then Inr (None, False, q1)
       else bindR (DispatchEventUnsafe run q1) (\<lambda>(exc, q2). Inr (exc, True, q2)))"

definition TryDispatchEvent ::
  "('f, 'w) call \<Rightarrow> int \<Rightarrow> ('f, 'w) DispatchQueue_scheme
     \<Rightarrow> (aw_error option \<times> bool \<times> ('f, 'w) DispatchQueue_scheme) result" where
  "TryDispatchEvent run now q =
     bindR (dispatch_guard now q) (\<lambda>(ready, q1).
       if \<not> ready then Inr (None, False, q1)
       else bindR (TryDispatchEventUnsafe run q1) (\<lambda>(exc, q2). Inr (exc, True, q2)))"

text \<open>
  \<open>DispatchAllEvents\<close> loops while \<open>DispatchEvent\<close> returns true; a function that keeps pending
  keeps it going, so not returning is \<open>None\<close>.  \<open>clock i\<close> is the clock read by the \<open>i\<close>-th call.
\<close>

partial_function (option) dispatch_all_loop ::
  "('f, 'w) call \<Rightarrow> (nat \<Rightarrow> int) \<Rightarrow> nat \<Rightarrow> ('f, 'w) DispatchQueue_scheme
     \<Rightarrow> (aw_error option \<times> nat \<times> ('f, 'w) DispatchQueue_scheme) result option" where
  "dispatch_all_loop run clock retVal q =
     (case DispatchEvent run (clock retVal) q of
        Inl e \<Rightarrow> Some (Inl e)
      | Inr (Some exc, _, q') \<Rightarrow> Some (Inr (Some exc, retVal, q'))
      | Inr (None, b, q') \<Rightarrow>
          if b then dispatch_all_loop run clock (Suc retVal) q'
          else Some (Inr (None, retVal, q')))"

definition DispatchAllEvents ::
  "('f, 'w) call \<Rightarrow> (nat \<Rightarrow> int) \<Rightarrow> ('f, 'w) DispatchQueue_scheme
     \<Rightarrow> (aw_error option \<times> nat \<times> ('f, 'w) DispatchQueue_scheme) result option" where
  "DispatchAllEvents run clock q = dispatch_all_loop run clock 0 q"

section \<open>Abort, rundown and cancellation\<close>

text \<open>
  The loop that deletes a chain of thunks, in the destructor and at the end of
  \<open>ClearQueueInternal\<close>.  It counts the thunks it passes.
\<close>

partial_function (option) delete_chain ::
  "ptr \<Rightarrow> nat \<Rightarrow> ('f, 'w) DispatchQueue_scheme \<Rightarrow> (nat \<times> ('f, 'w) DispatchQueue_scheme) result option"
where
  "delete_chain cur nTraversed q =
     (if cur = None then Some (Inr (nTraversed, q))
      else case bindR (load_thunk cur q) (\<lambda>(a, c). bindR (delete_thunk a q) (\<lambda>q'. Inr (m_pFlink c, q'))) of
             Inl e \<Rightarrow> Some (Inl e)
           | Inr (nxt, q') \<Rightarrow> delete_chain nxt (Suc nTraversed) q')"

definition dq_dtor ::
  "('f, 'w) DispatchQueue_scheme \<Rightarrow> ('f, 'w) DispatchQueue_scheme result option" where
  "dq_dtor q = map_option (\<lambda>r. bindR r (\<lambda>(_, q'). foldR (delete_thunk \<circ> m_thunk) (m_delayedQueue q') q'))
     (delete_chain (m_pHead q) 0 q)"

text \<open>
  The loop of \<open>ClearQueueInternal\<close> that runs the dispatchers.  After a normal return the thunk
  is deleted and the pointer advances; \<open>dispatch_aborted_exception\<close> is swallowed and the loop
  goes round; any other exception leaves the loop.  The result is where \<open>pHead\<close> ended.
\<close>

fun is_dispatch_aborted :: "aw_error \<Rightarrow> bool" where
  "is_dispatch_aborted (dispatch_aborted_exception _) = True"
| "is_dispatch_aborted _ = False"

partial_function (option) rundown_loop ::
  "('f, 'w) call \<Rightarrow> ptr \<Rightarrow> ('f, 'w) DispatchQueue_scheme
     \<Rightarrow> (ptr \<times> ('f, 'w) DispatchQueue_scheme) result option" where
  "rundown_loop run pHead q =
     (if pHead = None then Some (Inr (None, q))
      else case load_thunk pHead q of
             Inl e \<Rightarrow> Some (Inl e)
           | Inr (a, c) \<Rightarrow>
               (case run (m_fx c) q of
                  (None, q1) \<Rightarrow>
                    (case delete_thunk a q1 of
                       Inl e \<Rightarrow> Some (Inl e)
                     | Inr q2 \<Rightarrow> rundown_loop run (m_pFlink c) (q2\<lparr>m_count := m_count q2 - 1\<rparr>))
                | (Some exc, q1) \<Rightarrow>
                    if is_dispatch_aborted exc then rundown_loop run pHead q1
                    else Some (Inr (pHead, q1))))"

definition ClearQueueInternal ::
  "('f, 'w) call \<Rightarrow> bool \<Rightarrow> ('f, 'w) DispatchQueue_scheme
     \<Rightarrow> ('f, 'w) DispatchQueue_scheme result option" where
  "ClearQueueInternal run executeDispatchers q =
     (let pHead = m_pHead q;
          q1 = q\<lparr>onAborted := True, m_dispatchCap := 0, m_pHead := None, m_pTail := None,
                 m_delayedQueue := []\<rparr>
      in case foldR (delete_thunk \<circ> m_thunk) (m_delayedQueue q) q1 of
           Inl e \<Rightarrow> Some (Inl e)
         | Inr q2 \<Rightarrow>
             (case (if executeDispatchers then rundown_loop run pHead q2 else Some (Inr (pHead, q2))) of
                None \<Rightarrow> None
              | Some (Inl e) \<Rightarrow> Some (Inl e)
              | Some (Inr (p, q3)) \<Rightarrow>
                  map_option (\<lambda>r. bindR r (\<lambda>(nTraversed, q4).
                      Inr (notify_all (q4\<lparr>m_count := m_count q4 - nTraversed\<rparr>))))
                    (delete_chain p 0 q3)))"

definition Abort ::
  "('f, 'w) call \<Rightarrow> ('f, 'w) DispatchQueue_scheme \<Rightarrow> ('f, 'w) DispatchQueue_scheme result option" where
  "Abort run q = ClearQueueInternal run False q"

definition Rundown ::
  "('f, 'w) call \<Rightarrow> ('f, 'w) DispatchQueue_scheme \<Rightarrow> ('f, 'w) DispatchQueue_scheme result option" where
  "Rundown run q = ClearQueueInternal run True q"

definition Cancel ::
  "('f, 'w) DispatchQueue_scheme \<Rightarrow> (bool \<times> ('f, 'w) DispatchQueue_scheme) result" where
  "Cancel q =
     (case m_pHead q of
        Some _ \<Rightarrow>
          bindR (pop_front q) (\<lambda>(a, c, q1).
            bindR (delete_thunk a (q1\<lparr>m_count := m_count q1 - 1\<rparr>)) (\<lambda>q2. Inr (True, q2)))
      | None \<Rightarrow>
          (case pq_top (m_delayedQueue q) of
             Some f \<Rightarrow> bindR (delete_thunk (m_thunk f) (q\<lparr>m_delayedQueue := pq_pop (m_delayedQueue q)\<rparr>))
                         (\<lambda>q1. Inr (True, q1))
           | None \<Rightarrow> Inr (False, q)))"

section \<open>Waiting\<close>

definition WakeAllWaitingThreads ::
  "('f, 'w) DispatchQueue_scheme \<Rightarrow> ('f, 'w) DispatchQueue_scheme" where
  "WakeAllWaitingThreads q = notify_all (q\<lparr>m_version := m_version q + 1\<rparr>)"

definition AreAnyDispatchersReady :: "('f, 'w) DispatchQueue_scheme \<Rightarrow> bool" where
  "AreAnyDispatchersReady q \<longleftrightarrow> m_pHead q \<noteq> None"

definition GetDispatchQueueLength :: "('f, 'w) DispatchQueue_scheme \<Rightarrow> nat" where
  "GetDispatchQueueLength q = m_count q + length (m_delayedQueue q)"

definition SuggestSoonestWakeupTimeUnsafe :: "int \<Rightarrow> ('f, 'w) DispatchQueue_scheme \<Rightarrow> int" where
  "SuggestSoonestWakeupTimeUnsafe latestTime q =
     (case pq_top (m_delayedQueue q) of
        None \<Rightarrow> latestTime
      | Some d \<Rightarrow> min (m_readyAt d) latestTime)"

text \<open>
  \<open>condition_variable::wait(lk, pred)\<close> evaluates the predicate, which may throw, and sleeps while
  it is false.  \<open>env i q\<close> is the queue at the \<open>i\<close>-th wakeup, after the other threads' changes.
\<close>

partial_function (option) cv_wait ::
  "('q \<Rightarrow> bool result) \<Rightarrow> (nat \<Rightarrow> 'q \<Rightarrow> 'q) \<Rightarrow> nat \<Rightarrow> 'q \<Rightarrow> 'q result option" where
  "cv_wait pred env i q =
     (case pred q of
        Inl e \<Rightarrow> Some (Inl e)
      | Inr b \<Rightarrow> if b then Some (Inr q) else cv_wait pred env (Suc i) (env i q))"

definition wait_pred :: "64 word \<Rightarrow> ('f, 'w) DispatchQueue_scheme \<Rightarrow> bool result" where
  "wait_pred version q =
     (if onAborted q then
        Inl (dispatch_aborted_exception ''Dispatch queue was aborted while waiting for an event'')
      else Inr (m_delayedQueue q \<noteq> [] \<or> m_pHead q \<noteq> None \<or> version \<noteq> m_version q))"

text \<open>
  The timed wait.  \<open>tenv i t q\<close> is what the \<open>i\<close>-th \<open>wait_until\<close> with deadline \<open>t\<close> returns: whether
  it timed out, and the queue; \<open>clock i\<close> is the time read by the promotion after it.
\<close>

partial_function (option) wait_until_loop ::
  "(nat \<Rightarrow> int) \<Rightarrow> (nat \<Rightarrow> int \<Rightarrow> ('f, 'w) DispatchQueue_scheme \<Rightarrow> bool \<times> ('f, 'w) DispatchQueue_scheme)
     \<Rightarrow> nat \<Rightarrow> int \<Rightarrow> ('f, 'w) DispatchQueue_scheme
     \<Rightarrow> (bool \<times> ('f, 'w) DispatchQueue_scheme) result option" where
  "wait_until_loop clock tenv i wakeTime q =
     (if m_pHead q \<noteq> None then Some (Inr (True, q))
      else let wakeTime' = SuggestSoonestWakeupTimeUnsafe wakeTime q in
           case tenv i wakeTime' q of
             (timeout, q1) \<Rightarrow>
               if onAborted q1 then
                 Some (Inl (dispatch_aborted_exception ''Dispatch queue was aborted while waiting for an event''))
               else case PromoteReadyDispatchersUnsafe (clock i) q1 of
                      Inl e \<Rightarrow> Some (Inl e)
                    | Inr (promoted, q2) \<Rightarrow>
                        if promoted then Some (Inr (True, q2))
                        else if timeout then Some (Inr (False, q2))
                        else wait_until_loop clock tenv (Suc i) wakeTime' q2)"

definition WaitForEventUnsafe ::
  "('f, 'w) call \<Rightarrow> (nat \<Rightarrow> int)
     \<Rightarrow> (nat \<Rightarrow> int \<Rightarrow> ('f, 'w) DispatchQueue_scheme \<Rightarrow> bool \<times> ('f, 'w) DispatchQueue_scheme)
     \<Rightarrow> int \<Rightarrow> ('f, 'w) DispatchQueue_scheme
     \<Rightarrow> (aw_error option \<times> bool \<times> ('f, 'w) DispatchQueue_scheme) result option" where
  "WaitForEventUnsafe run clock tenv wakeTime q =
     (if onAborted q then
        Some (Inl (dispatch_aborted_exception ''Dispatch queue was aborted prior to waiting for an event''))
      else map_option (\<lambda>r. bindR r (\<lambda>(ready, q1).
             if ready then bindR (DispatchEventUnsafe run q1) (\<lambda>(exc, q2). Inr (exc, True, q2))
             else Inr (None, False, q1)))
           (wait_until_loop clock tenv 0 wakeTime q))"

definition WaitForEvent ::
  "('f, 'w) call \<Rightarrow> (nat \<Rightarrow> int)
     \<Rightarrow> (nat \<Rightarrow> ('f, 'w) DispatchQueue_scheme \<Rightarrow> ('f, 'w) DispatchQueue_scheme)
     \<Rightarrow> (nat \<Rightarrow> int \<Rightarrow> ('f, 'w) DispatchQueue_scheme \<Rightarrow> bool \<times> ('f, 'w) DispatchQueue_scheme)
     \<Rightarrow> ('f, 'w) DispatchQueue_scheme
     \<Rightarrow> (aw_error option \<times> ('f, 'w) DispatchQueue_scheme) result option" where
  "WaitForEvent run clock env tenv q =
     (if onAborted q then
        Some (Inl (dispatch_aborted_exception ''Dispatch queue was aborted prior to waiting for an event''))
      else case cv_wait (wait_pred (m_version q)) env 0 q of
             None \<Rightarrow> None
           | Some (Inl e) \<Rightarrow> Some (Inl e)
           | Some (Inr q1) \<Rightarrow>
               if m_pHead q1 \<noteq> None then Some (DispatchEventUnsafe run q1)
               else (case pq_top (m_delayedQueue q1) of
                       Some d \<Rightarrow> map_option (\<lambda>r. bindR r (\<lambda>(exc, _, q2). Inr (exc, q2)))
                                   (WaitForEventUnsafe run clock tenv (m_readyAt d) q1)
                     | None \<Rightarrow> Some (Inr (None, q1))))"

text \<open>
  \<open>WaitForEvent(time_point)\<close>: \<open>time_max\<close> is \<open>steady_clock::time_point::max()\<close>, for which the
  untimed variant is used and true returned.
\<close>

definition WaitForEvent_until ::
  "int \<Rightarrow> ('f, 'w) call \<Rightarrow> (nat \<Rightarrow> int)
     \<Rightarrow> (nat \<Rightarrow> ('f, 'w) DispatchQueue_scheme \<Rightarrow> ('f, 'w) DispatchQueue_scheme)
     \<Rightarrow> (nat \<Rightarrow> int \<Rightarrow> ('f, 'w) DispatchQueue_scheme \<Rightarrow> bool \<times> ('f, 'w) DispatchQueue_scheme)
     \<Rightarrow> int \<Rightarrow> ('f, 'w) DispatchQueue_scheme
     \<Rightarrow> (aw_error option \<times> bool \<times> ('f, 'w) DispatchQueue_scheme) result option" where
  "WaitForEvent_until time_max run clock env tenv wakeTime q =
     (if wakeTime = time_max then
        map_option (\<lambda>r. bindR r (\<lambda>(exc, q1). Inr (exc, True, q1))) (WaitForEvent run clock env tenv q)
      else WaitForEventUnsafe run clock tenv wakeTime q)"

definition WaitForEvent_for ::
  "int \<Rightarrow> ('f, 'w) call \<Rightarrow> (nat \<Rightarrow> int)
     \<Rightarrow> (nat \<Rightarrow> ('f, 'w) DispatchQueue_scheme \<Rightarrow> ('f, 'w) DispatchQueue_scheme)
     \<Rightarrow> (nat \<Rightarrow> int \<Rightarrow> ('f, 'w) DispatchQueue_scheme \<Rightarrow> bool \<times> ('f, 'w) DispatchQueue_scheme)
     \<Rightarrow> int \<Rightarrow> int \<Rightarrow> ('f, 'w) DispatchQueue_scheme
     \<Rightarrow> (aw_error option \<times> bool \<times> ('f, 'w) DispatchQueue_scheme) result option" where
  "WaitForEvent_for time_max run clock env tenv now milliseconds q =
     WaitForEvent_until time_max run clock env tenv (now + milliseconds) q"

text \<open>
  \<open>Barrier(timeout)\<close>: \<open>lam\<close> is the function that sets the flag \<open>complete\<close>, \<open>isset\<close> reads that flag,
  and \<open>wenv\<close> is the effect of \<open>wait_for\<close> with the timeout, which leaves the queue as it was when
  the wait ended and whose value is the predicate at that moment.
\<close>

definition Barrier ::
  "addr \<Rightarrow> 'f \<Rightarrow> (('f, 'w) DispatchQueue_scheme \<Rightarrow> bool)
     \<Rightarrow> (('f, 'w) DispatchQueue_scheme \<Rightarrow> ('f, 'w) DispatchQueue_scheme)
     \<Rightarrow> int \<Rightarrow> ('f, 'w) DispatchQueue_scheme \<Rightarrow> (bool \<times> ('f, 'w) DispatchQueue_scheme) result" where
  "Barrier a lam isset wenv timeout q =
     (if timeout = 0 then Inr (m_count q = 0, q)
      else if onAborted q then
        Inl (dispatch_aborted_exception ''Dispatch queue was aborted before a timed wait was attempted'')
      else bindR (Pend a lam q) (\<lambda>q1.
        let q2 = wenv q1; rv = (onAborted q2 \<or> isset q2) in
        if onAborted q2 then
          Inl (dispatch_aborted_exception ''Dispatch queue was aborted during a timed wait'')
        else Inr (rv, q2)))"

definition Barrier_untimed ::
  "addr \<Rightarrow> 'f \<Rightarrow> (('f, 'w) DispatchQueue_scheme \<Rightarrow> bool)
     \<Rightarrow> (nat \<Rightarrow> ('f, 'w) DispatchQueue_scheme \<Rightarrow> ('f, 'w) DispatchQueue_scheme)
     \<Rightarrow> ('f, 'w) DispatchQueue_scheme \<Rightarrow> ('f, 'w) DispatchQueue_scheme result option" where
  "Barrier_untimed a lam isset env q =
     (case dq_add a lam q of
        Inl e \<Rightarrow> Some (Inl e)
      | Inr (_, q1) \<Rightarrow>
          map_option (\<lambda>r. bindR r (\<lambda>q2.
              if onAborted q2 then
                Inl (dispatch_aborted_exception ''Dispatch queue was aborted while a barrier was invoked'')
              else Inr q2))
            (cv_wait (\<lambda>q'. Inr (onAborted q' \<or> isset q')) env 0 q1))"

end
