(* ===== verification/Dispatch_Queue_Props.thy ===== *)
theory Dispatch_Queue_Props
  imports Dispatch_Queue
begin

text \<open>
  What the dispatch queue promises: its linked list always represents a first-in first-out
  sequence of functions and a deadline-ordered sequence of delayed ones, no operation of a
  well-formed queue touches a null or deleted thunk, and the operations implement the
  corresponding operations on the two sequences.
\<close>

section \<open>The interface of a priority queue, and its interpretation\<close>

locale min_queue =
  fixes push :: "'d \<Rightarrow> 'q \<Rightarrow> 'q"
    and top :: "'q \<Rightarrow> 'd option"
    and pop :: "'q \<Rightarrow> 'q"
    and key :: "'d \<Rightarrow> int"
    and ok :: "'q \<Rightarrow> bool"
    and elems :: "'q \<Rightarrow> 'd multiset"
  assumes ok_push: "ok q \<Longrightarrow> ok (push d q)"
    and ok_pop: "ok q \<Longrightarrow> ok (pop q)"
    and elems_push: "ok q \<Longrightarrow> elems (push d q) = add_mset d (elems q)"
    and top_None: "ok q \<Longrightarrow> top q = None \<longleftrightarrow> elems q = {#}"
    and top_in: "ok q \<Longrightarrow> top q = Some d \<Longrightarrow> d \<in># elems q"
    and top_least: "ok q \<Longrightarrow> top q = Some d \<Longrightarrow> e \<in># elems q \<Longrightarrow> key d \<le> key e"
    and elems_pop: "ok q \<Longrightarrow> top q = Some d \<Longrightarrow> elems (pop q) = elems q - {#d#}"
begin

lemma top_push_le:
  assumes "ok q"
  shows "\<exists>e. top (push d q) = Some e \<and> key e \<le> key d"
proof -
  have "elems (push d q) \<noteq> {#}" using assms by (simp add: elems_push)
  then obtain e where e: "top (push d q) = Some e"
    using top_None [OF ok_push [OF assms, of d]] by (cases "top (push d q)") auto
  moreover have "d \<in># elems (push d q)" using assms by (simp add: elems_push)
  ultimately show ?thesis using top_least [OF ok_push [OF assms]] by blast
qed

lemma pop_shrinks:
  assumes "ok q" "top q = Some d"
  shows "size (elems (pop q)) < size (elems q)"
proof -
  from assms have "d \<in># elems q" by (rule top_in)
  then show ?thesis using assms by (simp add: elems_pop size_Diff1_less)
qed

lemma pop_keys_not_below_top:
  assumes "ok q" "top q = Some d" "e \<in># elems (pop q)"
  shows "key d \<le> key e"
  using assms by (metis elems_pop in_diffD top_least)

end

lemma mset_pq_push: "mset (pq_push d ds) = add_mset d (mset ds)"
  by (induction ds) auto

lemma set_pq_push [simp]: "set (pq_push d ds) = insert d (set ds)"
  by (induction ds) auto

lemma pq_ok_push: "pq_ok ds \<Longrightarrow> pq_ok (pq_push d ds)"
  unfolding pq_ok_def by (induction ds) (auto simp: delayed_less_def)

lemma pq_ok_tl: "pq_ok (d # ds) \<Longrightarrow> pq_ok ds"
  by (simp add: pq_ok_def)

interpretation delayed: min_queue pq_push pq_top pq_pop m_readyAt pq_ok mset
proof unfold_locales
  fix q :: "DispatchThunkDelayed list" and d e
  assume ok: "pq_ok q"
  show "pq_ok (pq_push d q)" using ok by (rule pq_ok_push)
  show "pq_ok (pq_pop q)" using ok by (cases q) (auto simp: pq_pop_def pq_ok_def)
  show "mset (pq_push d q) = add_mset d (mset q)" by (rule mset_pq_push)
  show "(pq_top q = None) = (mset q = {#})" by (cases q) (auto simp: pq_top_def)
  assume t: "pq_top q = Some d"
  show "d \<in># mset q" using t by (cases q) (auto simp: pq_top_def)
  show "mset (pq_pop q) = mset q - {#d#}" using t by (cases q) (auto simp: pq_top_def pq_pop_def)
  assume "e \<in># mset q"
  then show "m_readyAt d \<le> m_readyAt e"
    using t ok by (cases q) (auto simp: pq_top_def pq_ok_def)
qed

section \<open>Representation\<close>

definition links :: "('f, 'w) DispatchQueue_scheme \<Rightarrow> addr \<rightharpoonup> ptr" where
  "links q = (\<lambda>a. map_option m_pFlink (m_heap q a))"

definition fx_at :: "('f, 'w) DispatchQueue_scheme \<Rightarrow> addr \<Rightarrow> 'f" where
  "fx_at q a = m_fx (the (m_heap q a))"

text \<open>
  \<open>dq_rep q as\<close>: the list from \<open>m_pHead\<close> is \<open>as\<close>, \<open>m_pTail\<close> is its last cell, and the delayed
  thunks are allocated, unlinked, distinct, outside the list and sorted by ready time.
\<close>

definition dq_rep :: "('f, 'w) DispatchQueue_scheme \<Rightarrow> addr list \<Rightarrow> bool" where
  "dq_rep q as \<longleftrightarrow>
     chain (links q) (m_pHead q) as None \<and>
     (as \<noteq> [] \<longrightarrow> m_pTail q = Some (last as)) \<and>
     pq_ok (m_delayedQueue q) \<and>
     distinct (map m_thunk (m_delayedQueue q)) \<and>
     (\<forall>d \<in> set (m_delayedQueue q). links q (m_thunk d) = Some None \<and> m_thunk d \<notin> set as)"

text \<open>The abstract content: the functions ready to run, in order, and the delayed ones.\<close>

definition delayed_fns :: "('f, 'w) DispatchQueue_scheme \<Rightarrow> (int \<times> 'f) list" where
  "delayed_fns q = map (\<lambda>d. (m_readyAt d, fx_at q (m_thunk d))) (m_delayedQueue q)"

definition represents ::
  "('f, 'w) DispatchQueue_scheme \<Rightarrow> 'f list \<Rightarrow> (int \<times> 'f) list \<Rightarrow> bool" where
  "represents q R D \<longleftrightarrow> (\<exists>as. dq_rep q as \<and> R = map (fx_at q) as \<and> D = delayed_fns q)"

lemma links_simps [simp]:
  "links (new_thunk a f q) = (links q)(a \<mapsto> None)"
  "links (q\<lparr>m_pHead := p\<rparr>) = links q"
  "links (q\<lparr>m_pTail := p\<rparr>) = links q"
  "links (q\<lparr>m_count := n\<rparr>) = links q"
  "links (q\<lparr>m_delayedQueue := ds\<rparr>) = links q"
  "links (q\<lparr>m_dispatchCap := n\<rparr>) = links q"
  "links (q\<lparr>onAborted := b\<rparr>) = links q"
  "links (notify_all q) = links q"
  "links (q\<lparr>m_heap := h\<rparr>) = (\<lambda>a. map_option m_pFlink (h a))"
  by (auto simp: links_def new_thunk_def notify_all_def)

lemma fx_at_simps [simp]:
  "fx_at (q\<lparr>m_pHead := p\<rparr>) = fx_at q"
  "fx_at (q\<lparr>m_pTail := p\<rparr>) = fx_at q"
  "fx_at (q\<lparr>m_count := n\<rparr>) = fx_at q"
  "fx_at (q\<lparr>m_delayedQueue := ds\<rparr>) = fx_at q"
  "fx_at (q\<lparr>m_dispatchCap := n\<rparr>) = fx_at q"
  "fx_at (q\<lparr>onAborted := b\<rparr>) = fx_at q"
  "fx_at (notify_all q) = fx_at q"
  by (auto simp: fx_at_def notify_all_def fun_eq_iff)

lemma links_eq_None_iff [simp]: "links q a = None \<longleftrightarrow> m_heap q a = None"
  by (simp add: links_def)

lemma chain_links_allocated:
  "chain (links q) p as r \<Longrightarrow> a \<in> set as \<Longrightarrow> \<exists>c. m_heap q a = Some c"
  using chain_allocated [of "links q"] by fastforce

subsection \<open>Adding one cell at the tail\<close>

text \<open>
  The step shared by \<open>PendExisting\<close>, \<open>operator+=\<close> and the promotion loop: an unlinked allocated
  cell outside the list is linked after the tail, or becomes the head of an empty list.
\<close>

definition link_tail ::
  "addr \<Rightarrow> ('f, 'w) DispatchQueue_scheme \<Rightarrow> ('f, 'w) DispatchQueue_scheme result" where
  "link_tail thunk q =
     bindR (case m_pHead q of
              Some _ \<Rightarrow> set_flink (m_pTail q) (Some thunk) q
            | None \<Rightarrow> Inr (q\<lparr>m_pHead := Some thunk\<rparr>))
       (\<lambda>q1. Inr (q1\<lparr>m_pTail := Some thunk\<rparr>))"

lemma set_flink_allocated:
  assumes "m_heap q a = Some c"
  shows "set_flink (Some a) v q = Inr (q\<lparr>m_heap := (m_heap q)(a \<mapsto> c\<lparr>m_pFlink := v\<rparr>)\<rparr>)"
  using assms by (simp add: set_flink_def load_thunk_def)

lemma link_tail_rep:
  assumes rep: "dq_rep q as"
    and a: "links q a = Some None" "a \<notin> set as" "a \<notin> m_thunk ` set (m_delayedQueue q)"
  shows "\<exists>h. link_tail a q = Inr (q\<lparr>m_heap := h, m_pHead := Some (hd (as @ [a])), m_pTail := Some a\<rparr>) \<and>
           dq_rep (q\<lparr>m_heap := h, m_pHead := Some (hd (as @ [a])), m_pTail := Some a\<rparr>) (as @ [a]) \<and>
           (\<forall>b. fx_at (q\<lparr>m_heap := h\<rparr>) b = fx_at q b) \<and> dom h = dom (m_heap q)"
proof (cases as)
  case Nil
  with rep a show ?thesis
    by (intro exI [of _ "m_heap q"])
       (auto simp: dq_rep_def link_tail_def links_def fx_at_def split: option.splits)
next
  case (Cons x xs)
  define l where "l = last as"
  obtain bs where bs: "as = bs @ [l]" using Cons by (metis append_butlast_last_id l_def list.distinct(1))
  have ch: "chain (links q) (m_pHead q) (bs @ [l]) None" and tl: "m_pTail q = Some l"
    using rep bs by (auto simp: dq_rep_def)
  obtain c where c: "m_heap q l = Some c"
    using chain_links_allocated [OF ch, of l] by auto
  have hd: "m_pHead q = Some x" using rep Cons by (auto simp: dq_rep_def)
  define h where "h = (m_heap q)(l \<mapsto> c\<lparr>m_pFlink := Some a\<rparr>)"
  have la: "l \<noteq> a" using a(2) bs by auto
  have links: "(\<lambda>b. map_option m_pFlink (h b)) = (links q)(a \<mapsto> None, l \<mapsto> Some a)"
    using a(1) la by (auto simp: h_def links_def fun_eq_iff)
  have "chain ((links q)(a \<mapsto> None, l \<mapsto> Some a)) (m_pHead q) (bs @ [l, a]) None"
    using chain_snoc_link [OF ch] a(2) bs by simp
  moreover have "l \<notin> m_thunk ` set (m_delayedQueue q)" using rep bs by (auto simp: dq_rep_def)
  ultimately have "dq_rep (q\<lparr>m_heap := h, m_pHead := Some x, m_pTail := Some a\<rparr>) (as @ [a])"
    using rep bs a hd by (auto simp: dq_rep_def links)
  moreover have "link_tail a q = Inr (q\<lparr>m_heap := h, m_pHead := Some x, m_pTail := Some a\<rparr>)"
    using hd tl c by (simp add: link_tail_def set_flink_allocated h_def)
  moreover have "\<forall>b. fx_at (q\<lparr>m_heap := h\<rparr>) b = fx_at q b"
    using c by (auto simp: fx_at_def h_def)
  moreover have "dom h = dom (m_heap q)" using c by (auto simp: h_def)
  ultimately show ?thesis using Cons by auto
qed

subsection \<open>Frame lemmas\<close>

lemma dq_rep_frame [simp]:
  "dq_rep (q\<lparr>m_count := n\<rparr>) as = dq_rep q as"
  "dq_rep (q\<lparr>onAborted := b\<rparr>) as = dq_rep q as"
  "dq_rep (q\<lparr>m_dispatchCap := k\<rparr>) as = dq_rep q as"
  "dq_rep (notify_all q) as = dq_rep q as"
  by (simp_all add: dq_rep_def notify_all_def links_def)

lemma delayed_fns_frame [simp]:
  "delayed_fns (q\<lparr>m_count := n\<rparr>) = delayed_fns q"
  "delayed_fns (q\<lparr>onAborted := b\<rparr>) = delayed_fns q"
  "delayed_fns (q\<lparr>m_dispatchCap := k\<rparr>) = delayed_fns q"
  "delayed_fns (q\<lparr>m_pHead := p\<rparr>) = delayed_fns q"
  "delayed_fns (q\<lparr>m_pTail := p\<rparr>) = delayed_fns q"
  "delayed_fns (notify_all q) = delayed_fns q"
  by (simp_all add: delayed_fns_def notify_all_def fx_at_def)

lemma represents_frame [simp]:
  "represents (q\<lparr>m_count := n\<rparr>) R D = represents q R D"
  "represents (q\<lparr>onAborted := b\<rparr>) R D = represents q R D"
  "represents (q\<lparr>m_dispatchCap := k\<rparr>) R D = represents q R D"
  "represents (notify_all q) R D = represents q R D"
  by (simp_all add: represents_def)

lemma notify_all_fields [simp]:
  "m_count (notify_all q) = m_count q" "m_pHead (notify_all q) = m_pHead q"
  "m_heap (notify_all q) = m_heap q" "m_delayedQueue (notify_all q) = m_delayedQueue q"
  "onAborted (notify_all q) = onAborted q" "m_dispatchCap (notify_all q) = m_dispatchCap q"
  "m_pTail (notify_all q) = m_pTail q"
  "DispatchQueue.more (notify_all q) = DispatchQueue.more q"
  "m_queueUpdated (notify_all q) = Suc (m_queueUpdated q)"
  by (simp_all add: notify_all_def)

lemma new_thunk_fields [simp]:
  "m_count (new_thunk a f q) = m_count q" "m_pHead (new_thunk a f q) = m_pHead q"
  "m_delayedQueue (new_thunk a f q) = m_delayedQueue q" "m_pTail (new_thunk a f q) = m_pTail q"
  "onAborted (new_thunk a f q) = onAborted q" "m_dispatchCap (new_thunk a f q) = m_dispatchCap q"
  "m_queueUpdated (new_thunk a f q) = m_queueUpdated q"
  "DispatchQueue.more (new_thunk a f q) = DispatchQueue.more q"
  "m_heap (new_thunk a f q) = (m_heap q)(a \<mapsto> \<lparr>m_fx = f, m_pFlink = None\<rparr>)"
  by (simp_all add: new_thunk_def)

lemma dq_rep_allocated:
  assumes "dq_rep q as"
  shows "a \<in> set as \<Longrightarrow> m_heap q a \<noteq> None"
    and "d \<in> set (m_delayedQueue q) \<Longrightarrow> m_heap q (m_thunk d) \<noteq> None"
  using assms chain_links_allocated [of q "m_pHead q" as None a]
  by (fastforce simp: dq_rep_def links_def)+

text \<open>Changing cells that the queue does not own keeps the representation.\<close>

lemma dq_rep_heap_upd:
  assumes "dq_rep q as" "a \<notin> set as" "a \<notin> m_thunk ` set (m_delayedQueue q)"
  shows "dq_rep (q\<lparr>m_heap := (m_heap q)(a := v)\<rparr>) as"
proof -
  have "links (q\<lparr>m_heap := (m_heap q)(a := v)\<rparr>) = (links q)(a := map_option m_pFlink v)"
    by (auto simp: links_def fun_eq_iff)
  then show ?thesis
    using assms unfolding dq_rep_def by (auto simp del: links_simps)
qed

lemma represents_heap_upd:
  assumes "dq_rep q as" "R = map (fx_at q) as" "D = delayed_fns q"
    and "a \<notin> set as" "a \<notin> m_thunk ` set (m_delayedQueue q)"
  shows "represents (q\<lparr>m_heap := (m_heap q)(a := v)\<rparr>) R D"
proof -
  have "map (fx_at (q\<lparr>m_heap := (m_heap q)(a := v)\<rparr>)) as = map (fx_at q) as"
    using assms(4) by (auto simp: fx_at_def)
  moreover have "delayed_fns (q\<lparr>m_heap := (m_heap q)(a := v)\<rparr>) = delayed_fns q"
    using assms(5) by (auto simp: delayed_fns_def fx_at_def)
  ultimately show ?thesis
    using dq_rep_heap_upd [OF assms(1,4,5)] assms(2,3) unfolding represents_def by metis
qed

lemma fresh_not_owned:
  assumes "dq_rep q as" "m_heap q a = None"
  shows "a \<notin> set as" "a \<notin> m_thunk ` set (m_delayedQueue q)"
  using dq_rep_allocated [OF assms(1)] assms(2) by blast+

lemma represents_new_thunk:
  assumes "dq_rep q as" "m_heap q a = None"
  shows "dq_rep (new_thunk a f q) as" "map (fx_at (new_thunk a f q)) as = map (fx_at q) as"
    "delayed_fns (new_thunk a f q) = delayed_fns q" "fx_at (new_thunk a f q) a = f"
    "links (new_thunk a f q) a = Some None"
proof -
  note fr = fresh_not_owned [OF assms]
  show "dq_rep (new_thunk a f q) as"
    using dq_rep_heap_upd [OF assms(1) fr] by (simp add: new_thunk_def)
  show "map (fx_at (new_thunk a f q)) as = map (fx_at q) as" using fr(1) by (auto simp: fx_at_def)
  show "delayed_fns (new_thunk a f q) = delayed_fns q"
    using fr(2) by (auto simp: delayed_fns_def fx_at_def)
  show "fx_at (new_thunk a f q) a = f" by (simp add: fx_at_def)
  show "links (new_thunk a f q) a = Some None" by simp
qed

text \<open>The append step in terms of the represented sequences.\<close>

lemma link_tail_represents:
  assumes "dq_rep q as" "links q a = Some None" "a \<notin> set as"
    "a \<notin> m_thunk ` set (m_delayedQueue q)"
  shows "\<exists>q'. link_tail a q = Inr q' \<and>
     represents q' (map (fx_at q) as @ [fx_at q a]) (delayed_fns q) \<and> dq_rep q' (as @ [a]) \<and>
     fx_at q' = fx_at q \<and> m_count q' = m_count q \<and> m_delayedQueue q' = m_delayedQueue q \<and>
     m_dispatchCap q' = m_dispatchCap q \<and> onAborted q' = onAborted q \<and>
     DispatchQueue.more q' = DispatchQueue.more q \<and> dom (m_heap q') = dom (m_heap q) \<and>
     m_queueUpdated q' = m_queueUpdated q"
proof -
  from link_tail_rep [OF assms] obtain h where
    h: "link_tail a q = Inr (q\<lparr>m_heap := h, m_pHead := Some (hd (as @ [a])), m_pTail := Some a\<rparr>)"
       "dq_rep (q\<lparr>m_heap := h, m_pHead := Some (hd (as @ [a])), m_pTail := Some a\<rparr>) (as @ [a])"
    and fx: "\<forall>b. fx_at (q\<lparr>m_heap := h\<rparr>) b = fx_at q b" and dom: "dom h = dom (m_heap q)"
    by auto
  let ?q = "q\<lparr>m_heap := h, m_pHead := Some (hd (as @ [a])), m_pTail := Some a\<rparr>"
  have fx': "fx_at ?q = fx_at q" using fx by (auto simp: fx_at_def fun_eq_iff)
  have "delayed_fns ?q = delayed_fns q" unfolding delayed_fns_def fx' by simp
  with h(2) fx' have "represents ?q (map (fx_at q) as @ [fx_at q a]) (delayed_fns q)"
    unfolding represents_def by (intro exI [of _ "as @ [a]"]) auto
  with h fx' dom show ?thesis by auto
qed

section \<open>Pending\<close>

lemma PendExisting_link_tail:
  "PendExisting a q = bindR (link_tail a (q\<lparr>m_count := Suc (m_count q)\<rparr>))
     (\<lambda>q'. Inr (if m_pHead q = None then notify_all q' else q'))"
  by (cases "m_pHead q")
     (auto simp: PendExisting_def link_tail_def Let_def OnPended_def bindR_def set_flink_def
        load_thunk_def notify_all_def split: option.splits sum.splits)

lemma dq_add_link_tail:
  "dq_add a f q =
     (if m_count q < m_dispatchCap q then
        bindR (link_tail a ((new_thunk a f q)\<lparr>m_count := Suc (m_count q)\<rparr>))
          (\<lambda>q'. Inr (True, if m_pHead q = None then notify_all q' else q'))
      else bindR (delete_thunk a (new_thunk a f q)) (\<lambda>q1. Inr (False, q1)))"
  by (cases "m_pHead q")
     (auto simp: dq_add_def link_tail_def Let_def OnPended_def bindR_def set_flink_def
        load_thunk_def notify_all_def split: option.splits sum.splits)

lemma link_ready_link_tail:
  "link_ready a q = bindR (link_tail a q) (\<lambda>q'. Inr (q'\<lparr>m_count := Suc (m_count q')\<rparr>))"
  by (cases "m_pHead q") (auto simp: link_ready_def link_tail_def bindR_def split: sum.splits)

lemma delete_new_thunk [simp]:
  "m_heap q a = None \<Longrightarrow> delete_thunk a (new_thunk a f q) = Inr q"
  by (cases q) (simp add: delete_thunk_def new_thunk_def fun_upd_idem)

lemma represents_empty_iff: "represents q R D \<Longrightarrow> m_pHead q = None \<longleftrightarrow> R = []"
  unfolding represents_def dq_rep_def by (cases "m_pHead q") (auto simp: chain_Some_iff)

lemma Pend_represents:
  assumes "represents q R D" "m_heap q a = None"
  shows "\<exists>q'. Pend a f q = Inr q' \<and> represents q' (R @ [f]) D \<and> m_count q' = Suc (m_count q) \<and>
     m_queueUpdated q' = m_queueUpdated q + (if R = [] then 1 else 0) \<and>
     m_dispatchCap q' = m_dispatchCap q \<and> onAborted q' = onAborted q \<and>
     DispatchQueue.more q' = DispatchQueue.more q"
proof -
  from assms obtain as where as: "dq_rep q as" "R = map (fx_at q) as" "D = delayed_fns q"
    by (auto simp: represents_def)
  let ?q = "(new_thunk a f q)\<lparr>m_count := Suc (m_count q)\<rparr>"
  note n = represents_new_thunk [OF as(1) assms(2), of f]
    and fr = fresh_not_owned [OF as(1) assms(2)]
  from n fr have rep: "dq_rep ?q as" "links ?q a = Some None" "a \<notin> set as"
    "a \<notin> m_thunk ` set (m_delayedQueue ?q)" by auto
  obtain q' where q': "link_tail a ?q = Inr q'" "represents q' (R @ [f]) D"
    "m_count q' = Suc (m_count q)" "m_queueUpdated q' = m_queueUpdated q"
    "m_dispatchCap q' = m_dispatchCap q" "onAborted q' = onAborted q"
    "DispatchQueue.more q' = DispatchQueue.more q"
    using link_tail_represents [OF rep] n as by auto
  have "m_pHead q = None \<longleftrightarrow> R = []" by (rule represents_empty_iff [OF assms(1)])
  with q' show ?thesis by (auto simp: Pend_def PendExisting_link_tail)
qed

lemma dq_add_represents:
  assumes "represents q R D" "m_heap q a = None"
  shows "\<exists>q'. dq_add a f q = Inr (m_count q < m_dispatchCap q, q') \<and>
     (if m_count q < m_dispatchCap q
      then represents q' (R @ [f]) D \<and> m_count q' = Suc (m_count q) \<and>
           m_queueUpdated q' = m_queueUpdated q + (if R = [] then 1 else 0) \<and>
           m_dispatchCap q' = m_dispatchCap q \<and> onAborted q' = onAborted q \<and>
           DispatchQueue.more q' = DispatchQueue.more q
      else q' = q)"
proof (cases "m_count q < m_dispatchCap q")
  case True
  have "dq_add a f q = bindR (Pend a f q) (\<lambda>q'. Inr (True, q'))"
    using True by (simp add: dq_add_link_tail Pend_def PendExisting_link_tail bindR_assoc)
  then show ?thesis using Pend_represents [OF assms, of f] True by auto
next
  case False
  then show ?thesis using assms(2) by (auto simp: dq_add_link_tail)
qed

text \<open>Delayed insertion.\<close>

fun delayed_insert :: "int \<times> 'f \<Rightarrow> (int \<times> 'f) list \<Rightarrow> (int \<times> 'f) list" where
  "delayed_insert x [] = [x]"
| "delayed_insert x (y # ys) = (if fst x < fst y then x # y # ys else y # delayed_insert x ys)"

lemma map_pq_push:
  "map (\<lambda>d. (m_readyAt d, g (m_thunk d))) (pq_push d ds) =
     delayed_insert (m_readyAt d, g (m_thunk d)) (map (\<lambda>d. (m_readyAt d, g (m_thunk d))) ds)"
  by (induction ds) (auto simp: delayed_less_def)

lemma distinct_pq_push:
  "distinct (map m_thunk (pq_push d ds)) \<longleftrightarrow> m_thunk d \<notin> m_thunk ` set ds \<and> distinct (map m_thunk ds)"
  by (induction ds) auto

lemma dq_add_abs_represents:
  assumes "represents q R D" "m_heap q a = None"
  shows "represents (dq_add_abs t a f q) R (delayed_insert (t, f) D) \<and>
     m_count (dq_add_abs t a f q) = m_count q \<and>
     m_dispatchCap (dq_add_abs t a f q) = m_dispatchCap q \<and>
     onAborted (dq_add_abs t a f q) = onAborted q \<and>
     DispatchQueue.more (dq_add_abs t a f q) = DispatchQueue.more q"
proof -
  from assms obtain as where as: "dq_rep q as" "R = map (fx_at q) as" "D = delayed_fns q"
    by (auto simp: represents_def)
  note n = represents_new_thunk [OF as(1) assms(2), of f]
    and fr = fresh_not_owned [OF as(1) assms(2)]
  define d where "d = \<lparr>m_readyAt = t, m_thunk = a\<rparr>"
  let ?q = "(new_thunk a f q)\<lparr>m_delayedQueue := pq_push d (m_delayedQueue q)\<rparr>"
  have "dq_rep ?q as"
    using n(1,5) fr by (auto simp: dq_rep_def d_def pq_ok_push distinct_pq_push)
  moreover have "map (fx_at ?q) as = R" using n(2) as(2) by simp
  moreover have "delayed_fns ?q = delayed_insert (t, f) D"
    using n(3,4) as(3) by (simp add: delayed_fns_def map_pq_push d_def cong: map_cong)
  ultimately have "represents ?q R (delayed_insert (t, f) D)" unfolding represents_def by metis
  then show ?thesis by (auto simp: dq_add_abs_def dq_add_delayed_def d_def Let_def)
qed

section \<open>Promotion\<close>

lemma link_tail_delayed:
  "link_tail a (q\<lparr>m_delayedQueue := ds\<rparr>) = bindR (link_tail a q) (\<lambda>q'. Inr (q'\<lparr>m_delayedQueue := ds\<rparr>))"
  by (auto simp: link_tail_def set_flink_def load_thunk_def bindR_def split: option.splits sum.splits)

lemma link_tail_keeps_delayed: "link_tail a q = Inr q' \<Longrightarrow> m_delayedQueue q' = m_delayedQueue q"
  by (auto simp: link_tail_def set_flink_def load_thunk_def bindR_eq_Inr_iff split: option.splits)

lemma dq_rep_pop_delayed:
  assumes "dq_rep q as" "m_delayedQueue q = d # ds"
  shows "dq_rep (q\<lparr>m_delayedQueue := ds\<rparr>) as" "links q (m_thunk d) = Some None"
    "m_thunk d \<notin> set as" "m_thunk d \<notin> m_thunk ` set ds"
  using assms by (auto simp: dq_rep_def pq_ok_def)

lemma promote_loop_rep:
  assumes "dq_rep q as" "m_delayedQueue q = ds"
  shows "\<exists>q' bs. promote_loop now ds q = Inr q' \<and> dq_rep q' (as @ bs) \<and>
     bs = map m_thunk (takeWhile (\<lambda>d. m_readyAt d < now) ds) \<and>
     m_delayedQueue q' = dropWhile (\<lambda>d. m_readyAt d < now) ds \<and>
     fx_at q' = fx_at q \<and> m_count q' = m_count q + length bs \<and>
     onAborted q' = onAborted q \<and> m_dispatchCap q' = m_dispatchCap q \<and>
     DispatchQueue.more q' = DispatchQueue.more q \<and> dom (m_heap q') = dom (m_heap q)"
  using assms
proof (induction ds arbitrary: q as)
  case Nil
  then show ?case by simp
next
  case (Cons d ds)
  show ?case
  proof (cases "m_readyAt d < now")
    case False
    with Cons.prems show ?thesis by auto
  next
    case True
    note pop = dq_rep_pop_delayed [OF Cons.prems]
    let ?q0 = "q\<lparr>m_delayedQueue := ds\<rparr>"
    have "links ?q0 (m_thunk d) = Some None" "m_thunk d \<notin> m_thunk ` set (m_delayedQueue ?q0)"
      using pop(2,4) by auto
    from link_tail_represents [OF pop(1) this(1) pop(3) this(2)] obtain q0' where
      q0': "link_tail (m_thunk d) ?q0 = Inr q0'" "dq_rep q0' (as @ [m_thunk d])"
      "fx_at q0' = fx_at q" "m_count q0' = m_count q" "m_delayedQueue q0' = ds"
      "m_dispatchCap q0' = m_dispatchCap q" "onAborted q0' = onAborted q"
      "DispatchQueue.more q0' = DispatchQueue.more q" "dom (m_heap q0') = dom (m_heap q)"
      by auto
    from q0'(1) obtain q1 where q1: "link_tail (m_thunk d) q = Inr q1"
      "q0' = q1\<lparr>m_delayedQueue := ds\<rparr>"
      by (auto simp: link_tail_delayed bindR_eq_Inr_iff)
    have "m_delayedQueue q1 = d # ds" using link_tail_keeps_delayed [OF q1(1)] Cons.prems by simp
    then have step: "promote_loop now (d # ds) q
        = promote_loop now ds (q0'\<lparr>m_count := Suc (m_count q0')\<rparr>)"
      using True q1 by (cases q1) (simp add: link_ready_link_tail pq_pop_def)
    have "dq_rep (q0'\<lparr>m_count := Suc (m_count q0')\<rparr>) (as @ [m_thunk d])" using q0'(2) by simp
    from Cons.IH [OF this] q0' step True show ?thesis by auto
  qed
qed

lemma map_takeWhile_delayed:
  "map (\<lambda>d. g (m_thunk d)) (takeWhile (\<lambda>d. m_readyAt d < now) ds) =
     map snd (takeWhile (\<lambda>p. fst p < now) (map (\<lambda>d. (m_readyAt d, g (m_thunk d))) ds))"
  "map (\<lambda>d. (m_readyAt d, g (m_thunk d))) (dropWhile (\<lambda>d. m_readyAt d < now) ds) =
     dropWhile (\<lambda>p. fst p < now) (map (\<lambda>d. (m_readyAt d, g (m_thunk d))) ds)"
  by (induction ds) auto

lemma PromoteReady_represents:
  assumes "represents q R D"
  shows "\<exists>q'. PromoteReadyDispatchersUnsafe now q
        = Inr (takeWhile (\<lambda>p. fst p < now) D \<noteq> [], q') \<and>
     represents q' (R @ map snd (takeWhile (\<lambda>p. fst p < now) D)) (dropWhile (\<lambda>p. fst p < now) D) \<and>
     m_count q' = m_count q + length (takeWhile (\<lambda>p. fst p < now) D) \<and>
     onAborted q' = onAborted q \<and> m_dispatchCap q' = m_dispatchCap q \<and>
     DispatchQueue.more q' = DispatchQueue.more q"
proof -
  from assms obtain as where as: "dq_rep q as" "R = map (fx_at q) as" "D = delayed_fns q"
    by (auto simp: represents_def)
  let ?P = "\<lambda>d. m_readyAt d < now" and ?Q = "\<lambda>p. fst p < now" and ?ds = "m_delayedQueue q"
  from promote_loop_rep [OF as(1) refl, of now] obtain q' where
    q': "promote_loop now ?ds q = Inr q'" "dq_rep q' (as @ map m_thunk (takeWhile ?P ?ds))"
    "m_delayedQueue q' = dropWhile ?P ?ds" "fx_at q' = fx_at q"
    "m_count q' = m_count q + length (takeWhile ?P ?ds)"
    "onAborted q' = onAborted q" "m_dispatchCap q' = m_dispatchCap q"
    "DispatchQueue.more q' = DispatchQueue.more q" by auto
  have D: "map snd (takeWhile ?Q D) = map (\<lambda>d. fx_at q (m_thunk d)) (takeWhile ?P ?ds)"
    "dropWhile ?Q D = map (\<lambda>d. (m_readyAt d, fx_at q (m_thunk d))) (dropWhile ?P ?ds)"
    by (simp_all add: as(3) delayed_fns_def map_takeWhile_delayed)
  have "length ?ds \<noteq> length (dropWhile ?P ?ds) \<longleftrightarrow> takeWhile ?P ?ds \<noteq> []"
    using length_append [of "takeWhile ?P ?ds" "dropWhile ?P ?ds"] by auto
  moreover have "length (takeWhile ?P ?ds) = length (takeWhile ?Q D)"
    using arg_cong [OF D(1), of length] by simp
  moreover have "represents q' (R @ map snd (takeWhile ?Q D)) (dropWhile ?Q D)"
    using q'(2-4) as(2) D unfolding represents_def
    by (intro exI [of _ "as @ map m_thunk (takeWhile ?P ?ds)"]) (simp add: delayed_fns_def)
  ultimately show ?thesis
    using q' by (auto simp: PromoteReadyDispatchersUnsafe_def Let_def)
qed

section \<open>Dispatching\<close>

text \<open>
  Taking the front thunk.  Between the pop and the deletion the cell is allocated but belongs to
  neither list; \<open>in_flight q a c\<close> says so, and deleting or re-linking it is then safe.
\<close>

definition in_flight :: "('f, 'w) DispatchQueue_scheme \<Rightarrow> addr \<Rightarrow> 'f list \<Rightarrow> (int \<times> 'f) list \<Rightarrow> bool" where
  "in_flight q a R D \<longleftrightarrow> m_heap q a \<noteq> None \<and>
     (\<exists>as. dq_rep q as \<and> R = map (fx_at q) as \<and> D = delayed_fns q \<and>
       a \<notin> set as \<and> a \<notin> m_thunk ` set (m_delayedQueue q))"

lemma in_flight_represents: "in_flight q a R D \<Longrightarrow> represents q R D"
  by (auto simp: in_flight_def represents_def)

lemma pop_front_represents:
  assumes "represents q (f # R) D"
  shows "\<exists>a c. pop_front q = Inr (a, c, q\<lparr>m_pHead := m_pFlink c\<rparr>) \<and> m_fx c = f \<and>
     m_heap q a = Some c \<and> in_flight (q\<lparr>m_pHead := m_pFlink c\<rparr>) a R D"
proof -
  from assms obtain a as where as: "dq_rep q (a # as)" "f # R = map (fx_at q) (a # as)"
    "D = delayed_fns q" by (auto simp: represents_def Cons_eq_map_conv)
  from as(1) obtain c where c: "m_pHead q = Some a" "m_heap q a = Some c"
    "chain (links q) (m_pFlink c) as None"
    by (auto simp: dq_rep_def links_def split: option.splits)
  have "a \<notin> set as" using as(1) chain_distinct [of "links q" "m_pHead q" "a # as"]
    by (simp add: dq_rep_def)
  moreover have "dq_rep (q\<lparr>m_pHead := m_pFlink c\<rparr>) as"
    using as(1) c(3) by (auto simp: dq_rep_def split: if_splits)
  ultimately have "in_flight (q\<lparr>m_pHead := m_pFlink c\<rparr>) a R D"
    using as c(2) unfolding in_flight_def by (auto simp: dq_rep_def)
  then show ?thesis using c as(2) by (auto simp: pop_front_def load_thunk_def fx_at_def)
qed

lemma in_flight_delete:
  assumes "in_flight q a R D"
  shows "delete_thunk a q = Inr (q\<lparr>m_heap := (m_heap q)(a := None)\<rparr>)"
    and "represents (q\<lparr>m_heap := (m_heap q)(a := None)\<rparr>) R D"
  using assms represents_heap_upd [of q _ R D a None]
  by (auto simp: in_flight_def delete_thunk_def)

lemma in_flight_frame [simp]:
  "in_flight (q\<lparr>m_count := n\<rparr>) a R D = in_flight q a R D"
  "in_flight (notify_all q) a R D = in_flight q a R D"
  by (simp_all add: in_flight_def)

lemma in_flight_count_down [simp]: "in_flight (count_down q) a R D = in_flight q a R D"
  by (simp add: count_down_def Let_def)

lemma count_down_fields [simp]:
  "m_count (count_down q) = m_count q - 1"
  "m_heap (count_down q) = m_heap q"
  "onAborted (count_down q) = onAborted q" "m_dispatchCap (count_down q) = m_dispatchCap q"
  "DispatchQueue.more (count_down q) = DispatchQueue.more q"
  by (simp_all add: count_down_def Let_def)

text \<open>
  A dispatch of a non-empty queue, for a call whose effect on the queue keeps the popped cell in
  flight: the front function is called exactly once, its cell is deleted, the count goes down by
  one, and this also happens when the call throws.
\<close>

lemma DispatchEventUnsafe_represents:
  assumes "represents q (f # R) D"
    and run: "\<And>a q1. in_flight q1 a R D \<Longrightarrow> m_count q1 = m_count q \<Longrightarrow>
       DispatchQueue.more q1 = DispatchQueue.more q \<Longrightarrow>
       \<exists>exc q2. run f q1 = (exc, q2) \<and> in_flight q2 a R' D' \<and> P exc q2"
  shows "\<exists>exc q2 q3. DispatchEventUnsafe run q = Inr (exc, q3) \<and> represents q3 R' D' \<and> P exc q2 \<and>
     m_count q3 = m_count q2 - 1 \<and> DispatchQueue.more q3 = DispatchQueue.more q2 \<and>
     onAborted q3 = onAborted q2 \<and> m_dispatchCap q3 = m_dispatchCap q2"
proof -
  from pop_front_represents [OF assms(1)] obtain a c where
    pop: "pop_front q = Inr (a, c, q\<lparr>m_pHead := m_pFlink c\<rparr>)" "m_fx c = f"
    "in_flight (q\<lparr>m_pHead := m_pFlink c\<rparr>) a R D" by blast
  from run [OF pop(3)] obtain exc q2 where r: "run f (q\<lparr>m_pHead := m_pFlink c\<rparr>) = (exc, q2)"
    "in_flight q2 a R' D'" "P exc q2" by auto
  have fl: "in_flight (count_down q2) a R' D'" using r(2) by simp
  let ?q3 = "(count_down q2)\<lparr>m_heap := (m_heap (count_down q2))(a := None)\<rparr>"
  have "DispatchEventUnsafe run q = Inr (exc, ?q3)"
    using pop(1,2) r(1) in_flight_delete(1) [OF fl] by (simp add: DispatchEventUnsafe_def)
  moreover have "m_count ?q3 = m_count q2 - 1" "DispatchQueue.more ?q3 = DispatchQueue.more q2"
    "onAborted ?q3 = onAborted q2" "m_dispatchCap ?q3 = m_dispatchCap q2" by simp_all
  ultimately show ?thesis using r(3) in_flight_delete(2) [OF fl] by blast
qed

text \<open>
  Calls that act on the world outside the queue only: they return normally and change the queue
  record in its \<open>more\<close> part alone.
\<close>

definition world_call :: "('f \<Rightarrow> 'w \<Rightarrow> 'w) \<Rightarrow> ('f, 'w) call" where
  "world_call g f q = (None, q\<lparr>DispatchQueue.more := g f (DispatchQueue.more q)\<rparr>)"

lemma in_flight_more [simp]:
  "in_flight (DispatchQueue.more_update g q) a R D = in_flight q a R D"
proof -
  have "links (DispatchQueue.more_update g q) = links q" "fx_at (DispatchQueue.more_update g q) = fx_at q"
    by (simp_all add: links_def fx_at_def fun_eq_iff)
  then show ?thesis by (simp add: in_flight_def dq_rep_def delayed_fns_def)
qed

lemma DispatchEvent_world:
  fixes q :: "('a, 'b) DispatchQueue_scheme"
  assumes "represents q (f # R) D"
  shows "\<exists>q'. DispatchEvent (world_call g) now q = Inr (None, True, q') \<and> represents q' R D \<and>
     DispatchQueue.more q' = g f (DispatchQueue.more q) \<and> m_count q' = m_count q - 1 "
proof -
  have "m_pHead q \<noteq> None" using represents_empty_iff [OF assms] by simp
  moreover have "\<exists>exc (q2 :: ('a, 'b) DispatchQueue_scheme) q3. DispatchEventUnsafe (world_call g) q = Inr (exc, q3) \<and> represents q3 R D \<and>
     (exc = None \<and> m_count q2 = m_count q \<and> DispatchQueue.more q2 = g f (DispatchQueue.more q)) \<and>
     m_count q3 = m_count q2 - 1 \<and> DispatchQueue.more q3 = DispatchQueue.more q2 \<and>
     onAborted q3 = onAborted q2 \<and> m_dispatchCap q3 = m_dispatchCap q2"
    by (rule DispatchEventUnsafe_represents [OF assms]) (auto simp: world_call_def)
  ultimately show ?thesis by (auto simp: DispatchEvent_def dispatch_guard_def)
qed

lemma dispatch_all_ready:
  assumes "represents q R D" "takeWhile (\<lambda>p. fst p < now) D = []" "length R \<le> m_count q"
  shows "\<exists>q'. dispatch_all_loop (world_call g) (\<lambda>_. now) n q = Some (Inr (None, n + length R, q')) \<and>
     represents q' [] D \<and> DispatchQueue.more q' = fold g R (DispatchQueue.more q) \<and>
     m_count q' = m_count q - length R"
  using assms
proof (induction R arbitrary: q n)
  case Nil
  have "dropWhile (\<lambda>p. fst p < now) D = D"
    using Nil.prems(2) by (metis append_Nil takeWhile_dropWhile_id)
  with PromoteReady_represents [OF Nil.prems(1), of now] Nil.prems(2)
  obtain q' where "PromoteReadyDispatchersUnsafe now q = Inr (False, q')" "represents q' [] D"
    "m_count q' = m_count q" "DispatchQueue.more q' = DispatchQueue.more q" by auto
  moreover have "m_pHead q = None" using represents_empty_iff [OF Nil.prems(1)] by simp
  ultimately show ?case
    by (subst dispatch_all_loop.simps) (simp add: DispatchEvent_def dispatch_guard_def)
next
  case (Cons f R)
  from DispatchEvent_world [OF Cons.prems(1), of g now] obtain q1 where
    q1: "DispatchEvent (world_call g) now q = Inr (None, True, q1)" "represents q1 R D"
    "DispatchQueue.more q1 = g f (DispatchQueue.more q)" "m_count q1 = m_count q - 1" by blast
  have "length R \<le> m_count q1" using Cons.prems(3) q1(4) by simp
  from Cons.IH [OF q1(2) Cons.prems(2) this, of "Suc n"] q1 show ?case
    by (subst dispatch_all_loop.simps) auto
qed

lemma takeWhile_dropWhile_Nil: "takeWhile P (dropWhile P xs) = []"
  by (induction xs) auto

lemma dispatch_all_promote:
  assumes "represents q [] D" "takeWhile (\<lambda>p. fst p < now) D \<noteq> []"
  shows "\<exists>q'. dispatch_all_loop run (\<lambda>_. now) n q = dispatch_all_loop run (\<lambda>_. now) n q' \<and>
     represents q' (map snd (takeWhile (\<lambda>p. fst p < now) D)) (dropWhile (\<lambda>p. fst p < now) D) \<and>
     DispatchQueue.more q' = DispatchQueue.more q \<and>
     m_count q' = m_count q + length (takeWhile (\<lambda>p. fst p < now) D)"
proof -
  from PromoteReady_represents [OF assms(1), of now] assms(2)
  obtain q' where q': "PromoteReadyDispatchersUnsafe now q = Inr (True, q')"
    "represents q' (map snd (takeWhile (\<lambda>p. fst p < now) D)) (dropWhile (\<lambda>p. fst p < now) D)"
    "DispatchQueue.more q' = DispatchQueue.more q"
    "m_count q' = m_count q + length (takeWhile (\<lambda>p. fst p < now) D)" by auto
  have "m_pHead q = None" using represents_empty_iff [OF assms(1)] by simp
  moreover have "m_pHead q' \<noteq> None" using represents_empty_iff [OF q'(2)] assms(2) by simp
  ultimately have "DispatchEvent run now q = DispatchEvent run now q'"
    using q'(1) by (auto simp: DispatchEvent_def dispatch_guard_def)
  then have "dispatch_all_loop run (\<lambda>_. now) n q = dispatch_all_loop run (\<lambda>_. now) n q'"
    by (subst (1 2) dispatch_all_loop.simps) simp
  with q' show ?thesis by blast
qed

lemma dispatch_all_due:
  assumes "represents q R D" "length R \<le> m_count q"
  shows "\<exists>q'. dispatch_all_loop (world_call g) (\<lambda>_. now) n q =
       Some (Inr (None, n + length R + length (takeWhile (\<lambda>p. fst p < now) D), q')) \<and>
     DispatchQueue.more q' =
       fold g (R @ map snd (takeWhile (\<lambda>p. fst p < now) D)) (DispatchQueue.more q) \<and>
     represents q' [] (dropWhile (\<lambda>p. fst p < now) D) \<and>
     m_count q' = m_count q - length R"
  using assms
proof (induction R arbitrary: q n)
  case Nil
  let ?P = "takeWhile (\<lambda>p. fst p < now) D"
  show ?case
  proof (cases "?P = []")
    case True
    moreover from True have "dropWhile (\<lambda>p. fst p < now) D = D"
      by (metis append_Nil takeWhile_dropWhile_id)
    ultimately show ?thesis
      using dispatch_all_ready [OF Nil.prems(1) True Nil.prems(2), of g n] by auto
  next
    case False
    from dispatch_all_promote [OF Nil.prems(1) False, of "world_call g" n] obtain q1 where
      q1: "dispatch_all_loop (world_call g) (\<lambda>_. now) n q = dispatch_all_loop (world_call g) (\<lambda>_. now) n q1"
      "represents q1 (map snd ?P) (dropWhile (\<lambda>p. fst p < now) D)"
      "DispatchQueue.more q1 = DispatchQueue.more q" "m_count q1 = m_count q + length ?P" by auto
    have "length (map snd ?P) \<le> m_count q1" using q1(4) by simp
    from dispatch_all_ready [OF q1(2) takeWhile_dropWhile_Nil this, of g n] q1
    show ?thesis by auto
  qed
next
  case (Cons f R)
  from DispatchEvent_world [OF Cons.prems(1), of g now] obtain q1 where
    q1: "DispatchEvent (world_call g) now q = Inr (None, True, q1)" "represents q1 R D"
    "DispatchQueue.more q1 = g f (DispatchQueue.more q)" "m_count q1 = m_count q - 1" by blast
  have "length R \<le> m_count q1" using Cons.prems(2) q1(4) by simp
  from Cons.IH [OF q1(2) this, of "Suc n"] q1 show ?case
    by (subst dispatch_all_loop.simps) auto
qed

text \<open>
  C4.  \<open>DispatchAllEvents\<close> on a queue that represents ready functions \<open>R\<close> and delayed functions
  \<open>D\<close>, with calls that do not touch the queue: it returns, it has called every function of \<open>R\<close>
  in the order they were pended and after them every delayed function whose time has come, in
  deadline order and each exactly once; its value is the number of calls; the rest of \<open>D\<close> stays
  delayed; and the count went down by the functions that were ready.
\<close>

theorem DispatchAllEvents_fifo:
  assumes "represents q R D" "length R \<le> m_count q"
  shows "\<exists>q'. DispatchAllEvents (world_call g) (\<lambda>_. now) q =
       Some (Inr (None, length R + length (takeWhile (\<lambda>p. fst p < now) D), q')) \<and>
     DispatchQueue.more q' =
       fold g (R @ map snd (takeWhile (\<lambda>p. fst p < now) D)) (DispatchQueue.more q) \<and>
     represents q' [] (dropWhile (\<lambda>p. fst p < now) D) \<and>
     m_count q' = m_count q - length R"
  using dispatch_all_due [OF assms, of g now 0] by (simp add: DispatchAllEvents_def)

theorem DispatchAllEvents_fifo_witness:
  "\<exists>q'. DispatchAllEvents (world_call (\<lambda>f w. w @ [f])) (\<lambda>_. 5)
     \<lparr>onAborted = False, m_dispatchCap = 9, m_count = 1, m_version = 1,
      m_pHead = Some 4, m_pTail = Some 4,
      m_delayedQueue = [\<lparr>m_readyAt = 2, m_thunk = 6\<rparr>, \<lparr>m_readyAt = 8, m_thunk = 7\<rparr>],
      m_heap = [4 \<mapsto> \<lparr>m_fx = 10, m_pFlink = None\<rparr>, 6 \<mapsto> \<lparr>m_fx = 20, m_pFlink = None\<rparr>,
                7 \<mapsto> \<lparr>m_fx = 30, m_pFlink = None\<rparr>],
      m_queueUpdated = 0, \<dots> = []\<rparr> = Some (Inr (None, 2, q')) \<and>
     DispatchQueue.more q' = [10, 20 :: nat] \<and> represents q' [] [(8, 30)]"
proof -
  let ?q = "\<lparr>onAborted = False, m_dispatchCap = 9, m_count = 1, m_version = 1,
      m_pHead = Some 4, m_pTail = Some 4,
      m_delayedQueue = [\<lparr>m_readyAt = 2, m_thunk = 6\<rparr>, \<lparr>m_readyAt = 8, m_thunk = 7\<rparr>],
      m_heap = [4 \<mapsto> \<lparr>m_fx = 10, m_pFlink = None\<rparr>, 6 \<mapsto> \<lparr>m_fx = 20, m_pFlink = None\<rparr>,
                7 \<mapsto> \<lparr>m_fx = 30, m_pFlink = None\<rparr>],
      m_queueUpdated = 0, \<dots> = []\<rparr> :: (nat, nat list) DispatchQueue_scheme"
  have "dq_rep ?q [4]" by (simp add: dq_rep_def links_def pq_ok_def)
  then have "represents ?q [10] [(2, 20), (8, 30)]"
    unfolding represents_def by (intro exI [of _ "[4]"]) (simp add: fx_at_def delayed_fns_def)
  from DispatchAllEvents_fifo [OF this, of "\<lambda>f w. w @ [f]" 5] show ?thesis by auto
qed

section \<open>Waiting\<close>

lemma SuggestSoonest_le:
  assumes "pq_ok (m_delayedQueue q)"
  shows "SuggestSoonestWakeupTimeUnsafe t q \<le> t"
    and "d \<in> set (m_delayedQueue q) \<Longrightarrow> SuggestSoonestWakeupTimeUnsafe t q \<le> m_readyAt d"
proof -
  show "SuggestSoonestWakeupTimeUnsafe t q \<le> t"
    by (simp add: SuggestSoonestWakeupTimeUnsafe_def split: option.splits)
  assume d: "d \<in> set (m_delayedQueue q)"
  then obtain e where e: "pq_top (m_delayedQueue q) = Some e"
    by (cases "m_delayedQueue q") (auto simp: pq_top_def)
  from delayed.top_least [OF assms e, of d] d e
  show "SuggestSoonestWakeupTimeUnsafe t q \<le> m_readyAt d"
    by (simp add: SuggestSoonestWakeupTimeUnsafe_def)
qed

text \<open>
  The wakeup time a waiter sleeps until is the least of the caller's deadline and the ready
  times of the delayed functions, so no delayed function is overslept.
\<close>

lemma SuggestSoonestWakeupTime_least:
  assumes "represents q R D"
  shows "SuggestSoonestWakeupTimeUnsafe t q = Min (insert t (fst ` set D))"
proof (rule sym, rule Min_eqI)
  from assms obtain as where as: "dq_rep q as" "D = delayed_fns q" by (auto simp: represents_def)
  then have ok: "pq_ok (m_delayedQueue q)" by (simp add: dq_rep_def)
  have D: "fst ` set D = m_readyAt ` set (m_delayedQueue q)"
    by (simp add: as(2) delayed_fns_def image_image)
  show "finite (insert t (fst ` set D))" by simp
  show "SuggestSoonestWakeupTimeUnsafe t q \<le> y" if "y \<in> insert t (fst ` set D)" for y
    using that SuggestSoonest_le [OF ok] D by auto
  show "SuggestSoonestWakeupTimeUnsafe t q \<in> insert t (fst ` set D)"
    unfolding D by (cases "m_delayedQueue q")
      (auto simp: SuggestSoonestWakeupTimeUnsafe_def pq_top_def min_def)
qed

lemma SuggestSoonestWakeupTime_least_witness:
  "SuggestSoonestWakeupTimeUnsafe 9 (dq_new 3 :: nat DispatchQueue) = Min (insert 9 (fst ` set ([] :: (int \<times> nat) list)))"
  by (rule SuggestSoonestWakeupTime_least [where R = "[]"])
     (simp add: represents_def dq_rep_def dq_new_def delayed_fns_def pq_ok_def)

end
