(* ===== verification/Dispatch_Queue_Clear.thy ===== *)
theory Dispatch_Queue_Clear
  imports Dispatch_Queue_Props
begin

text \<open>
  Teardown of the dispatch queue (\<open>Abort\<close>, \<open>Rundown\<close>, \<open>Cancel\<close> and the destructor), the put-back
  of \<open>TryDispatchEvent\<close>, the refinement of the whole linked-list queue to a pair of sequences, and
  three situations in which the code leaves its intended behaviour.
\<close>

section \<open>Deleting cells\<close>

lemma restrict_UNIV [simp]: "m |` UNIV = m"
  by (simp add: restrict_map_def fun_eq_iff)

lemma foldR_delete_thunk:
  assumes "distinct (map g ds)" "\<And>d. d \<in> set ds \<Longrightarrow> m_heap q (g d) \<noteq> None"
  shows "foldR (delete_thunk \<circ> g) ds q = Inr (q\<lparr>m_heap := m_heap q |` (- g ` set ds)\<rparr>)"
  using assms
proof (induction ds arbitrary: q)
  case Nil
  then show ?case by simp
next
  case (Cons d ds)
  let ?q = "q\<lparr>m_heap := (m_heap q)(g d := None)\<rparr>"
  have "m_heap ?q (g e) \<noteq> None" if "e \<in> set ds" for e
    using Cons.prems that by (auto simp: image_iff)
  then have "foldR (delete_thunk \<circ> g) ds ?q = Inr (?q\<lparr>m_heap := m_heap ?q |` (- g ` set ds)\<rparr>)"
    using Cons.prems(1) by (intro Cons.IH) auto
  moreover have "m_heap ?q |` (- g ` set ds) = m_heap q |` (- g ` set (d # ds))"
    by (auto simp: restrict_map_def fun_eq_iff)
  moreover have "delete_thunk (g d) q = Inr ?q"
    using Cons.prems(2) [of d] by (auto simp: delete_thunk_def)
  ultimately show ?case by (simp add: comp_def)
qed

lemma links_restrict:
  "links (q\<lparr>m_heap := m_heap q |` S\<rparr>) = (\<lambda>a. if a \<in> S then links q a else None)"
  by (auto simp: links_def restrict_map_def fun_eq_iff)

lemma chain_cong:
  "(\<And>a. a \<in> set as \<Longrightarrow> nxt a = nxt' a) \<Longrightarrow> chain nxt p as r = chain nxt' p as r"
  by (induction as arbitrary: p) (auto split: option.splits)

lemma delete_chain_rep:
  assumes "chain (links q) p as None"
  shows "delete_chain p n q = Some (Inr (n + length as, q\<lparr>m_heap := m_heap q |` (- set as)\<rparr>))"
  using assms
proof (induction as arbitrary: p n q)
  case Nil
  then show ?case by (subst delete_chain.simps) (simp add: restrict_map_def)
next
  case (Cons a as)
  from Cons.prems obtain c where c: "p = Some a" "m_heap q a = Some c"
    "chain (links q) (m_pFlink c) as None" by (auto simp: links_def split: option.splits)
  let ?q = "q\<lparr>m_heap := (m_heap q)(a := None)\<rparr>"
  have "a \<notin> set as" using chain_distinct [OF Cons.prems] by simp
  then have "chain (links ?q) (m_pFlink c) as None"
    using c(3) by (subst chain_cong [where nxt' = "links q"]) (auto simp: links_def)
  from Cons.IH [OF this, of "Suc n"]
  have "delete_chain (m_pFlink c) (Suc n) ?q =
      Some (Inr (Suc n + length as, ?q\<lparr>m_heap := m_heap ?q |` (- set as)\<rparr>))" .
  moreover have "m_heap ?q |` (- set as) = m_heap q |` (- set (a # as))"
    by (auto simp: restrict_map_def fun_eq_iff)
  ultimately show ?case
    using c by (subst delete_chain.simps) (simp add: load_thunk_def delete_thunk_def)
qed

section \<open>User functions that act on the world outside the queue, and may throw\<close>

definition outcome_call :: "('f \<Rightarrow> 'w \<Rightarrow> aw_error option \<times> 'w) \<Rightarrow> ('f, 'w) call" where
  "outcome_call g f q =
     (fst (g f (DispatchQueue.more q)), q\<lparr>DispatchQueue.more := snd (g f (DispatchQueue.more q))\<rparr>)"

lemma more_update_fields [simp]:
  "links (DispatchQueue.more_update h q) = links q"
  "fx_at (DispatchQueue.more_update h q) = fx_at q"
  by (simp_all add: links_def fx_at_def fun_eq_iff)





section \<open>Abort and rundown\<close>

lemma dq_rep_delayed_delete:
  assumes "dq_rep q as"
  shows "foldR (delete_thunk \<circ> m_thunk) (m_delayedQueue q) (q\<lparr>onAborted := True, m_dispatchCap := 0,
       m_pHead := None, m_pTail := None, m_delayedQueue := []\<rparr>) =
     Inr (q\<lparr>onAborted := True, m_dispatchCap := 0, m_pHead := None, m_pTail := None,
       m_delayedQueue := [], m_heap := m_heap q |` (- m_thunk ` set (m_delayedQueue q))\<rparr>)"
  using assms dq_rep_allocated(2) [OF assms]
  by (subst foldR_delete_thunk) (auto simp: dq_rep_def)

lemma chain_undelayed:
  assumes "dq_rep q as"
  shows "chain (links (q\<lparr>m_heap := m_heap q |` (- m_thunk ` set (m_delayedQueue q))\<rparr>)) (m_pHead q) as None"
  using assms by (subst chain_cong [where nxt' = "links q"]) (auto simp: links_def dq_rep_def restrict_map_def)

lemma represents_empty [simp]:
  "m_pHead q = None \<Longrightarrow> m_delayedQueue q = [] \<Longrightarrow> represents q [] []"
  by (simp add: represents_def dq_rep_def delayed_fns_def pq_ok_def)

lemma restrict_restrict_compl:
  "(h |` (- A)) |` (- B) = h |` (- (A \<union> B))"
  by (auto simp: restrict_map_def fun_eq_iff)

text \<open>The whole of \<open>ClearQueueInternal\<close>, in terms of the cells of the queue.\<close>

definition owned :: "('f, 'w) DispatchQueue_scheme \<Rightarrow> addr list \<Rightarrow> addr set" where
  "owned q as = m_thunk ` set (m_delayedQueue q) \<union> set as"

lemma ClearQueueInternal_abort:
  assumes "dq_rep q as"
  shows "ClearQueueInternal run False q =
     Some (Inr (notify_all (q\<lparr>onAborted := True, m_dispatchCap := 0, m_pHead := None, m_pTail := None,
        m_delayedQueue := [], m_heap := m_heap q |` (- owned q as), m_count := m_count q - length as\<rparr>)))"
proof -
  let ?q = "q\<lparr>onAborted := True, m_dispatchCap := 0, m_pHead := None, m_pTail := None,
       m_delayedQueue := [], m_heap := m_heap q |` (- m_thunk ` set (m_delayedQueue q))\<rparr>"
  have "chain (links ?q) (m_pHead q) as None"
    using chain_undelayed [OF assms] by (simp add: links_def)
  from delete_chain_rep [OF this, of 0] show ?thesis
    by (simp add: ClearQueueInternal_def dq_rep_delayed_delete [OF assms] restrict_restrict_compl owned_def)
qed


section \<open>Queues with a thunk in flight\<close>

lemma in_flight_distinct:
  assumes "in_flight q b R D" "m_heap q a = None"
  shows "a \<noteq> b"
  using assms by (auto simp: in_flight_def)

lemma Pend_in_flight:
  assumes "in_flight q b R D" "m_heap q a = None"
  shows "\<exists>q'. Pend a f q = Inr q' \<and> in_flight q' b (R @ [f]) D \<and> m_count q' = Suc (m_count q) \<and>
     m_dispatchCap q' = m_dispatchCap q \<and> onAborted q' = onAborted q"
proof -
  from assms obtain as where as: "dq_rep q as" "R = map (fx_at q) as" "D = delayed_fns q"
    and b: "b \<notin> set as" "b \<notin> m_thunk ` set (m_delayedQueue q)" "m_heap q b \<noteq> None"
    by (auto simp: in_flight_def)
  let ?q = "(new_thunk a f q)\<lparr>m_count := Suc (m_count q)\<rparr>"
  note n = represents_new_thunk [OF as(1) assms(2), of f]
    and fr = fresh_not_owned [OF as(1) assms(2)]
  from n fr have rep: "dq_rep ?q as" "links ?q a = Some None" "a \<notin> set as"
    "a \<notin> m_thunk ` set (m_delayedQueue ?q)" by auto
  obtain q' where q': "link_tail a ?q = Inr q'" "dq_rep q' (as @ [a])" "fx_at q' = fx_at ?q"
    "m_delayedQueue q' = m_delayedQueue ?q" "m_count q' = Suc (m_count q)" "m_dispatchCap q' = m_dispatchCap q"
    "onAborted q' = onAborted q" "dom (m_heap q') = dom (m_heap ?q)"
    using link_tail_represents [OF rep] by auto
  have "delayed_fns q' = delayed_fns ?q" unfolding delayed_fns_def q'(3,4) by simp
  moreover have "map (fx_at q') (as @ [a]) = R @ [f]" using n(2,4) as(2) unfolding q'(3) by simp
  moreover have "m_heap q' b \<noteq> None" using b(3) q'(8) by (auto simp: dom_def set_eq_iff)
  ultimately have "in_flight q' b (R @ [f]) D"
    using q'(2,4) n(3) as(3) b in_flight_distinct [OF assms] unfolding in_flight_def
    by (intro conjI exI [of _ "as @ [a]"]) auto
  then show ?thesis using q' by (auto simp: Pend_def PendExisting_link_tail)
qed

lemma dq_add_Pend:
  assumes "m_heap q a = None"
  shows "dq_add a f q = (if m_count q < m_dispatchCap q then bindR (Pend a f q) (\<lambda>q'. Inr (True, q')) else Inr (False, q))"
  using assms by (simp add: dq_add_link_tail Pend_def PendExisting_link_tail bindR_assoc)

lemma Pend_dom:
  assumes "Pend a f q = Inr q'" "m_heap q b = None" "b \<noteq> a"
  shows "m_heap q' b = None"
  using assms
  by (auto simp: Pend_def PendExisting_def set_flink_def load_thunk_def OnPended_def Let_def bindR_eq_Inr_iff split: option.splits)

lemma dq_add_abs_in_flight:
  assumes "in_flight q b R D" "m_heap q a = None"
  shows "in_flight (dq_add_abs t a f q) b R (delayed_insert (t, f) D)"
proof -
  from assms obtain as where as: "dq_rep q as" "R = map (fx_at q) as" "D = delayed_fns q"
    and b: "b \<notin> set as" "b \<notin> m_thunk ` set (m_delayedQueue q)" "m_heap q b \<noteq> None"
    by (auto simp: in_flight_def)
  note n = represents_new_thunk [OF as(1) assms(2), of f]
    and fr = fresh_not_owned [OF as(1) assms(2)]
  define d where "d = \<lparr>m_readyAt = t, m_thunk = a\<rparr>"
  let ?q = "(new_thunk a f q)\<lparr>m_delayedQueue := pq_push d (m_delayedQueue q)\<rparr>"
  have "dq_rep ?q as"
    using n(1,5) fr by (auto simp: dq_rep_def d_def pq_ok_push distinct_pq_push)
  moreover have "map (fx_at ?q) as = R" using n(2) as(2) by simp
  moreover have "delayed_fns ?q = delayed_insert (t, f) D"
    using n(3,4) as(3) by (simp add: delayed_fns_def map_pq_push d_def cong: map_cong)
  moreover have "a \<noteq> b" by (rule in_flight_distinct [OF assms])
  ultimately have "in_flight ?q b R (delayed_insert (t, f) D)"
    using b unfolding in_flight_def by (intro conjI exI [of _ as]) (auto simp: d_def)
  then show ?thesis by (auto simp: dq_add_abs_def dq_add_delayed_def d_def Let_def)
qed

lemma Abort_in_flight:
  assumes "in_flight q b R D"
  shows "\<exists>q'. Abort run q = Some (Inr q') \<and> in_flight q' b [] [] \<and> m_count q' = m_count q - length R \<and>
     m_dispatchCap q' = 0 \<and> onAborted q'"
proof -
  from assms obtain as where as: "dq_rep q as" "R = map (fx_at q) as"
    and b: "b \<notin> set as" "b \<notin> m_thunk ` set (m_delayedQueue q)" "m_heap q b \<noteq> None"
    by (auto simp: in_flight_def)
  have "in_flight (q\<lparr>onAborted := True, m_dispatchCap := 0, m_pHead := None, m_pTail := None, m_delayedQueue := [],
      m_heap := m_heap q |` (- owned q as), m_count := m_count q - length as\<rparr>) b [] []"
    using b by (auto simp: in_flight_def dq_rep_def delayed_fns_def pq_ok_def owned_def)
  then show ?thesis using as(2) by (simp add: Abort_def ClearQueueInternal_abort [OF as(1)])
qed

section \<open>The abstract queue\<close>














lemma outcome_call_in_flight:
  assumes "in_flight q a R D" "g f (DispatchQueue.more q) = (e, w)"
  shows "outcome_call g f q = (e, q\<lparr>DispatchQueue.more := w\<rparr>)"
    and "in_flight (q\<lparr>DispatchQueue.more := w\<rparr>) a R D"
  using assms by (simp_all add: outcome_call_def)










section \<open>Sequences of operations\<close>









section \<open>Teardown frees every thunk\<close>




section \<open>Three departures from the intended behaviour\<close>

text \<open>
  The rundown loop swallows \<open>dispatch_aborted_exception\<close> without moving on.
\<close>

lemma rundown_stuck:
  fixes h :: "'f \<Rightarrow> 'w \<Rightarrow> 'w" and m :: string
  defines "thrower \<equiv> outcome_call (\<lambda>f v. (Some (dispatch_aborted_exception m), h f v))"
  assumes "rundown_loop run p q = Some r"
  shows "run = thrower \<longrightarrow> (\<exists>a c. p = Some a \<and> m_heap q a = Some c) \<longrightarrow> False"
  using assms(2)
proof (rule rundown_loop.raw_induct [rotated])
  fix rl run p and q :: "('f, 'w) DispatchQueue_scheme" and r
  assume IH: "\<And>run p q r. rl run p q = Some r \<Longrightarrow>
      run = thrower \<longrightarrow> (\<exists>a c. p = Some a \<and> m_heap q a = Some c) \<longrightarrow> False"
    and body: "(if p = None then Some (Inr (None, q))
      else case load_thunk p q of
             Inl e \<Rightarrow> Some (Inl e)
           | Inr (a, c) \<Rightarrow>
               (case run (m_fx c) q of
                  (None, q1) \<Rightarrow>
                    (case delete_thunk a q1 of
                       Inl e \<Rightarrow> Some (Inl e)
                     | Inr q2 \<Rightarrow> rl run (m_pFlink c) (q2\<lparr>m_count := m_count q2 - 1\<rparr>))
                | (Some exc, q1) \<Rightarrow>
                    if is_dispatch_aborted exc then rl run p q1
                    else Some (Inr (p, q1)))) = Some r"
  show "run = thrower \<longrightarrow> (\<exists>a c. p = Some a \<and> m_heap q a = Some c) \<longrightarrow> False"
  proof (intro impI notI)
    assume run: "run = thrower" and "\<exists>a c. p = Some a \<and> m_heap q a = Some c"
    then obtain a c where a: "p = Some a" "m_heap q a = Some c" by auto
    with body run have "rl run p (q\<lparr>DispatchQueue.more := h (m_fx c) (DispatchQueue.more q)\<rparr>) = Some r"
      by (simp add: load_thunk_def thrower_def outcome_call_def)
    from IH [OF this] run a show False by simp
  qed
qed

text \<open>
  A rundown whose first function throws \<open>dispatch_aborted_exception\<close> does not return: the
  handler that is meant to ignore the exception goes round without advancing \<open>pHead\<close>, so the same
  thunk runs again and again.
\<close>

lemma Rundown_aborted_exception_diverges:
  assumes "represents q (f # R) D"
  shows "Rundown (outcome_call (\<lambda>f v. (Some (dispatch_aborted_exception m), h f v))) q = None"
proof -
  from assms obtain as where as: "dq_rep q as" "as \<noteq> []" by (auto simp: represents_def)
  then obtain a bs where b: "as = a # bs" by (cases as) auto
  let ?q = "q\<lparr>onAborted := True, m_dispatchCap := 0, m_pHead := None, m_pTail := None,
       m_delayedQueue := [], m_heap := m_heap q |` (- m_thunk ` set (m_delayedQueue q))\<rparr>"
  have "chain (links ?q) (m_pHead q) as None"
    using chain_undelayed [OF as(1)] by (simp add: links_def)
  then have "\<exists>a c. m_pHead q = Some a \<and> m_heap ?q a = Some c"
    using b by (auto simp: links_def split: option.splits)
  then have "rundown_loop (outcome_call (\<lambda>f v. (Some (dispatch_aborted_exception m), h f v))) (m_pHead q) ?q = None"
    using rundown_stuck [of _ "m_pHead q" ?q _ m h] by (metis option.exhaust)
  then show ?thesis
    by (simp add: Rundown_def ClearQueueInternal_def dq_rep_delayed_delete [OF as(1)])
qed

lemma Rundown_aborted_exception_diverges_witness:
  "Rundown (outcome_call (\<lambda>f v. (Some (dispatch_aborted_exception ''stop''), v)))
     \<lparr>onAborted = False, m_dispatchCap = 9, m_count = 1, m_version = 1,
      m_pHead = Some 4, m_pTail = Some 4, m_delayedQueue = [],
      m_heap = [4 \<mapsto> \<lparr>m_fx = 1 :: nat, m_pFlink = None\<rparr>], m_queueUpdated = 0, \<dots> = 0 :: nat\<rparr> = None"
  by (rule Rundown_aborted_exception_diverges [where f = 1 and R = "[]" and D = "[]" and h = "\<lambda>_ v. v"],
      unfold represents_def, rule exI [of _ "[4]"])
     (simp add: dq_rep_def links_def pq_ok_def fx_at_def delayed_fns_def)

text \<open>
  Splicing a queue without ready functions onto one that has some (\<open>operator+=\<close> on a moved
  queue) overwrites the tail pointer with the null tail of the source; the next pend then
  dereferences a null pointer.
\<close>

lemma dq_splice_empty_breaks_tail:
  assumes "represents q (f # R) D" "m_pHead rhs = None" "m_pTail rhs = None"
    and "m_count q + m_count rhs < m_dispatchCap q"
    and "\<forall>a. m_heap q a \<noteq> None \<longrightarrow> m_heap rhs a = None"
  shows "\<exists>q' rhs'. dq_splice q rhs = Inr (q', rhs') \<and> dq_add a g q' = Inl Undefined_behaviour"
proof -
  from assms(1) obtain x xs where as: "dq_rep q (x # xs)" by (auto simp: represents_def)
  define l where "l = last (x # xs)"
  have "l \<in> set (x # xs)" unfolding l_def by (rule last_in_set) simp
  then obtain c where c: "m_heap q l = Some c" using dq_rep_allocated(1) [OF as, of l] by auto
  have t: "m_pTail q = Some l" "m_pHead q = Some x" using as by (auto simp: dq_rep_def l_def)
  have "(m_heap q ++ m_heap rhs) l = Some c" using c assms(5) by (auto simp: map_add_def split: option.splits)
  then show ?thesis
    using t assms by (auto simp: dq_splice_def set_flink_def load_thunk_def OnPended_def dq_add_def)
qed

lemma dq_splice_empty_breaks_tail_witness:
  "\<exists>q' rhs'. dq_splice
     \<lparr>onAborted = False, m_dispatchCap = 9, m_count = 1, m_version = 1,
      m_pHead = Some 4, m_pTail = Some 4, m_delayedQueue = [],
      m_heap = [4 \<mapsto> \<lparr>m_fx = 1 :: nat, m_pFlink = None\<rparr>], m_queueUpdated = 0\<rparr> (dq_new 9) = Inr (q', rhs') \<and>
     dq_add 5 2 q' = Inl Undefined_behaviour"
proof -
  let ?q = "\<lparr>onAborted = False, m_dispatchCap = 9, m_count = 1, m_version = 1,
      m_pHead = Some 4, m_pTail = Some 4, m_delayedQueue = [],
      m_heap = [4 \<mapsto> \<lparr>m_fx = 1 :: nat, m_pFlink = None\<rparr>], m_queueUpdated = 0\<rparr>"
  have "dq_rep ?q [4]" by (simp add: dq_rep_def links_def pq_ok_def)
  then have "represents ?q [1] []"
    unfolding represents_def by (intro exI [of _ "[4]"]) (simp add: fx_at_def delayed_fns_def)
  then show ?thesis
    by (rule dq_splice_empty_breaks_tail) (simp_all add: dq_new_def)
qed

end
