(* ===== verification/Auto_Filter.thy ===== *)
theory Auto_Filter
  imports Prelude
begin

text \<open>
  AutoFilter arguments and descriptors: \<open>auto_arg.h\<close>, \<open>AutoFilterArgument.h\<close>,
  \<open>AutoFilterDescriptor.{h,cpp}\<close>, \<open>altitude.h\<close>, \<open>SatCounter.h\<close> and
  \<open>DecorationDisposition.h\<close>.  A type's \<open>auto_id\<close> is a number; 0 is the identifier of \<open>void\<close>, which
  ends an argument array in the sources, so that an argument list here has none.
\<close>

type_synonym auto_id = nat

section \<open>Altitudes\<close>

text \<open>
  The underlying value of \<open>enum class altitude\<close>: \<open>operator+\<close> and \<open>operator-\<close> yield values between
  the enumerators, so an altitude is an integer.  The lower value runs first.
\<close>

type_synonym altitude = int

datatype altitude_name =
  Highest | Instrumentation | Dispatch | Asynchronous | Realtime | Standard | Passive | Lowest

fun altitude_value :: "altitude_name \<Rightarrow> altitude" where
  "altitude_value Highest = 0x10000"
| "altitude_value Instrumentation = 0x20000"
| "altitude_value Dispatch = 0x30000"
| "altitude_value Asynchronous = 0x40000"
| "altitude_value Realtime = 0x50000"
| "altitude_value Standard = 0x60000"
| "altitude_value Passive = 0x70000"
| "altitude_value Lowest = 0x10000000"

definition altitude_plus :: "altitude \<Rightarrow> int \<Rightarrow> altitude" where
  "altitude_plus alt v = alt + v"

definition altitude_minus :: "altitude \<Rightarrow> int \<Rightarrow> altitude" where
  "altitude_minus alt v = alt - v"

text \<open>\<open>altitude_of\<close>: the altitude a class declares, or the default; deferred filters default to \<open>Dispatch\<close>.\<close>

definition altitude_of :: "altitude option \<Rightarrow> altitude_name \<Rightarrow> altitude" where
  "altitude_of declared Default = (case declared of Some a \<Rightarrow> a | None \<Rightarrow> altitude_value Default)"

section \<open>Arguments\<close>

record AutoFilterArgument =
  is_input :: bool
  is_output :: bool
  is_rvalue :: bool
  is_shared :: bool
  is_multi :: bool
  arg_id :: auto_id

text \<open>\<open>AutoFilterArgument::operator bool\<close>: false at the terminator of an argument array.\<close>

definition arg_valid :: "AutoFilterArgument \<Rightarrow> bool" where
  "arg_valid a \<longleftrightarrow> arg_id a \<noteq> 0"

text \<open>One constant per specialisation of \<open>auto_arg\<close>.\<close>

definition mk_arg :: "bool \<Rightarrow> bool \<Rightarrow> bool \<Rightarrow> bool \<Rightarrow> bool \<Rightarrow> auto_id \<Rightarrow> AutoFilterArgument" where
  "mk_arg inp outp rv shared multi i =
     \<lparr>is_input = inp, is_output = outp, is_rvalue = rv, is_shared = shared, is_multi = multi, arg_id = i\<rparr>"

definition auto_arg_value :: "auto_id \<Rightarrow> AutoFilterArgument" where
  "auto_arg_value = mk_arg True False False False False"

definition auto_arg_const_ref :: "auto_id \<Rightarrow> AutoFilterArgument" where
  "auto_arg_const_ref = mk_arg True False False False False"

definition auto_arg_rvalue :: "auto_id \<Rightarrow> AutoFilterArgument" where
  "auto_arg_rvalue = mk_arg True True True False False"

definition auto_arg_shared_const :: "auto_id \<Rightarrow> AutoFilterArgument" where
  "auto_arg_shared_const = mk_arg True False False True False"

definition auto_arg_shared_rvalue :: "auto_id \<Rightarrow> AutoFilterArgument" where
  "auto_arg_shared_rvalue = mk_arg True True True True False"

definition auto_arg_ptr :: "auto_id \<Rightarrow> AutoFilterArgument" where
  "auto_arg_ptr = mk_arg False True False False False"

definition auto_arg_const_ptr :: "auto_id \<Rightarrow> AutoFilterArgument" where
  "auto_arg_const_ptr = mk_arg True False False False False"

definition auto_arg_ref :: "auto_id \<Rightarrow> AutoFilterArgument" where
  "auto_arg_ref = mk_arg False True False False False"

definition auto_arg_shared_ref :: "auto_id \<Rightarrow> AutoFilterArgument" where
  "auto_arg_shared_ref = mk_arg False True False True False"

definition auto_arg_shared_ptr :: "auto_id \<Rightarrow> AutoFilterArgument" where
  "auto_arg_shared_ptr = mk_arg False True False True False"

definition auto_arg_context :: "auto_id \<Rightarrow> AutoFilterArgument" where
  "auto_arg_context = mk_arg False False False False False"

definition auto_arg_multi :: "auto_id \<Rightarrow> AutoFilterArgument" where
  "auto_arg_multi = mk_arg True False False False True"

definition auto_arg_multi_shared :: "auto_id \<Rightarrow> AutoFilterArgument" where
  "auto_arg_multi_shared = mk_arg True False False False True"

definition auto_arg_packet :: "auto_id \<Rightarrow> AutoFilterArgument" where
  "auto_arg_packet = mk_arg False False False False False"

datatype auto_arg =
    Arg_value auto_id | Arg_const_ref auto_id | Arg_rvalue auto_id | Arg_shared_const auto_id
  | Arg_shared_rvalue auto_id | Arg_ptr auto_id | Arg_const_ptr auto_id | Arg_ref auto_id
  | Arg_shared_ref auto_id | Arg_shared_ptr auto_id | Arg_context auto_id | Arg_multi auto_id
  | Arg_multi_shared auto_id | Arg_packet auto_id

text \<open>\<open>AutoFilterArgumentT<T>\<close>.\<close>

fun AutoFilterArgumentT :: "auto_arg \<Rightarrow> AutoFilterArgument" where
  "AutoFilterArgumentT (Arg_value i) = auto_arg_value i"
| "AutoFilterArgumentT (Arg_const_ref i) = auto_arg_const_ref i"
| "AutoFilterArgumentT (Arg_rvalue i) = auto_arg_rvalue i"
| "AutoFilterArgumentT (Arg_shared_const i) = auto_arg_shared_const i"
| "AutoFilterArgumentT (Arg_shared_rvalue i) = auto_arg_shared_rvalue i"
| "AutoFilterArgumentT (Arg_ptr i) = auto_arg_ptr i"
| "AutoFilterArgumentT (Arg_const_ptr i) = auto_arg_const_ptr i"
| "AutoFilterArgumentT (Arg_ref i) = auto_arg_ref i"
| "AutoFilterArgumentT (Arg_shared_ref i) = auto_arg_shared_ref i"
| "AutoFilterArgumentT (Arg_shared_ptr i) = auto_arg_shared_ptr i"
| "AutoFilterArgumentT (Arg_context i) = auto_arg_context i"
| "AutoFilterArgumentT (Arg_multi i) = auto_arg_multi i"
| "AutoFilterArgumentT (Arg_multi_shared i) = auto_arg_multi_shared i"
| "AutoFilterArgumentT (Arg_packet i) = auto_arg_packet i"

lemmas auto_arg_defs = mk_arg_def auto_arg_value_def auto_arg_const_ref_def auto_arg_rvalue_def
  auto_arg_shared_const_def auto_arg_shared_rvalue_def auto_arg_ptr_def auto_arg_const_ptr_def
  auto_arg_ref_def auto_arg_shared_ref_def auto_arg_shared_ptr_def auto_arg_context_def
  auto_arg_multi_def auto_arg_multi_shared_def auto_arg_packet_def

section \<open>Descriptors\<close>

text \<open>\<open>m_pCall\<close> is the address of the extracted call, \<open>m_autoFilter\<close> the object it is made on.\<close>

record AutoFilterDescriptor =
  m_type :: auto_id
  m_altitude :: altitude
  m_pArgs :: "AutoFilterArgument list"
  m_deferred :: bool
  m_arity :: nat
  m_requiredCount :: nat
  m_pCall :: ptr
  m_autoFilter :: ptr

definition descriptor_empty :: AutoFilterDescriptor where
  "descriptor_empty = \<lparr>m_type = 0, m_altitude = altitude_value Standard, m_pArgs = [], m_deferred = False,
     m_arity = 0, m_requiredCount = 0, m_pCall = None, m_autoFilter = None\<rparr>"

fun count_args :: "AutoFilterArgument list \<Rightarrow> nat \<Rightarrow> nat \<Rightarrow> nat \<times> nat" where
  "count_args [] arity required = (arity, required)"
| "count_args (pArg # ps) arity required =
     count_args ps (Suc arity) (if is_input pArg then Suc required else required)"

definition mk_descriptor ::
  "ptr \<Rightarrow> auto_id \<Rightarrow> altitude \<Rightarrow> AutoFilterArgument list \<Rightarrow> bool \<Rightarrow> ptr \<Rightarrow> AutoFilterDescriptor" where
  "mk_descriptor autoFilter type alt pArgs deferred pCall =
     (case count_args pArgs 0 0 of (arity, required) \<Rightarrow>
        \<lparr>m_type = type, m_altitude = alt, m_pArgs = pArgs, m_deferred = deferred, m_arity = arity,
         m_requiredCount = required, m_pCall = pCall, m_autoFilter = autoFilter\<rparr>)"

text \<open>The two searches run from the last argument down; \<open>GetArgumentType\<close> from the first up.\<close>

definition Provides :: "auto_id \<Rightarrow> 'a AutoFilterDescriptor_scheme \<Rightarrow> bool" where
  "Provides ti d = (case find (\<lambda>a. arg_id a = ti) (rev (take (m_arity d) (m_pArgs d))) of
     None \<Rightarrow> False | Some a \<Rightarrow> is_output a \<and> \<not> is_rvalue a)"

definition Consumes :: "auto_id \<Rightarrow> 'a AutoFilterDescriptor_scheme \<Rightarrow> bool" where
  "Consumes ti d = (case find (\<lambda>a. arg_id a = ti) (rev (take (m_arity d) (m_pArgs d))) of
     None \<Rightarrow> False | Some a \<Rightarrow> is_input a \<and> \<not> is_rvalue a)"

definition GetArgumentType :: "auto_id \<Rightarrow> 'a AutoFilterDescriptor_scheme \<Rightarrow> AutoFilterArgument option" where
  "GetArgumentType argType d = find (\<lambda>a. arg_id a = argType) (m_pArgs d)"

definition descriptor_is_empty :: "'a AutoFilterDescriptor_scheme \<Rightarrow> bool" where
  "descriptor_is_empty d \<longleftrightarrow> m_pCall d = None \<or> m_autoFilter d = None"

definition ReleaseAutoFilter :: "'a AutoFilterDescriptor_scheme \<Rightarrow> 'a AutoFilterDescriptor_scheme" where
  "ReleaseAutoFilter d = d\<lparr>m_arity := 0, m_autoFilter := None\<rparr>"

definition descriptor_eq ::
  "'a AutoFilterDescriptor_scheme \<Rightarrow> 'b AutoFilterDescriptor_scheme \<Rightarrow> bool" where
  "descriptor_eq d rhs \<longleftrightarrow> m_pCall d = m_pCall rhs \<and> m_autoFilter d = m_autoFilter rhs"

text \<open>
  \<open>operator<\<close> compares the tuples of the right operand first.  The null pointer is below every
  address.
\<close>

fun ptr_less :: "ptr \<Rightarrow> ptr \<Rightarrow> bool" where
  "ptr_less _ None = False"
| "ptr_less None (Some _) = True"
| "ptr_less (Some a) (Some b) = (a < b)"

definition descriptor_less ::
  "'a AutoFilterDescriptor_scheme \<Rightarrow> 'b AutoFilterDescriptor_scheme \<Rightarrow> bool" where
  "descriptor_less d rhs \<longleftrightarrow>
     m_altitude rhs < m_altitude d \<or>
     (m_altitude rhs = m_altitude d \<and>
       (ptr_less (m_pCall rhs) (m_pCall d) \<or>
        (m_pCall rhs = m_pCall d \<and> ptr_less (m_autoFilter rhs) (m_autoFilter d))))"

definition descriptor_less_eq ::
  "'a AutoFilterDescriptor_scheme \<Rightarrow> 'b AutoFilterDescriptor_scheme \<Rightarrow> bool" where
  "descriptor_less_eq d rhs \<longleftrightarrow> descriptor_less d rhs \<or> descriptor_eq d rhs"

section \<open>Satisfaction counters\<close>

record SatCounter = AutoFilterDescriptor +
  flink :: ptr
  blink :: ptr
  remaining :: nat

definition mk_sat_counter :: "AutoFilterDescriptor \<Rightarrow> SatCounter" where
  "mk_sat_counter source = AutoFilterDescriptor.extend source
     \<lparr>flink = None, blink = None, remaining = m_requiredCount source\<rparr>"

definition Decrement :: "SatCounter \<Rightarrow> bool \<times> SatCounter" where
  "Decrement s =
     (if remaining s = 0 then (False, s)
      else (remaining s - 1 = 0, s\<lparr>remaining := remaining s - 1\<rparr>))"

definition Increment :: "SatCounter \<Rightarrow> SatCounter" where
  "Increment s = s\<lparr>remaining := Suc (remaining s)\<rparr>"

section \<open>Decoration dispositions\<close>

datatype DispositionState = Unsatisfied | PartlySatisfied | Complete

record Modifier =
  mod_is_shared :: bool
  mod_altitude :: altitude
  mod_satCounter :: addr

datatype Subscriber_Type = Normal | Optional | Multi

record Subscriber =
  sub_is_shared :: bool
  sub_type :: Subscriber_Type
  sub_altitude :: altitude
  sub_satCounter :: addr

text \<open>A decoration is a shared pointer: the address of its object, or null.\<close>

record DecorationDisposition =
  m_nProducersRun :: nat
  m_decorations :: "ptr list"
  m_pImmediate :: ptr
  m_publishers :: "addr list"
  m_modifiers :: "Modifier list"
  m_subscribers :: "Subscriber list"
  m_state :: DispositionState

definition disposition_new :: DecorationDisposition where
  "disposition_new = \<lparr>m_nProducersRun = 0, m_decorations = [], m_pImmediate = None, m_publishers = [],
     m_modifiers = [], m_subscribers = [], m_state = Unsatisfied\<rparr>"

definition subscriber_less :: "Subscriber \<Rightarrow> Subscriber \<Rightarrow> bool" where
  "subscriber_less s rhs \<longleftrightarrow> sub_altitude s < sub_altitude rhs \<or>
     (sub_altitude s = sub_altitude rhs \<and> sub_satCounter s < sub_satCounter rhs)"

text \<open>\<open>std::set::emplace\<close>: in order, and no second element equivalent to one already there.\<close>

fun subscriber_emplace :: "Subscriber \<Rightarrow> Subscriber list \<Rightarrow> Subscriber list" where
  "subscriber_emplace s [] = [s]"
| "subscriber_emplace s (t # ts) =
     (if subscriber_less s t then s # t # ts
      else if subscriber_less t s then t # subscriber_emplace s ts
      else t # ts)"

definition IncProducerCount :: "DecorationDisposition \<Rightarrow> bool \<times> DecorationDisposition" where
  "IncProducerCount d =
     (let d1 = d\<lparr>m_nProducersRun := Suc (m_nProducersRun d)\<rparr> in
      case m_state d1 of
        Complete \<Rightarrow> (False, d1)
      | _ \<Rightarrow> (if m_nProducersRun d1 \<ge> length (m_publishers d1) then (True, d1\<lparr>m_state := Complete\<rparr>)
              else (False, d1\<lparr>m_state := PartlySatisfied\<rparr>)))"

definition IsPublicationComplete :: "DecorationDisposition \<Rightarrow> bool" where
  "IsPublicationComplete d \<longleftrightarrow> m_nProducersRun d \<ge> length (m_publishers d)"

definition disposition_Reset :: "DecorationDisposition \<Rightarrow> DecorationDisposition" where
  "disposition_Reset d = d\<lparr>m_decorations := [], m_pImmediate := None, m_state := Unsatisfied\<rparr>"

end
