(* ===== verification/Auto_Packet.thy ===== *)
theory Auto_Packet
  imports Auto_Filter
begin

text \<open>
  The packet that flows through a filter network, \<open>AutoPacket.{h,cpp}\<close> and
  \<open>AutoPacketInternal.cpp\<close>: the decoration map, the satisfaction counters of the subscribed
  filters, and the operations that attach decorations and call the filters they satisfy.

  The satisfaction counters live in a heap.  A filter body is code outside the packet:
  \<open>invoke pCall obj p\<close> is the effect of the call \<open>pCall\<close> on the object \<open>obj\<close>; it yields the
  exception it leaves with and the packet afterwards, or \<open>None\<close> when it does not return.  A body
  may itself operate on the packet.  The names of types in error messages are omitted.
\<close>

section \<open>State\<close>

record AutoPacket =
  m_firstCounter :: ptr
  m_decoration_map :: "auto_id \<rightharpoonup> DecorationDisposition"
  m_counters :: "addr \<rightharpoonup> SatCounter"

type_synonym 'w filter_call =
  "ptr \<Rightarrow> ptr \<Rightarrow> 'w AutoPacket_scheme \<Rightarrow> 'w AutoPacket_scheme exn option"

definition packet_new :: AutoPacket where
  "packet_new = \<lparr>m_firstCounter = None, m_decoration_map = Map.empty, m_counters = Map.empty\<rparr>"

text \<open>\<open>m_decoration_map[key]\<close> makes an entry where there is none.\<close>

definition entry :: "auto_id \<Rightarrow> 'w AutoPacket_scheme \<Rightarrow> DecorationDisposition" where
  "entry key p = (case m_decoration_map p key of None \<Rightarrow> disposition_new | Some d \<Rightarrow> d)"

definition set_entry ::
  "auto_id \<Rightarrow> DecorationDisposition \<Rightarrow> 'w AutoPacket_scheme \<Rightarrow> 'w AutoPacket_scheme" where
  "set_entry key d p = p\<lparr>m_decoration_map := (m_decoration_map p)(key \<mapsto> d)\<rparr>"

definition set_counter :: "addr \<Rightarrow> SatCounter \<Rightarrow> 'w AutoPacket_scheme \<Rightarrow> 'w AutoPacket_scheme" where
  "set_counter a s p = p\<lparr>m_counters := (m_counters p)(a \<mapsto> s)\<rparr>"

text \<open>\<open>Decrement\<close> on the counter at an address; an access to no counter is undefined behaviour.\<close>

definition dec_counter :: "addr \<Rightarrow> 'w AutoPacket_scheme \<Rightarrow> (bool \<times> 'w AutoPacket_scheme) option" where
  "dec_counter a p = map_option (\<lambda>s. case Decrement s of (b, s') \<Rightarrow> (b, set_counter a s' p)) (m_counters p a)"

section \<open>Subscription of a filter\<close>

text \<open>The search for a modifier's position: an equal altitude throws, else the first higher one.\<close>

fun modifier_insert :: "Modifier \<Rightarrow> Modifier list \<Rightarrow> Modifier list option" where
  "modifier_insert m [] = Some [m]"
| "modifier_insert m (n # ns) =
     (if mod_altitude n = mod_altitude m then None
      else if mod_altitude n > mod_altitude m then Some (m # n # ns)
      else map_option (Cons n) (modifier_insert m ns))"

text \<open>
  A subscriber's counter is always allocated: counters are deleted by the packet's destructor only.
\<close>

definition single_input_subscribed ::
  "auto_id \<Rightarrow> 'w AutoPacket_scheme \<Rightarrow> Subscriber \<Rightarrow> bool" where
  "single_input_subscribed key p sub =
     (case m_counters p (sub_satCounter sub) of None \<Rightarrow> False
      | Some s \<Rightarrow> list_ex (\<lambda>a. arg_id a = key \<and> \<not> is_multi a) (m_pArgs s))"

definition sub_type_of :: "AutoFilterArgument \<Rightarrow> Subscriber_Type" where
  "sub_type_of a = (if is_multi a then Multi else if is_shared a then Optional else Normal)"

text \<open>The three parts of the loop body of \<open>AddSatCounterUnsafe\<close> for one argument.\<close>

definition add_input :: "addr \<Rightarrow> AutoFilterArgument \<Rightarrow> 'w AutoPacket_scheme \<Rightarrow> 'w AutoPacket_scheme exn" where
  "add_input sat a p0 =
     (let e = entry (arg_id a) p0; p = set_entry (arg_id a) e p0 in
      if \<not> is_input a then (None, p)
      else if length (m_publishers e) > 1 \<and> \<not> is_multi a then
        (Some (autowiring_error ''Cannot add listener for multi-broadcast type''), p)
      else if m_state e = Complete \<and> (m_decorations e \<noteq> [] \<or> is_shared a) then
        (case dec_counter sat p of None \<Rightarrow> (Some Undefined_behaviour, p) | Some (_, p1) \<Rightarrow> (None, p1))
      else (None, p))"

definition add_modifier ::
  "addr \<Rightarrow> altitude \<Rightarrow> AutoFilterArgument \<Rightarrow> 'w AutoPacket_scheme \<Rightarrow> 'w AutoPacket_scheme exn" where
  "add_modifier sat alt a p =
     (let e = entry (arg_id a) p in
      case modifier_insert \<lparr>mod_is_shared = is_shared a, mod_altitude = alt, mod_satCounter = sat\<rparr> (m_modifiers e) of
        None \<Rightarrow> (Some (autowiring_error ''Added multiple rvalue decorations with same altitudes''), p)
      | Some ms \<Rightarrow> (None, set_entry (arg_id a) (e\<lparr>m_modifiers := ms\<rparr>) p))"

definition add_subscriber ::
  "addr \<Rightarrow> altitude \<Rightarrow> AutoFilterArgument \<Rightarrow> 'w AutoPacket_scheme \<Rightarrow> 'w AutoPacket_scheme" where
  "add_subscriber sat alt a p =
     (let e = entry (arg_id a) p in
      if is_input a then
        set_entry (arg_id a) (e\<lparr>m_subscribers := subscriber_emplace
            \<lparr>sub_is_shared = is_shared a, sub_type = sub_type_of a, sub_altitude = alt, sub_satCounter = sat\<rparr>
            (m_subscribers e)\<rparr>) p
      else p)"

definition add_publisher ::
  "addr \<Rightarrow> AutoFilterArgument \<Rightarrow> 'w AutoPacket_scheme \<Rightarrow> 'w AutoPacket_scheme exn" where
  "add_publisher sat a p =
     (let e = entry (arg_id a) p in
      if \<not> is_output a then (None, p)
      else if m_publishers e \<noteq> [] \<and> list_ex (single_input_subscribed (arg_id a) p) (m_subscribers e) then
        (Some (autowiring_error ''Added identical data broadcasts with existing subscriber''), p)
      else if m_publishers e \<noteq> [] \<and> m_modifiers e \<noteq> [] then
        (Some (autowiring_error ''Added identical data broadcasts with existing modifier''), p)
      else (None, set_entry (arg_id a) (e\<lparr>m_publishers := m_publishers e @ [sat]\<rparr>) p))"

definition add_argument ::
  "addr \<Rightarrow> altitude \<Rightarrow> AutoFilterArgument \<Rightarrow> 'w AutoPacket_scheme \<Rightarrow> 'w AutoPacket_scheme exn" where
  "add_argument sat alt a p =
     seqX (add_input sat a p) (\<lambda>p1.
       if is_rvalue a then add_modifier sat alt a p1
       else add_publisher sat a (add_subscriber sat alt a p1))"

subsection \<open>Cycle detection\<close>

text \<open>
  \<open>nextCounters\<close>: the subscribers of every output type of a counter, once each.  (The sources
  keep them in an unordered set; here they are in order of first insertion.)
\<close>

definition next_counters :: "'w AutoPacket_scheme \<Rightarrow> addr \<Rightarrow> addr list" where
  "next_counters p c =
     (case m_counters p c of None \<Rightarrow> []
      | Some s \<Rightarrow> remdups (concat (map (\<lambda>a. map sub_satCounter (m_subscribers (entry (arg_id a) p)))
                            (filter is_output (m_pArgs s)))))"

text \<open>
  The recursion over a list of counters: \<open>DetectCycle\<close> on each in turn.  A recursion without end
  is \<open>None\<close>.
\<close>

partial_function (option) detect_each ::
  "(addr \<Rightarrow> addr list) \<Rightarrow> addr list \<Rightarrow> addr set \<Rightarrow> addr set \<Rightarrow> (addr set \<times> addr set) result option" where
  "detect_each nxt cs tempVisited permVisited =
     (if cs = [] then Some (Inr (tempVisited, permVisited))
      else if hd cs \<in> tempVisited then
        Some (Inl (autowiring_error ''Detected cycle in the auto filter graph''))
      else if hd cs \<in> permVisited \<or> nxt (hd cs) = [] then detect_each nxt (tl cs) tempVisited permVisited
      else Option.bind (detect_each nxt (nxt (hd cs)) (insert (hd cs) tempVisited) permVisited)
        (\<lambda>r. case r of
               Inl e \<Rightarrow> Some (Inl e)
             | Inr (t, pm) \<Rightarrow> detect_each nxt (tl cs) (t - {hd cs}) (insert (hd cs) pm)))"

definition DetectCycle ::
  "'w AutoPacket_scheme \<Rightarrow> addr \<Rightarrow> addr set \<Rightarrow> addr set \<Rightarrow> (addr set \<times> addr set) result option" where
  "DetectCycle p sat tempVisited permVisited = detect_each (next_counters p) [sat] tempVisited permVisited"

definition AddSatCounterUnsafe ::
  "addr \<Rightarrow> 'w AutoPacket_scheme \<Rightarrow> 'w AutoPacket_scheme exn option" where
  "AddSatCounterUnsafe sat p =
     (case m_counters p sat of
        None \<Rightarrow> Some (Some Undefined_behaviour, p)
      | Some s \<Rightarrow>
          (case foldX (add_argument sat (m_altitude s)) (m_pArgs s) p of
             (Some e, p1) \<Rightarrow> Some (Some e, p1)
           | (None, p1) \<Rightarrow>
               map_option (\<lambda>r. case r of Inl e \<Rightarrow> (Some e, p1) | Inr _ \<Rightarrow> (None, p1))
                 (DetectCycle p1 sat {} {})))"

subsection \<open>Removal\<close>

definition same_filter :: "addr \<Rightarrow> SatCounter \<Rightarrow> 'w AutoPacket_scheme \<Rightarrow> bool" where
  "same_filter a s p = (case m_counters p a of None \<Rightarrow> False | Some t \<Rightarrow> descriptor_eq t s)"

fun remove_first :: "('a \<Rightarrow> bool) \<Rightarrow> 'a list \<Rightarrow> 'a list" where
  "remove_first P [] = []"
| "remove_first P (x # xs) = (if P x then xs else x # remove_first P xs)"

definition remove_argument ::
  "SatCounter \<Rightarrow> AutoFilterArgument \<Rightarrow> 'w AutoPacket_scheme \<Rightarrow> 'w AutoPacket_scheme" where
  "remove_argument s a p =
     (let e = entry (arg_id a) p;
          gone = (\<lambda>c. same_filter c s p) in
      set_entry (arg_id a)
        (if is_rvalue a then e\<lparr>m_modifiers := filter (\<lambda>m. \<not> gone (mod_satCounter m)) (m_modifiers e)\<rparr>
         else
           (let e1 = (if is_input a then
                        e\<lparr>m_subscribers := remove_first (\<lambda>sub. gone (sub_satCounter sub)) (m_subscribers e)\<rparr>
                      else e)
            in if is_output a then e1\<lparr>m_publishers := filter (\<lambda>c. \<not> gone c) (m_publishers e1)\<rparr> else e1)) p)"

definition RemoveSatCounterUnsafe :: "SatCounter \<Rightarrow> 'w AutoPacket_scheme \<Rightarrow> 'w AutoPacket_scheme" where
  "RemoveSatCounterUnsafe s p = fold (remove_argument s) (m_pArgs s) p"

section \<open>Satisfaction\<close>

text \<open>The call of a filter through its satisfaction counter.\<close>

definition CallFilter :: "'w filter_call \<Rightarrow> addr \<Rightarrow> 'w AutoPacket_scheme \<Rightarrow> 'w AutoPacket_scheme exn option" where
  "CallFilter invoke c p =
     (case m_counters p c of
        None \<Rightarrow> Some (Some Undefined_behaviour, p)
      | Some s \<Rightarrow> invoke (m_pCall s) (m_autoFilter s) p)"

fun call_all :: "'w filter_call \<Rightarrow> addr list \<Rightarrow> 'w AutoPacket_scheme \<Rightarrow> 'w AutoPacket_scheme exn option" where
  "call_all invoke [] p = Some (None, p)"
| "call_all invoke (c # cs) p =
     Option.bind (CallFilter invoke c p)
       (\<lambda>r. case r of (None, p1) \<Rightarrow> call_all invoke cs p1 | (Some e, p1) \<Rightarrow> Some (Some e, p1))"

text \<open>
  The local state of \<open>UpdateSatisfactionUnsafe\<close> while it runs: the calls to make and the outputs
  found to be unsatisfiable, beside the packet.
\<close>

type_synonym 'w update_state = "addr list \<times> AutoFilterArgument list \<times> 'w AutoPacket_scheme"

definition markOutputsUnsat :: "addr \<Rightarrow> 'w update_state \<Rightarrow> 'w update_state exn" where
  "markOutputsUnsat c st =
     (case st of (callQueue, unsat, p) \<Rightarrow>
        (case m_counters p c of
           None \<Rightarrow> (Some Undefined_behaviour, st)
         | Some s \<Rightarrow>
             if remaining s = 0 then (None, st)
             else (None, callQueue, unsat @ filter is_output (rev (take (m_arity s) (m_pArgs s))),
                   set_counter c (s\<lparr>remaining := 0\<rparr>) p)))"

definition dec_and_queue :: "addr \<Rightarrow> 'w update_state \<Rightarrow> 'w update_state exn" where
  "dec_and_queue c st =
     (case st of (callQueue, unsat, p) \<Rightarrow>
        (case dec_counter c p of
           None \<Rightarrow> (Some Undefined_behaviour, st)
         | Some (ready, p1) \<Rightarrow> (None, if ready then callQueue @ [c] else callQueue, unsat, p1)))"

definition multi_decorate_error :: aw_error where
  "multi_decorate_error = autowiring_error
     ''An AutoFilter was detected which has single-decorate rvalue argument in a graph with multi-decorate outputs''"

definition multi_input_error :: aw_error where
  "multi_input_error = autowiring_error
     ''An AutoFilter was detected which has single-decorate inputs in a graph with multi-decorate outputs''"

text \<open>
  The loop over the modifiers.  A modifier that takes a shared pointer runs at once, with everything
  queued before it; the decorations are read anew in every round.
\<close>

fun update_modifiers ::
  "'w filter_call \<Rightarrow> auto_id \<Rightarrow> Modifier list \<Rightarrow> 'w update_state \<Rightarrow> 'w update_state exn option" where
  "update_modifiers invoke key [] st = Some (None, st)"
| "update_modifiers invoke key (m # ms) st =
     Option.bind
       (case st of (callQueue, unsat, p) \<Rightarrow>
          if mod_is_shared m then
            (case dec_counter (mod_satCounter m) p of
               None \<Rightarrow> Some (Some Undefined_behaviour, st)
             | Some (ready, p1) \<Rightarrow>
                 if ready then
                   map_option (\<lambda>(exc, p2). (exc, [], unsat, p2))
                     (call_all invoke (callQueue @ [mod_satCounter m]) p1)
                 else Some (None, callQueue, unsat, p1))
          else if length (m_decorations (entry key p)) = 0 then Some (markOutputsUnsat (mod_satCounter m) st)
          else if length (m_decorations (entry key p)) = 1 then Some (dec_and_queue (mod_satCounter m) st)
          else Some (Some multi_decorate_error, st))
       (\<lambda>r. case r of (None, st1) \<Rightarrow> update_modifiers invoke key ms st1 | (Some e, st1) \<Rightarrow> Some (Some e, st1))"

text \<open>One subscriber, for no decoration, one, and several.\<close>

definition update_subscriber_none :: "Subscriber \<Rightarrow> 'w update_state \<Rightarrow> 'w update_state exn" where
  "update_subscriber_none sub st =
     (case m_counters (snd (snd st)) (sub_satCounter sub) of
        None \<Rightarrow> (Some Undefined_behaviour, st)
      | Some s \<Rightarrow>
          if remaining s = 0 then (None, st)
          else (case sub_type sub of
                  Normal \<Rightarrow> markOutputsUnsat (sub_satCounter sub) st
                | _ \<Rightarrow> dec_and_queue (sub_satCounter sub) st))"

definition update_subscriber_many :: "Subscriber \<Rightarrow> 'w update_state \<Rightarrow> 'w update_state exn" where
  "update_subscriber_many sub st =
     (if sub_type sub \<noteq> Multi then (Some multi_input_error, st)
      else dec_and_queue (sub_satCounter sub) st)"

definition update_subscribers :: "DecorationDisposition \<Rightarrow> 'w update_state \<Rightarrow> 'w update_state exn" where
  "update_subscribers d st =
     (if length (m_decorations d) = 0 then foldX update_subscriber_none (m_subscribers d) st
      else if length (m_decorations d) = 1 then
        foldX (\<lambda>sub. dec_and_queue (sub_satCounter sub)) (m_subscribers d) st
      else foldX update_subscriber_many (m_subscribers d) st)"

text \<open>
  \<open>UpdateSatisfactionUnsafe\<close> up to the end of its calls.  The result has the unsatisfiable outputs.
\<close>

definition notify_consumers ::
  "'w filter_call \<Rightarrow> auto_id \<Rightarrow> 'w AutoPacket_scheme
     \<Rightarrow> (aw_error option \<times> AutoFilterArgument list \<times> 'w AutoPacket_scheme) option" where
  "notify_consumers invoke key p =
     (let d = entry key p in
      if m_state d \<noteq> Complete then Some (None, [], p)
      else if m_modifiers d \<noteq> [] \<and> length (m_decorations d) > 1 then Some (Some multi_decorate_error, [], p)
      else Option.bind (update_modifiers invoke key (m_modifiers d) ([], [], p)) (\<lambda>r.
        case seqX r (\<lambda>st. update_subscribers (entry key (snd (snd st))) st) of
          (Some e, _, unsat, p2) \<Rightarrow> Some (Some e, unsat, p2)
        | (None, callQueue, unsat, p2) \<Rightarrow>
            map_option (\<lambda>(exc, p3). (exc, unsat, p3)) (call_all invoke callQueue p2)))"

text \<open>
  The last loop: one more producer has run for every unsatisfiable output, and the entries this
  completes are updated in turn.
\<close>

partial_function (option) mark_unsat ::
  "'w filter_call \<Rightarrow> AutoFilterArgument list \<Rightarrow> 'w AutoPacket_scheme \<Rightarrow> 'w AutoPacket_scheme exn option" where
  "mark_unsat invoke args p =
     (case args of
        [] \<Rightarrow> Some (None, p)
      | a # as \<Rightarrow>
          (case IncProducerCount (entry (arg_id a) p) of (completed, d) \<Rightarrow>
             if completed then
               Option.bind (notify_consumers invoke (arg_id a) (set_entry (arg_id a) d p)) (\<lambda>r.
                 case r of
                   (Some e, _, p1) \<Rightarrow> Some (Some e, p1)
                 | (None, outs, p1) \<Rightarrow>
                     Option.bind (mark_unsat invoke outs p1) (\<lambda>r2.
                       case r2 of (Some e, p2) \<Rightarrow> Some (Some e, p2)
                       | (None, p2) \<Rightarrow> mark_unsat invoke as p2))
             else mark_unsat invoke as (set_entry (arg_id a) d p)))"

definition UpdateSatisfactionUnsafe ::
  "'w filter_call \<Rightarrow> auto_id \<Rightarrow> 'w AutoPacket_scheme \<Rightarrow> 'w AutoPacket_scheme exn option" where
  "UpdateSatisfactionUnsafe invoke key p =
     Option.bind (notify_consumers invoke key p) (\<lambda>r.
       case r of (Some e, _, p1) \<Rightarrow> Some (Some e, p1) | (None, outs, p1) \<Rightarrow> mark_unsat invoke outs p1)"

definition MarkUnsatisfiable ::
  "'w filter_call \<Rightarrow> auto_id \<Rightarrow> 'w AutoPacket_scheme \<Rightarrow> 'w AutoPacket_scheme exn option" where
  "MarkUnsatisfiable invoke key p =
     UpdateSatisfactionUnsafe invoke key
       (set_entry key ((entry key p)\<lparr>m_state := Complete, m_decorations := [], m_pImmediate := None\<rparr>) p)"

section \<open>Immediate decorations\<close>

definition DecorateImmediateUnsafe ::
  "auto_id \<Rightarrow> ptr \<Rightarrow> 'w AutoPacket_scheme \<Rightarrow> 'w AutoPacket_scheme exn" where
  "DecorateImmediateUnsafe key pvImmed p =
     (let dec = entry key p in
      if m_state dec \<noteq> Unsatisfied then
        (Some (autowiring_error ''Cannot perform immediate decoration, the requested decoration already exists''),
         set_entry key dec p)
      else (None, set_entry key (dec\<lparr>m_state := Complete, m_pImmediate := pvImmed\<rparr>) p))"

text \<open>One subscriber in the first pass of \<open>PulseSatisfactionUnsafe\<close>: the queue of calls, the
  counters to increment again, and the packet.\<close>

definition pulse_subscriber ::
  "Subscriber \<Rightarrow> addr list \<times> addr list \<times> 'w AutoPacket_scheme
     \<Rightarrow> (addr list \<times> addr list \<times> 'w AutoPacket_scheme) exn" where
  "pulse_subscriber cur st =
     (case st of (callQueue, reincrement, p) \<Rightarrow>
        (case m_counters p (sub_satCounter cur) of
           None \<Rightarrow> (Some Undefined_behaviour, st)
         | Some s \<Rightarrow>
             if \<not> sub_is_shared cur \<and> \<not> m_deferred s \<and> remaining s \<noteq> 0 then
               (case Decrement s of (ready, s') \<Rightarrow>
                  if ready then (None, callQueue @ [sub_satCounter cur], reincrement,
                                 set_counter (sub_satCounter cur) s' p)
                  else (None, callQueue, reincrement @ [sub_satCounter cur],
                        set_counter (sub_satCounter cur) s' p))
             else (None, st)))"

definition inc_counter :: "addr \<Rightarrow> 'w AutoPacket_scheme \<Rightarrow> 'w AutoPacket_scheme" where
  "inc_counter c p = (case m_counters p c of None \<Rightarrow> p | Some s \<Rightarrow> set_counter c (Increment s) p)"

definition zero_counter :: "addr \<Rightarrow> 'w AutoPacket_scheme \<Rightarrow> 'w AutoPacket_scheme" where
  "zero_counter c p = (case m_counters p c of None \<Rightarrow> p | Some s \<Rightarrow> set_counter c (s\<lparr>remaining := 0\<rparr>) p)"

fun pulse_calls ::
  "'w filter_call \<Rightarrow> addr list \<Rightarrow> 'w AutoPacket_scheme \<Rightarrow> 'w AutoPacket_scheme exn option" where
  "pulse_calls invoke [] p = Some (None, p)"
| "pulse_calls invoke (c # cs) p =
     Option.bind (CallFilter invoke c p)
       (\<lambda>r. case r of (None, p1) \<Rightarrow> pulse_calls invoke cs (zero_counter c p1)
            | (Some e, p1) \<Rightarrow> Some (Some e, p1))"

definition pulse_scan ::
  "auto_id list \<Rightarrow> 'w AutoPacket_scheme \<Rightarrow> (addr list \<times> addr list \<times> 'w AutoPacket_scheme) exn" where
  "pulse_scan keys p =
     foldX pulse_subscriber (concat (map (\<lambda>k. m_subscribers (entry k p)) (rev keys))) ([], [], p)"

partial_function (option) PulseSatisfactionUnsafe ::
  "'w filter_call \<Rightarrow> auto_id list \<Rightarrow> 'w AutoPacket_scheme \<Rightarrow> 'w AutoPacket_scheme exn option" where
  "PulseSatisfactionUnsafe invoke keys p =
     (case pulse_scan keys p of
        (Some e, _, _, p1) \<Rightarrow> Some (Some e, p1)
      | (None, callQueue, reincrement, p1) \<Rightarrow>
          Option.bind (pulse_calls invoke callQueue (fold inc_counter reincrement p1)) (\<lambda>r.
            case r of (Some e, p2) \<Rightarrow> Some (Some e, p2)
            | (None, p2) \<Rightarrow> if callQueue \<noteq> [] then PulseSatisfactionUnsafe invoke keys p2 else Some (None, p2)))"

fun mark_all_unsatisfiable ::
  "'w filter_call \<Rightarrow> auto_id list \<Rightarrow> 'w AutoPacket_scheme \<Rightarrow> 'w AutoPacket_scheme exn option" where
  "mark_all_unsatisfiable invoke [] p = Some (None, p)"
| "mark_all_unsatisfiable invoke (k # ks) p =
     Option.bind (MarkUnsatisfiable invoke k p)
       (\<lambda>r. case r of (None, p1) \<Rightarrow> mark_all_unsatisfiable invoke ks p1 | (Some e, p1) \<Rightarrow> Some (Some e, p1))"

text \<open>
  \<open>DecorateImmediate\<close>.  The clean-up runs in a destructor, on normal return and when a filter
  throws; an exception of its own ends the program.  (Its calls are made in the order of the
  arguments, which C++ leaves open.)
\<close>

definition immediate_cleanup ::
  "'w filter_call \<Rightarrow> auto_id list \<Rightarrow> 'w AutoPacket_scheme \<Rightarrow> 'w AutoPacket_scheme exn option" where
  "immediate_cleanup invoke keys p =
     mark_all_unsatisfiable invoke keys
       (fold (\<lambda>k p. set_entry k ((entry k p)\<lparr>m_pImmediate := None, m_state := Complete\<rparr>) p) keys p)"

definition DecorateImmediate ::
  "'w filter_call \<Rightarrow> (auto_id \<times> ptr) list \<Rightarrow> 'w AutoPacket_scheme \<Rightarrow> 'w AutoPacket_scheme exn option" where
  "DecorateImmediate invoke immeds p =
     (case foldX (\<lambda>(k, v). DecorateImmediateUnsafe k v) immeds p of
        (Some e, p1) \<Rightarrow> Some (Some e, p1)
      | (None, p1) \<Rightarrow>
          Option.bind (PulseSatisfactionUnsafe invoke (map fst immeds) p1) (\<lambda>(exc, p2).
            map_option (\<lambda>(exc2, p3). (if exc2 = None then exc else Some Terminated, p3))
              (immediate_cleanup invoke (map fst immeds) p2)))"

section \<open>Decorating\<close>

definition HasUnsafe :: "auto_id \<Rightarrow> 'w AutoPacket_scheme \<Rightarrow> bool" where
  "HasUnsafe key p = (case m_decoration_map p key of None \<Rightarrow> False | Some d \<Rightarrow> m_decorations d \<noteq> [])"

definition DecorateNoPriors ::
  "'w filter_call \<Rightarrow> ptr \<Rightarrow> auto_id \<Rightarrow> 'w AutoPacket_scheme \<Rightarrow> 'w AutoPacket_scheme exn option" where
  "DecorateNoPriors invoke ptr key p =
     (let d = entry key p in
      if m_state d = Complete then
        Some (Some (if m_decorations d = []
                    then autowiring_error ''Cannot check out decoration, it has been marked unsatisfiable''
                    else autowiring_error ''Cannot decorate this packet, the requested decoration is already satisfied''),
              set_entry key d p)
      else
        (case IncProducerCount (if ptr \<noteq> None then d\<lparr>m_decorations := m_decorations d @ [ptr]\<rparr> else d) of
           (completed, d1) \<Rightarrow>
             if completed then UpdateSatisfactionUnsafe invoke key (set_entry key d1 p)
             else Some (None, set_entry key d1 p)))"

definition Decorate ::
  "'w filter_call \<Rightarrow> ptr \<Rightarrow> auto_id \<Rightarrow> 'w AutoPacket_scheme \<Rightarrow> 'w AutoPacket_scheme exn option" where
  "Decorate invoke ptr key p = DecorateNoPriors invoke ptr key p"

definition RemoveDecoration :: "auto_id \<Rightarrow> 'w AutoPacket_scheme \<Rightarrow> 'w AutoPacket_scheme" where
  "RemoveDecoration key p =
     (case m_decoration_map p key of None \<Rightarrow> p | Some d \<Rightarrow> set_entry key (d\<lparr>m_decorations := []\<rparr>) p)"

definition GetDisposition :: "auto_id \<Rightarrow> 'w AutoPacket_scheme \<Rightarrow> DecorationDisposition option" where
  "GetDisposition key p =
     (case m_decoration_map p key of
        Some d \<Rightarrow> if m_state d = Complete then Some d else None
      | None \<Rightarrow> None)"

definition HasSubscribers :: "auto_id \<Rightarrow> 'w AutoPacket_scheme \<Rightarrow> bool" where
  "HasSubscribers key p = (case m_decoration_map p key of None \<Rightarrow> False | Some d \<Rightarrow> m_subscribers d \<noteq> [])"

definition HasPublishers :: "auto_id \<Rightarrow> 'w AutoPacket_scheme \<Rightarrow> nat" where
  "HasPublishers key p = (case m_decoration_map p key of None \<Rightarrow> 0 | Some d \<Rightarrow> length (m_publishers d))"

definition IsUnsatisfiable :: "auto_id \<Rightarrow> 'w AutoPacket_scheme \<Rightarrow> bool" where
  "IsUnsatisfiable key p =
     (case GetDisposition key p of
        None \<Rightarrow> False
      | Some d \<Rightarrow> if m_decorations d \<noteq> [] then False
                  else if m_nProducersRun d \<noteq> length (m_publishers d) then False else True)"

definition GetDecorationTypeCount :: "'w AutoPacket_scheme \<Rightarrow> nat" where
  "GetDecorationTypeCount p = card (dom (m_decoration_map p))"

definition GetDecorations :: "'w AutoPacket_scheme \<Rightarrow> auto_id \<rightharpoonup> DecorationDisposition" where
  "GetDecorations p = m_decoration_map p"

section \<open>Reading decorations\<close>

definition ThrowNotDecoratedException :: aw_error where
  "ThrowNotDecoratedException = autowiring_error ''Attempted to obtain a type which was not decorated on this packet''"

definition ThrowMultiplyDecoratedException :: aw_error where
  "ThrowMultiplyDecoratedException =
     autowiring_error ''Attempted to obtain a type which was decorated more than once on this packet''"

text \<open>\<open>Get(const T*&)\<close>: the return value and the pointer.\<close>

definition Get_ptr :: "auto_id \<Rightarrow> 'w AutoPacket_scheme \<Rightarrow> (bool \<times> ptr) result" where
  "Get_ptr key p =
     (case GetDisposition key p of
        None \<Rightarrow> Inr (False, None)
      | Some d \<Rightarrow>
          (case m_decorations d of
             [] \<Rightarrow> if m_pImmediate d \<noteq> None then Inr (True, m_pImmediate d) else Inr (False, None)
           | [x] \<Rightarrow> Inr (True, x)
           | _ \<Rightarrow> Inl ThrowMultiplyDecoratedException))"

definition Get :: "auto_id \<Rightarrow> 'w AutoPacket_scheme \<Rightarrow> addr result" where
  "Get key p = bindR (Get_ptr key p) (\<lambda>(b, retVal).
     case retVal of Some v \<Rightarrow> if b then Inr v else Inl ThrowNotDecoratedException
     | None \<Rightarrow> Inl ThrowNotDecoratedException)"

text \<open>\<open>Get(const std::shared_ptr<T>*&)\<close>: a pointer to the shared pointer, or null.\<close>

definition Get_shared_ptr :: "auto_id \<Rightarrow> 'w AutoPacket_scheme \<Rightarrow> ptr option result" where
  "Get_shared_ptr key p =
     (case GetDisposition key p of
        None \<Rightarrow> Inr None
      | Some d \<Rightarrow> (case m_decorations d of [] \<Rightarrow> Inr None | [x] \<Rightarrow> Inr (Some x)
                   | _ \<Rightarrow> Inl ThrowMultiplyDecoratedException))"

text \<open>\<open>Get(std::shared_ptr<const T>&)\<close> never throws.\<close>

definition Get_shared :: "auto_id \<Rightarrow> 'w AutoPacket_scheme \<Rightarrow> bool \<times> ptr" where
  "Get_shared key p =
     (case m_decoration_map p key of
        None \<Rightarrow> (False, None)
      | Some d \<Rightarrow>
          if m_state d = Complete then
            (case m_decorations d of [x] \<Rightarrow> (True, x) | _ \<Rightarrow> (False, None))
          else (False, None))"

definition GetRvalueShared :: "auto_id \<Rightarrow> 'w AutoPacket_scheme \<Rightarrow> (ptr \<times> 'w AutoPacket_scheme) result" where
  "GetRvalueShared key p =
     (case m_decoration_map p key of
        None \<Rightarrow> Inl ThrowNotDecoratedException
      | Some d \<Rightarrow>
          if m_state d \<noteq> Complete then Inl ThrowNotDecoratedException
          else (case m_decorations d of
                  [] \<Rightarrow> Inr (None, set_entry key (d\<lparr>m_decorations := [None]\<rparr>) p)
                | [x] \<Rightarrow> Inr (x, p)
                | _ \<Rightarrow> Inl ThrowMultiplyDecoratedException))"

text \<open>The null-terminated array of all decorations of a type.\<close>

definition GetAll :: "auto_id \<Rightarrow> 'w AutoPacket_scheme \<Rightarrow> ptr list" where
  "GetAll key p = (case m_decoration_map p key of None \<Rightarrow> [None] | Some d \<Rightarrow> m_decorations d @ [None])"

definition GetAllShared :: "auto_id \<Rightarrow> 'w AutoPacket_scheme \<Rightarrow> ptr list" where
  "GetAllShared key p = (case m_decoration_map p key of None \<Rightarrow> [None] | Some d \<Rightarrow> m_decorations d @ [None])"

fun decorate_each ::
  "'w filter_call \<Rightarrow> (auto_id \<times> ptr) list \<Rightarrow> 'w AutoPacket_scheme \<Rightarrow> 'w AutoPacket_scheme exn option" where
  "decorate_each invoke [] p = Some (None, p)"
| "decorate_each invoke ((k, v) # kvs) p =
     Option.bind (Decorate invoke v k p)
       (\<lambda>r. case r of (None, p1) \<Rightarrow> decorate_each invoke kvs p1 | (Some e, p1) \<Rightarrow> Some (Some e, p1))"

text \<open>
  \<open>ForwardAll\<close> visits the source packet's map in the order \<open>order\<close> in which the hash map lists its
  keys, and decorates the recipient with every complete decoration.
\<close>

definition forwarded :: "auto_id list \<Rightarrow> 'v AutoPacket_scheme \<Rightarrow> (auto_id \<times> ptr) list" where
  "forwarded order p = concat (map (\<lambda>k. case GetDisposition k p of
     None \<Rightarrow> [] | Some d \<Rightarrow> map (\<lambda>v. (k, v)) (m_decorations d)) order)"

definition ForwardAll ::
  "'w filter_call \<Rightarrow> auto_id list \<Rightarrow> 'v AutoPacket_scheme \<Rightarrow> 'w AutoPacket_scheme
     \<Rightarrow> 'w AutoPacket_scheme exn option" where
  "ForwardAll invoke order src recipient = decorate_each invoke (forwarded order src) recipient"

section \<open>The list of satisfaction counters\<close>

text \<open>The counters from \<open>cur\<close> along \<open>flink\<close>; a dangling link is undefined behaviour.\<close>

partial_function (option) counter_list :: "'w AutoPacket_scheme \<Rightarrow> ptr \<Rightarrow> addr list result option" where
  "counter_list p cur =
     (case cur of
        None \<Rightarrow> Some (Inr [])
      | Some a \<Rightarrow>
          (case m_counters p a of
             None \<Rightarrow> Some (Inl Undefined_behaviour)
           | Some s \<Rightarrow> Option.bind (counter_list p (flink s))
                         (\<lambda>r. Some (bindR r (\<lambda>as. Inr (a # as))))))"

definition GetSatisfaction :: "auto_id \<Rightarrow> 'w AutoPacket_scheme \<Rightarrow> addr result option" where
  "GetSatisfaction subscriber p =
     map_option (\<lambda>r. bindR r (\<lambda>as.
         case find (\<lambda>a. map_option m_type (m_counters p a) = Some subscriber) as of
           Some a \<Rightarrow> Inr a
         | None \<Rightarrow> Inl (autowiring_error ''Attempted to get the satisfaction counter for an unavailable subscriber'')))
       (counter_list p (m_firstCounter p))"

text \<open>
  \<open>AddRecipient\<close>: a new counter at the fresh address \<open>a\<close>.  The result is the exception, the address
  returned, and the packet.  When the filter is on the packet already its counter is returned and
  the new one stays allocated.
\<close>

definition link_counter :: "addr \<Rightarrow> 'w AutoPacket_scheme \<Rightarrow> 'w AutoPacket_scheme" where
  "link_counter a p =
     (let p1 = (case m_counters p a of None \<Rightarrow> p | Some s \<Rightarrow> set_counter a (s\<lparr>flink := m_firstCounter p\<rparr>) p);
          p2 = (case m_firstCounter p1 of None \<Rightarrow> p1
                | Some b \<Rightarrow> (case m_counters p1 b of None \<Rightarrow> p1
                             | Some t \<Rightarrow> set_counter b (t\<lparr>blink := Some a\<rparr>) p1))
      in p2\<lparr>m_firstCounter := Some a\<rparr>)"

definition AddRecipient ::
  "'w filter_call \<Rightarrow> addr \<Rightarrow> AutoFilterDescriptor \<Rightarrow> 'w AutoPacket_scheme
     \<Rightarrow> (aw_error option \<times> addr \<times> 'w AutoPacket_scheme) option" where
  "AddRecipient invoke a descriptor p =
     (let sat = mk_sat_counter descriptor; p0 = set_counter a sat p in
      Option.bind (counter_list p0 (m_firstCounter p0)) (\<lambda>r.
        case r of
          Inl e \<Rightarrow> Some (Some e, a, p0)
        | Inr as \<Rightarrow>
            (case find (\<lambda>c. same_filter c sat p0) as of
               Some c \<Rightarrow> Some (None, c, p0)
             | None \<Rightarrow>
                 Option.bind (AddSatCounterUnsafe a (link_counter a p0)) (\<lambda>r2.
                   case r2 of
                     (Some e, p1) \<Rightarrow> Some (Some e, a, p1)
                   | (None, p1) \<Rightarrow>
                       if map_option remaining (m_counters p1 a) = Some 0 then
                         map_option (\<lambda>(exc, p2). (exc, a, p2)) (CallFilter invoke a p1)
                       else Some (None, a, p1)))))"

definition RemoveRecipient :: "addr \<Rightarrow> 'w AutoPacket_scheme \<Rightarrow> 'w AutoPacket_scheme result" where
  "RemoveRecipient c p =
     (case m_counters p c of
        None \<Rightarrow> Inl Undefined_behaviour
      | Some s \<Rightarrow>
          bindR (case blink s of
                   None \<Rightarrow> Inr p
                 | Some b \<Rightarrow> (case m_counters p b of None \<Rightarrow> Inl Undefined_behaviour
                              | Some t \<Rightarrow> Inr (set_counter b (t\<lparr>flink := flink s\<rparr>) p)))
            (\<lambda>p1. bindR (case flink s of
                            None \<Rightarrow> Inr p1
                          | Some f \<Rightarrow> (case m_counters p1 f of None \<Rightarrow> Inl Undefined_behaviour
                                       | Some t \<Rightarrow> Inr (set_counter f (t\<lparr>blink := blink s\<rparr>) p1)))
                    (\<lambda>p2. Inr (RemoveSatCounterUnsafe s p2))))"

text \<open>
  \<open>AutoPacketInternal::Initialize\<close> on the counter list \<open>first\<close> that the factory has made, with its
  counters in the heap \<open>h\<close>.
\<close>

fun prime_counters ::
  "addr list \<Rightarrow> addr list \<Rightarrow> 'w AutoPacket_scheme \<Rightarrow> (aw_error option \<times> addr list \<times> 'w AutoPacket_scheme) option" where
  "prime_counters [] callCounters p = Some (None, callCounters, p)"
| "prime_counters (c # cs) callCounters p =
     Option.bind (AddSatCounterUnsafe c p) (\<lambda>r.
       case r of
         (Some e, p1) \<Rightarrow> Some (Some e, callCounters, p1)
       | (None, p1) \<Rightarrow>
           prime_counters cs
             (if map_option remaining (m_counters p1 c) = Some 0 then callCounters @ [c] else callCounters) p1)"

definition Initialize ::
  "'w filter_call \<Rightarrow> ptr \<Rightarrow> (addr \<rightharpoonup> SatCounter) \<Rightarrow> 'w AutoPacket_scheme \<Rightarrow> 'w AutoPacket_scheme exn option" where
  "Initialize invoke first h p =
     (let p0 = p\<lparr>m_firstCounter := first, m_counters := h\<rparr> in
      Option.bind (counter_list p0 first) (\<lambda>r.
        case r of
          Inl e \<Rightarrow> Some (Some e, p0)
        | Inr as \<Rightarrow>
            Option.bind (prime_counters as [] p0) (\<lambda>r2.
              case r2 of
                (Some e, _, p1) \<Rightarrow> Some (Some e, p1)
              | (None, callCounters, p1) \<Rightarrow> call_all invoke callCounters p1)))"

text \<open>The loop of the destructor.\<close>

partial_function (option) unwind_counters ::
  "ptr \<Rightarrow> 'w AutoPacket_scheme \<Rightarrow> 'w AutoPacket_scheme result option" where
  "unwind_counters cur p =
     (case cur of
        None \<Rightarrow> Some (Inr p)
      | Some a \<Rightarrow>
          (case m_counters p a of
             None \<Rightarrow> Some (Inl Undefined_behaviour)
           | Some s \<Rightarrow> unwind_counters (flink s) (p\<lparr>m_counters := (m_counters p)(a := None)\<rparr>)))"

definition packet_dtor :: "'w AutoPacket_scheme \<Rightarrow> 'w AutoPacket_scheme result option" where
  "packet_dtor p = unwind_counters (m_firstCounter p) p"

section \<open>The current packet of a thread\<close>

definition SetCurrent :: "addr option \<Rightarrow> addr option \<Rightarrow> addr option \<times> addr option" where
  "SetCurrent apkt autoCurrentPacket =
     (let prior = autoCurrentPacket in (prior, case apkt of Some a \<Rightarrow> Some a | None \<Rightarrow> None))"

definition CurrentPacket :: "addr option \<Rightarrow> addr result" where
  "CurrentPacket autoCurrentPacket =
     (case autoCurrentPacket of
        None \<Rightarrow> Inl (autowiring_error ''Attempted to obtain a current AutoPacket, which was not made'')
      | Some a \<Rightarrow> Inr a)"

section \<open>The extracted call of a filter\<close>

text \<open>
  \<open>CE::Call\<close>: extract the arguments, call the function, commit the outputs.  An extracted argument
  is a list of pointers; \<open>fresh\<close> gives the objects that outputs are made in, \<open>body\<close> is the filter
  function, from the extracted arguments to the exception it leaves with and the outputs it leaves
  behind.
\<close>

type_synonym 'w extraction = "(ptr list \<times> 'w AutoPacket_scheme) result"

definition extract_value :: "auto_id \<Rightarrow> 'w AutoPacket_scheme \<Rightarrow> 'w extraction" where
  "extract_value i p = bindR (Get i p) (\<lambda>v. Inr ([Some v], p))"

definition extract_shared_const :: "auto_id \<Rightarrow> 'w AutoPacket_scheme \<Rightarrow> 'w extraction" where
  "extract_shared_const i p = bindR (Get_shared_ptr i p) (\<lambda>v. Inr ([case v of None \<Rightarrow> None | Some x \<Rightarrow> x], p))"

definition extract_shared_rvalue :: "auto_id \<Rightarrow> 'w AutoPacket_scheme \<Rightarrow> 'w extraction" where
  "extract_shared_rvalue i p = bindR (GetRvalueShared i p) (\<lambda>(v, p'). Inr ([v], p'))"

definition extract_ptr :: "auto_id \<Rightarrow> addr \<Rightarrow> 'w AutoPacket_scheme \<Rightarrow> 'w extraction" where
  "extract_ptr i new p = Inr ([if \<not> HasSubscribers i p then None else Some new], p)"

definition extract_ref :: "addr \<Rightarrow> 'w AutoPacket_scheme \<Rightarrow> 'w extraction" where
  "extract_ref new p = Inr ([Some new], p)"

definition extract_shared_ref :: "'w AutoPacket_scheme \<Rightarrow> 'w extraction" where
  "extract_shared_ref p = Inr ([None], p)"

definition extract_multi :: "auto_id \<Rightarrow> 'w AutoPacket_scheme \<Rightarrow> 'w extraction" where
  "extract_multi i p = Inr (GetAll i p, p)"

definition extract_multi_shared :: "auto_id \<Rightarrow> 'w AutoPacket_scheme \<Rightarrow> 'w extraction" where
  "extract_multi_shared i p = Inr (GetAllShared i p, p)"

text \<open>A context or packet argument is no pointer of the packet; it is null here.\<close>

fun arg_extract :: "auto_arg \<Rightarrow> addr \<Rightarrow> 'w AutoPacket_scheme \<Rightarrow> 'w extraction" where
  "arg_extract (Arg_value i) new p = extract_value i p"
| "arg_extract (Arg_const_ref i) new p = extract_value i p"
| "arg_extract (Arg_rvalue i) new p = extract_value i p"
| "arg_extract (Arg_shared_const i) new p = extract_shared_const i p"
| "arg_extract (Arg_shared_rvalue i) new p = extract_shared_rvalue i p"
| "arg_extract (Arg_ptr i) new p = extract_ptr i new p"
| "arg_extract (Arg_const_ptr i) new p = extract_value i p"
| "arg_extract (Arg_ref i) new p = extract_ref new p"
| "arg_extract (Arg_shared_ref i) new p = extract_shared_ref p"
| "arg_extract (Arg_shared_ptr i) new p = Inr ([None], p)"
| "arg_extract (Arg_context i) new p = Inr ([None], p)"
| "arg_extract (Arg_multi i) new p = extract_multi i p"
| "arg_extract (Arg_multi_shared i) new p = extract_multi_shared i p"
| "arg_extract (Arg_packet i) new p = Inr ([None], p)"

text \<open>
  \<open>Commit\<close> of the pointer that the call left in an output argument; \<open>downstream\<close> was read when a
  \<open>std::shared_ptr<T>*\<close> argument was extracted.
\<close>

definition commit_shared_rvalue :: "auto_id \<Rightarrow> ptr \<Rightarrow> 'w AutoPacket_scheme \<Rightarrow> 'w AutoPacket_scheme" where
  "commit_shared_rvalue i val p = (if val = None then RemoveDecoration i p else p)"

definition commit_shared_ptr ::
  "'w filter_call \<Rightarrow> auto_id \<Rightarrow> bool \<Rightarrow> ptr \<Rightarrow> 'w AutoPacket_scheme \<Rightarrow> 'w AutoPacket_scheme exn option" where
  "commit_shared_ptr invoke i downstream val p =
     (if downstream then Decorate invoke val i p else Some (None, p))"

fun arg_commit ::
  "'w filter_call \<Rightarrow> auto_arg \<Rightarrow> bool \<Rightarrow> ptr \<Rightarrow> 'w AutoPacket_scheme \<Rightarrow> 'w AutoPacket_scheme exn option" where
  "arg_commit invoke (Arg_shared_rvalue i) downstream val p = Some (None, commit_shared_rvalue i val p)"
| "arg_commit invoke (Arg_ptr i) downstream val p = Decorate invoke val i p"
| "arg_commit invoke (Arg_ref i) downstream val p = Decorate invoke val i p"
| "arg_commit invoke (Arg_shared_ref i) downstream val p = Decorate invoke val i p"
| "arg_commit invoke (Arg_shared_ptr i) downstream val p = commit_shared_ptr invoke i downstream val p"
| "arg_commit invoke _ downstream val p = Some (None, p)"

fun extract_all ::
  "auto_arg list \<Rightarrow> addr list \<Rightarrow> 'w AutoPacket_scheme \<Rightarrow> (ptr list list \<times> 'w AutoPacket_scheme) result" where
  "extract_all [] fresh p = Inr ([], p)"
| "extract_all (a # as) fresh p =
     bindR (arg_extract a (case fresh of [] \<Rightarrow> 0 | n # _ \<Rightarrow> n) p)
       (\<lambda>(v, p1). bindR (extract_all as (tl fresh) p1) (\<lambda>(vs, p2). Inr (v # vs, p2)))"

fun commit_all ::
  "'w filter_call \<Rightarrow> (auto_arg \<times> bool \<times> ptr) list \<Rightarrow> 'w AutoPacket_scheme \<Rightarrow> 'w AutoPacket_scheme exn option" where
  "commit_all invoke [] p = Some (None, p)"
| "commit_all invoke ((a, b, v) # cs) p =
     Option.bind (arg_commit invoke a b v p)
       (\<lambda>r. case r of (None, p1) \<Rightarrow> commit_all invoke cs p1 | (Some e, p1) \<Rightarrow> Some (Some e, p1))"

fun arg_key :: "auto_arg \<Rightarrow> auto_id" where
  "arg_key a = arg_id (AutoFilterArgumentT a)"

definition CE_Call ::
  "'w filter_call \<Rightarrow> auto_arg list \<Rightarrow> addr list
     \<Rightarrow> (ptr list list \<Rightarrow> 'w AutoPacket_scheme \<Rightarrow> aw_error option \<times> ptr list \<times> 'w AutoPacket_scheme)
     \<Rightarrow> 'w AutoPacket_scheme \<Rightarrow> 'w AutoPacket_scheme exn option" where
  "CE_Call invoke args fresh body p =
     (case extract_all args fresh p of
        Inl e \<Rightarrow> Some (Some e, p)
      | Inr (vals, p1) \<Rightarrow>
          (let downstream = map (\<lambda>a. HasSubscribers (arg_key a) p1) args in
           case body vals p1 of
             (Some e, _, p2) \<Rightarrow> Some (Some e, p2)
           | (None, outs, p2) \<Rightarrow> commit_all invoke (zip args (zip downstream outs)) p2))"

end
