(* ===== verification/Auto_Packet_Props.thy ===== *)
theory Auto_Packet_Props
  imports Auto_Packet
begin

text \<open>
  Correctness of the packet: cycle detection decides whether a cycle of filters can be reached and
  always ends; subscription keeps the decoration map well formed, also when it throws, and removal
  undoes it; a decoration satisfies each filter once, in altitude order; the propagation of
  unsatisfiable outputs ends.
\<close>

section \<open>Cycle detection\<close>

definition edges :: "(addr \<Rightarrow> addr list) \<Rightarrow> (addr \<times> addr) set" where
  "edges nxt = {(c, d). d \<in> set (nxt c)}"

text \<open>A counter from which no cycle can be reached.\<close>

definition acyclic_from :: "(addr \<Rightarrow> addr list) \<Rightarrow> addr \<Rightarrow> bool" where
  "acyclic_from nxt c \<longleftrightarrow> (\<forall>x. (c, x) \<in> (edges nxt)\<^sup>* \<longrightarrow> (x, x) \<notin> (edges nxt)\<^sup>+)"

lemma acyclic_from_step:
  assumes "\<And>d. d \<in> set (nxt c) \<Longrightarrow> acyclic_from nxt d"
  shows "acyclic_from nxt c"
  unfolding acyclic_from_def
proof (intro allI impI notI)
  fix x assume cx: "(c, x) \<in> (edges nxt)\<^sup>*" and xx: "(x, x) \<in> (edges nxt)\<^sup>+"
  from cx xx have "(c, x) \<in> (edges nxt)\<^sup>+" by (rule rtrancl_trancl_trancl)
  then obtain d where d: "(c, d) \<in> edges nxt" "(d, x) \<in> (edges nxt)\<^sup>*" by (meson tranclD)
  then have "acyclic_from nxt d" using assms by (simp add: edges_def)
  with d(2) xx show False by (simp add: acyclic_from_def)
qed

lemma acyclic_from_leaf: "nxt c = [] \<Longrightarrow> acyclic_from nxt c"
  by (rule acyclic_from_step) simp

text \<open>
  The traversal from counters \<open>cs\<close>, each of which every counter on the current path \<open>temp\<close> leads to:
  it ends; it reports an error only if there is a cycle; and if it reports none, then no cycle can
  be reached from \<open>cs\<close>, the path is restored and every permanently visited counter is acyclic.
\<close>

lemma detect_each_correct:
  assumes "finite V" "\<And>c. c \<in> V \<Longrightarrow> set (nxt c) \<subseteq> V" "set cs \<subseteq> V" "temp \<subseteq> V"
    and "\<forall>t \<in> temp. \<forall>c \<in> set cs. (t, c) \<in> (edges nxt)\<^sup>+"
    and "\<forall>c \<in> perm. acyclic_from nxt c"
  shows "\<exists>r. detect_each nxt cs temp perm = Some r \<and>
     (case r of Inl _ \<Rightarrow> \<exists>c \<in> set cs. \<not> acyclic_from nxt c
      | Inr (temp', perm') \<Rightarrow> temp' = temp \<and> perm \<subseteq> perm' \<and>
          (\<forall>c \<in> perm'. acyclic_from nxt c) \<and> (\<forall>c \<in> set cs. acyclic_from nxt c))"
  using assms(3-6)
proof (induction "card (V - temp)" arbitrary: cs temp perm rule: less_induct)
  case less
  note outer = less.hyps
  from less.prems show ?case
  proof (induction cs arbitrary: perm)
    case Nil
    then show ?case by (simp add: detect_each.simps)
  next
    case (Cons c cs)
    have rest: "set cs \<subseteq> V" "\<forall>t \<in> temp. \<forall>d \<in> set cs. (t, d) \<in> (edges nxt)\<^sup>+"
      using Cons.prems by auto
    note IH = Cons.IH [OF rest(1) Cons.prems(2) rest(2)]
    consider (cycle) "c \<in> temp" | (skip) "c \<notin> temp" "c \<in> perm \<or> nxt c = []"
      | (visit) "c \<notin> temp" "c \<notin> perm" "nxt c \<noteq> []" by blast
    then show ?case
    proof cases
      case cycle
      then have "\<not> acyclic_from nxt c" using Cons.prems(3) by (auto simp: acyclic_from_def)
      with cycle show ?thesis by (simp add: detect_each.simps)
    next
      case skip
      then have "acyclic_from nxt c" using Cons.prems(4) acyclic_from_leaf by blast
      moreover have "detect_each nxt (c # cs) temp perm = detect_each nxt cs temp perm"
        using skip by (subst detect_each.simps) auto
      ultimately show ?thesis using IH [OF Cons.prems(4)] by (fastforce split: sum.splits)
    next
      case visit
      let ?t = "insert c temp"
      have cV: "c \<in> V" using Cons.prems(1) by simp
      have "V - ?t \<subset> V - temp" using cV visit(1) by auto
      then have lt: "card (V - ?t) < card (V - temp)" using assms(1) by (simp add: psubset_card_mono)
      have path: "(t, d) \<in> (edges nxt)\<^sup>+" if "t \<in> ?t" "d \<in> set (nxt c)" for t d
      proof -
        have cd: "(c, d) \<in> edges nxt" using that(2) by (simp add: edges_def)
        show ?thesis
        proof (cases "t = c")
          case False
          then have "(t, c) \<in> (edges nxt)\<^sup>+" using that(1) Cons.prems(3) by simp
          with cd show ?thesis by (rule trancl_into_trancl [rotated -1])
        qed (use cd in auto)
      qed
      obtain r where r: "detect_each nxt (nxt c) ?t perm = Some r"
        "case r of Inl _ \<Rightarrow> \<exists>d \<in> set (nxt c). \<not> acyclic_from nxt d
         | Inr (temp', perm') \<Rightarrow> temp' = ?t \<and> perm \<subseteq> perm' \<and>
             (\<forall>d \<in> perm'. acyclic_from nxt d) \<and> (\<forall>d \<in> set (nxt c). acyclic_from nxt d)"
        using outer [OF lt, of "nxt c" perm] assms(2) [OF cV] Cons.prems(2,4) cV path by auto
      show ?thesis
      proof (cases r)
        case (Inl e)
        then obtain d where d: "d \<in> set (nxt c)" "\<not> acyclic_from nxt d" using r(2) by auto
        have "(c, d) \<in> (edges nxt)\<^sup>*" using d(1) by (auto simp: edges_def)
        then have "\<not> acyclic_from nxt c" using d(2) by (meson acyclic_from_def rtrancl_trans)
        then show ?thesis using Inl r(1) visit by (subst detect_each.simps) auto
      next
        case (Inr tp)
        then obtain pm where pm: "r = Inr (?t, pm)" "perm \<subseteq> pm" "\<forall>d \<in> pm. acyclic_from nxt d"
          "\<forall>d \<in> set (nxt c). acyclic_from nxt d" using r(2) by (cases tp) auto
        have c: "acyclic_from nxt c" using pm(4) by (auto intro: acyclic_from_step)
        have "?t - {c} = temp" using visit(1) by auto
        then have "detect_each nxt (c # cs) temp perm = detect_each nxt cs temp (insert c pm)"
          using visit r(1) pm(1) by (subst detect_each.simps) simp
        with IH [of "insert c pm"] pm c show ?thesis by (fastforce split: sum.splits)
      qed
    qed
  qed
qed

lemma next_counters_allocated:
  assumes "\<And>k d sub. m_decoration_map p k = Some d \<Longrightarrow> sub \<in> set (m_subscribers d) \<Longrightarrow>
      sub_satCounter sub \<in> dom (m_counters p)"
  shows "set (next_counters p c) \<subseteq> dom (m_counters p)"
  using assms
  by (fastforce simp: next_counters_def entry_def disposition_new_def split: option.splits)

text \<open>
  C2.  Cycle detection is total and exact: on a packet with finitely many counters whose subscribers
  are all allocated, \<open>DetectCycle\<close> returns, and it throws exactly if a cycle of filters, each
  subscribed to an output of the one before, can be reached from the new counter.
\<close>

theorem DetectCycle_exact:
  assumes "finite (dom (m_counters p))" "sat \<in> dom (m_counters p)"
    and "\<And>k d sub. m_decoration_map p k = Some d \<Longrightarrow> sub \<in> set (m_subscribers d) \<Longrightarrow>
      sub_satCounter sub \<in> dom (m_counters p)"
  shows "\<exists>r. DetectCycle p sat {} {} = Some r \<and>
     ((\<exists>e. r = Inl e) \<longleftrightarrow>
       (\<exists>x. (sat, x) \<in> (edges (next_counters p))\<^sup>* \<and> (x, x) \<in> (edges (next_counters p))\<^sup>+))"
proof -
  have n: "set (next_counters p c) \<subseteq> dom (m_counters p)" for c
    by (rule next_counters_allocated) (rule assms(3))
  from detect_each_correct [of "dom (m_counters p)" "next_counters p" "[sat]" "{}" "{}"] assms(1,2) n
  obtain r where r: "DetectCycle p sat {} {} = Some r"
    "case r of Inl _ \<Rightarrow> \<not> acyclic_from (next_counters p) sat | Inr _ \<Rightarrow> acyclic_from (next_counters p) sat"
    by (fastforce simp: DetectCycle_def split: sum.splits)
  have "(\<exists>e. r = Inl e) \<longleftrightarrow> \<not> acyclic_from (next_counters p) sat" using r(2) by (cases r) auto
  with r(1) show ?thesis by (auto simp: acyclic_from_def)
qed

text \<open>Two filters in a row, for the examples: 1 turns type 5 into type 6, 2 reads type 6.\<close>

definition ex_counter :: "addr \<Rightarrow> AutoFilterArgument list \<Rightarrow> SatCounter" where
  "ex_counter a args = mk_sat_counter (mk_descriptor (Some a) a (altitude_value Standard) args False (Some a))"

definition ex_packet :: AutoPacket where
  "ex_packet = packet_new\<lparr>m_counters :=
     [1 \<mapsto> ex_counter 1 [auto_arg_const_ref 5, auto_arg_ref 6], 2 \<mapsto> ex_counter 2 [auto_arg_const_ref 6]]\<rparr>"

theorem DetectCycle_exact_witness:
  "\<exists>r. DetectCycle ex_packet 1 {} {} = Some r \<and>
     ((\<exists>e. r = Inl e) \<longleftrightarrow>
       (\<exists>x. (1, x) \<in> (edges (next_counters ex_packet))\<^sup>* \<and> (x, x) \<in> (edges (next_counters ex_packet))\<^sup>+))"
  by (rule DetectCycle_exact) (auto simp: ex_packet_def packet_new_def)

section \<open>The invariant of the decoration map\<close>

definition subscription_ok :: "'w AutoPacket_scheme \<Rightarrow> auto_id \<Rightarrow> Subscriber \<Rightarrow> bool" where
  "subscription_ok p k sub = (case m_counters p (sub_satCounter sub) of
     None \<Rightarrow> False
   | Some s \<Rightarrow> sub_altitude sub = m_altitude s \<and>
       (\<exists>a \<in> set (m_pArgs s). arg_id a = k \<and> is_input a \<and> sub_type sub = sub_type_of a))"

definition entry_ok :: "'w AutoPacket_scheme \<Rightarrow> auto_id \<Rightarrow> DecorationDisposition \<Rightarrow> bool" where
  "entry_ok p k d \<longleftrightarrow>
     sorted_wrt (\<lambda>m n. mod_altitude m < mod_altitude n) (m_modifiers d) \<and>
     sorted_wrt subscriber_less (m_subscribers d) \<and>
     (\<forall>sub \<in> set (m_subscribers d). subscription_ok p k sub) \<and>
     (length (m_publishers d) \<le> 1 \<or>
       m_modifiers d = [] \<and> (\<forall>sub \<in> set (m_subscribers d). sub_type sub = Multi))"

definition packet_ok :: "'w AutoPacket_scheme \<Rightarrow> bool" where
  "packet_ok p \<longleftrightarrow> (\<forall>k d. m_decoration_map p k = Some d \<longrightarrow> entry_ok p k d)"

text \<open>What of a counter the invariant depends on.\<close>

definition counter_shape :: "'w AutoPacket_scheme \<Rightarrow> addr \<rightharpoonup> altitude \<times> AutoFilterArgument list" where
  "counter_shape p = (\<lambda>a. map_option (\<lambda>s. (m_altitude s, m_pArgs s)) (m_counters p a))"

lemma subscription_ok_shape:
  assumes "counter_shape p = counter_shape q"
  shows "subscription_ok p k sub = subscription_ok q k sub"
  using fun_cong [OF assms, of "sub_satCounter sub"]
  by (auto simp: counter_shape_def subscription_ok_def split: option.splits)

lemma entry_ok_shape:
  "counter_shape p = counter_shape q \<Longrightarrow> entry_ok p k d = entry_ok q k d"
  by (simp add: entry_ok_def subscription_ok_shape [of p q])

lemma entry_ok_new [simp]: "entry_ok p k disposition_new"
  by (simp add: entry_ok_def disposition_new_def)

lemma packet_ok_entry: "packet_ok p \<Longrightarrow> entry_ok p k (entry k p)"
  by (auto simp: packet_ok_def entry_def split: option.splits)

lemma counter_shape_set_entry [simp]: "counter_shape (set_entry k d p) = counter_shape p"
  by (simp add: counter_shape_def set_entry_def fun_eq_iff)

lemma m_counters_set_entry [simp]: "m_counters (set_entry k d p) = m_counters p"
  by (simp add: set_entry_def)

lemma entry_set_entry [simp]: "entry k (set_entry k' d p) = (if k = k' then d else entry k p)"
  by (simp add: entry_def set_entry_def)

lemma entry_set_counter [simp]: "entry k (set_counter c s p) = entry k p"
  by (simp add: entry_def set_counter_def)

lemma m_decoration_map_set_counter [simp]: "m_decoration_map (set_counter c s p) = m_decoration_map p"
  by (simp add: set_counter_def)

lemma m_counters_set_counter [simp]: "m_counters (set_counter c s p) = (m_counters p)(c \<mapsto> s)"
  by (simp add: set_counter_def)

lemma m_decoration_map_set_entry [simp]:
  "m_decoration_map (set_entry k d p) = (m_decoration_map p)(k \<mapsto> d)"
  by (simp add: set_entry_def)

lemma packet_ok_set_entry:
  assumes "packet_ok p" "entry_ok p k d"
  shows "packet_ok (set_entry k d p)"
  using assms by (auto simp: packet_ok_def entry_ok_shape [OF counter_shape_set_entry])

lemma packet_ok_shape:
  assumes "packet_ok p" "m_decoration_map q = m_decoration_map p" "counter_shape q = counter_shape p"
  shows "packet_ok q"
  using assms by (simp add: packet_ok_def entry_ok_shape [of q p])

lemma Decrement_shape [simp]:
  "Decrement s = (b, s') \<Longrightarrow> m_altitude s' = m_altitude s \<and> m_pArgs s' = m_pArgs s"
  by (auto simp: Decrement_def split: if_splits)

lemma dec_counter_shape:
  assumes "dec_counter c p = Some (b, q)"
  shows "counter_shape q = counter_shape p" "m_decoration_map q = m_decoration_map p"
proof -
  from assms obtain s s' where "m_counters p c = Some s" "Decrement s = (b, s')" "q = set_counter c s' p"
    by (cases "m_counters p c"; cases "Decrement (the (m_counters p c))") (auto simp: dec_counter_def)
  then show "counter_shape q = counter_shape p" "m_decoration_map q = m_decoration_map p"
    using Decrement_shape [of s b s'] by (auto simp: counter_shape_def fun_eq_iff)
qed

subsection \<open>Sorted insertion\<close>

lemma subscriber_less_trans: "subscriber_less a b \<Longrightarrow> subscriber_less b c \<Longrightarrow> subscriber_less a c"
  by (auto simp: subscriber_less_def)

lemma set_subscriber_emplace: "set (subscriber_emplace s ts) \<subseteq> insert s (set ts)"
  by (induction ts) auto

lemma sorted_subscriber_emplace:
  "sorted_wrt subscriber_less ts \<Longrightarrow> sorted_wrt subscriber_less (subscriber_emplace s ts)"
proof (induction ts)
  case Nil
  then show ?case by simp
next
  case (Cons t ts)
  then show ?case
    using set_subscriber_emplace [of s ts] by (auto intro: subscriber_less_trans)
qed

lemma set_modifier_insert: "modifier_insert m ns = Some ms \<Longrightarrow> set ms = insert m (set ns)"
  by (induction ns arbitrary: ms) (auto split: if_splits)

lemma sorted_modifier_insert:
  "modifier_insert m ns = Some ms \<Longrightarrow> sorted_wrt (\<lambda>m n. mod_altitude m < mod_altitude n) ns \<Longrightarrow>
     sorted_wrt (\<lambda>m n. mod_altitude m < mod_altitude n) ms"
proof (induction ns arbitrary: ms)
  case Nil
  then show ?case by auto
next
  case (Cons n ns)
  then show ?case
    by (fastforce split: if_splits dest: set_modifier_insert)
qed

subsection \<open>Subscription keeps the invariant\<close>

lemma add_input_ok:
  assumes "packet_ok p"
  shows "packet_ok (snd (add_input sat a p))"
    and "counter_shape (snd (add_input sat a p)) = counter_shape p"
    and "fst (add_input sat a p) = None \<Longrightarrow> is_input a \<Longrightarrow>
       length (m_publishers (entry (arg_id a) (snd (add_input sat a p)))) \<le> 1 \<or> is_multi a"
proof -
  let ?p = "set_entry (arg_id a) (entry (arg_id a) p) p"
  have ok: "packet_ok ?p" using assms by (simp add: packet_ok_set_entry packet_ok_entry)
  have *: "packet_ok q" "counter_shape q = counter_shape p" "entry k q = entry k ?p"
    if "dec_counter sat ?p = Some (b, q)" for b q k
    using dec_counter_shape [OF that] packet_ok_shape [OF ok] by (simp_all add: entry_def)
  show "packet_ok (snd (add_input sat a p))"
    using ok * by (auto simp: add_input_def Let_def split: option.splits)
  show "counter_shape (snd (add_input sat a p)) = counter_shape p"
    using * by (auto simp: add_input_def Let_def split: option.splits)
  show "length (m_publishers (entry (arg_id a) (snd (add_input sat a p)))) \<le> 1 \<or> is_multi a"
    if "fst (add_input sat a p) = None" "is_input a"
    using that * by (auto simp: add_input_def Let_def split: option.splits if_splits)
qed

lemma add_modifier_ok:
  assumes "packet_ok p" "length (m_publishers (entry (arg_id a) p)) \<le> 1"
  shows "packet_ok (snd (add_modifier sat alt a p))"
    and "counter_shape (snd (add_modifier sat alt a p)) = counter_shape p"
  using assms packet_ok_entry [OF assms(1), of "arg_id a"]
  by (auto simp: add_modifier_def Let_def entry_ok_def intro!: packet_ok_set_entry
        intro: sorted_modifier_insert split: option.splits)

lemma add_subscriber_ok:
  assumes "packet_ok p" "counter_shape p sat = Some (alt, args)" "a \<in> set args"
    and "is_input a \<Longrightarrow> length (m_publishers (entry (arg_id a) p)) \<le> 1 \<or> is_multi a"
  shows "packet_ok (add_subscriber sat alt a p)"
    and "counter_shape (add_subscriber sat alt a p) = counter_shape p"
proof -
  let ?s = "\<lparr>sub_is_shared = is_shared a, sub_type = sub_type_of a, sub_altitude = alt, sub_satCounter = sat\<rparr>"
  let ?e = "entry (arg_id a) p"
  note ok = packet_ok_entry [OF assms(1), of "arg_id a"]
  have "entry_ok p (arg_id a) (?e\<lparr>m_subscribers := subscriber_emplace ?s (m_subscribers ?e)\<rparr>)" if inp: "is_input a"
  proof -
    have "subscription_ok p (arg_id a) ?s"
      using inp assms(2,3) by (auto simp: subscription_ok_def counter_shape_def split: option.splits)
    then have "\<forall>x \<in> set (subscriber_emplace ?s (m_subscribers ?e)). subscription_ok p (arg_id a) x"
      using ok set_subscriber_emplace [of ?s "m_subscribers ?e"] by (auto simp: entry_ok_def)
    moreover have "length (m_publishers ?e) \<le> 1 \<or> m_modifiers ?e = [] \<and>
        (\<forall>x \<in> set (subscriber_emplace ?s (m_subscribers ?e)). sub_type x = Multi)"
      using ok assms(4) [OF inp] set_subscriber_emplace [of ?s "m_subscribers ?e"]
      by (auto simp: entry_ok_def sub_type_of_def)
    ultimately show ?thesis using ok by (simp add: entry_ok_def sorted_subscriber_emplace)
  qed
  then show "packet_ok (add_subscriber sat alt a p)"
    using assms(1) by (simp add: add_subscriber_def Let_def packet_ok_set_entry)
  show "counter_shape (add_subscriber sat alt a p) = counter_shape p"
    by (simp add: add_subscriber_def Let_def)
qed

lemma single_input_subscribed_iff:
  assumes "subscription_ok p k sub" "\<not> single_input_subscribed k p sub"
  shows "sub_type sub = Multi"
  using assms
  by (auto simp: subscription_ok_def single_input_subscribed_def sub_type_of_def list_ex_iff
        split: option.splits)

lemma add_publisher_ok:
  assumes "packet_ok p"
  shows "packet_ok (snd (add_publisher sat a p))"
    and "counter_shape (snd (add_publisher sat a p)) = counter_shape p"
proof -
  note ok = packet_ok_entry [OF assms, of "arg_id a"]
  let ?e = "entry (arg_id a) p"
  have "sub_type sub = Multi" if "sub \<in> set (m_subscribers ?e)"
      "\<not> list_ex (single_input_subscribed (arg_id a) p) (m_subscribers ?e)" for sub
    using that ok single_input_subscribed_iff [of p "arg_id a" sub] by (auto simp: entry_ok_def list_ex_iff)
  then show "packet_ok (snd (add_publisher sat a p))"
    using assms ok
    by (auto simp: add_publisher_def Let_def entry_ok_def intro!: packet_ok_set_entry)
  show "counter_shape (snd (add_publisher sat a p)) = counter_shape p"
    by (simp add: add_publisher_def Let_def)
qed

lemma add_argument_ok:
  assumes "packet_ok p" "counter_shape p sat = Some (alt, args)" "a \<in> set args"
    and "is_rvalue a \<Longrightarrow> is_input a \<and> \<not> is_multi a"
  shows "packet_ok (snd (add_argument sat alt a p)) \<and>
     counter_shape (snd (add_argument sat alt a p)) = counter_shape p"
proof -
  note inp = add_input_ok [OF assms(1), of sat a]
  obtain e q where q: "add_input sat a p = (e, q)" by (cases "add_input sat a p")
  show ?thesis
  proof (cases e)
    case (Some x)
    then show ?thesis using inp q by (simp add: add_argument_def)
  next
    case None
    show ?thesis
    proof (cases "is_rvalue a")
      case True
      then have "length (m_publishers (entry (arg_id a) q)) \<le> 1" using inp(3) q None assms(4) by auto
      from add_modifier_ok [OF _ this] inp q None True show ?thesis by (simp add: add_argument_def)
    next
      case False
      have "is_input a \<Longrightarrow> length (m_publishers (entry (arg_id a) q)) \<le> 1 \<or> is_multi a"
        using inp(3) q None by auto
      moreover have "counter_shape q sat = Some (alt, args)" using inp(2) q assms(2) by simp
      moreover have "packet_ok q" using inp(1) q by simp
      ultimately have "packet_ok (add_subscriber sat alt a q)"
        "counter_shape (add_subscriber sat alt a q) = counter_shape q"
        using add_subscriber_ok assms(3) by blast+
      then show ?thesis using inp(2) q None False by (simp add: add_argument_def add_publisher_ok)
    qed
  qed
qed

text \<open>Every kind of argument has its flags in a legal combination.\<close>

lemma auto_arg_flags:
  "is_rvalue (AutoFilterArgumentT k) \<Longrightarrow> is_input (AutoFilterArgumentT k) \<and> is_output (AutoFilterArgumentT k)"
  "is_rvalue (AutoFilterArgumentT k) \<Longrightarrow> \<not> is_multi (AutoFilterArgumentT k)"
  "is_input (AutoFilterArgumentT k) \<and> is_output (AutoFilterArgumentT k) \<Longrightarrow> is_rvalue (AutoFilterArgumentT k)"
  "is_multi (AutoFilterArgumentT k) \<Longrightarrow> is_input (AutoFilterArgumentT k) \<and> \<not> is_shared (AutoFilterArgumentT k)"
  by (cases k; simp add: auto_arg_defs)+

definition declared_args :: "SatCounter \<Rightarrow> bool" where
  "declared_args s \<longleftrightarrow> (\<exists>ks. m_pArgs s = map AutoFilterArgumentT ks)"

lemma foldX_add_argument_ok:
  assumes "packet_ok p" "m_counters p sat = Some s" "declared_args s"
  shows "packet_ok (snd (foldX (add_argument sat (m_altitude s)) (m_pArgs s) p)) \<and>
     counter_shape (snd (foldX (add_argument sat (m_altitude s)) (m_pArgs s) p)) = counter_shape p"
proof (rule foldX_invariant [where I = "\<lambda>q. packet_ok q \<and> counter_shape q = counter_shape p"])
  show "packet_ok p \<and> counter_shape p = counter_shape p" using assms(1) by simp
  fix a q assume a: "a \<in> set (m_pArgs s)" and q: "packet_ok q \<and> counter_shape q = counter_shape p"
  have "is_rvalue a \<Longrightarrow> is_input a \<and> \<not> is_multi a"
  proof -
    obtain k where "a = AutoFilterArgumentT k" using a assms(3) by (auto simp: declared_args_def)
    then show "is_rvalue a \<Longrightarrow> is_input a \<and> \<not> is_multi a" using auto_arg_flags(1,2) [of k] by simp
  qed
  moreover have "counter_shape q sat = Some (m_altitude s, m_pArgs s)"
    using q assms(2) by (simp add: counter_shape_def)
  ultimately show "packet_ok (snd (add_argument sat (m_altitude s) a q)) \<and>
      counter_shape (snd (add_argument sat (m_altitude s) a q)) = counter_shape p"
    using add_argument_ok [of q sat "m_altitude s" "m_pArgs s" a] a q by simp
qed

lemma dom_counter_shape: "dom (counter_shape p) = dom (m_counters p)"
  by (auto simp: counter_shape_def dom_def)

lemma counter_shape_dom: "counter_shape p = counter_shape q \<Longrightarrow> dom (m_counters p) = dom (m_counters q)"
  by (metis dom_counter_shape)

lemma packet_ok_subscribers:
  "packet_ok p \<Longrightarrow> m_decoration_map p k = Some d \<Longrightarrow> sub \<in> set (m_subscribers d) \<Longrightarrow>
     sub_satCounter sub \<in> dom (m_counters p)"
  using packet_ok_def [of p] entry_ok_def [of p k d] subscription_ok_def [of p k sub]
  by (cases "m_counters p (sub_satCounter sub)") auto

lemma DetectCycle_returns:
  assumes "packet_ok p" "finite (dom (m_counters p))" "sat \<in> dom (m_counters p)"
  shows "\<exists>r. DetectCycle p sat {} {} = Some r"
proof -
  have n: "set (next_counters p c) \<subseteq> dom (m_counters p)" for c
    by (rule next_counters_allocated) (rule packet_ok_subscribers [OF assms(1)])
  from detect_each_correct [of "dom (m_counters p)" "next_counters p" "[sat]" "{}" "{}"] assms n
  show ?thesis by (auto simp: DetectCycle_def)
qed

text \<open>
  C6.  Subscribing a filter always returns, and keeps the decoration map well formed whether or not
  it throws: the modifiers of every type are strictly ordered by altitude, its subscribers strictly
  ordered by altitude and counter, every subscription comes from an input argument of its filter,
  and a type with two publishers has neither a modifier nor a subscriber that takes a single value.
\<close>

theorem AddSatCounterUnsafe_keeps_packet_ok:
  assumes "packet_ok p" "finite (dom (m_counters p))" "m_counters p sat = Some s" "declared_args s"
  shows "\<exists>exc q. AddSatCounterUnsafe sat p = Some (exc, q) \<and> packet_ok q \<and> dom (m_counters q) = dom (m_counters p)"
proof -
  obtain e q where q: "foldX (add_argument sat (m_altitude s)) (m_pArgs s) p = (e, q)"
    by (cases "foldX (add_argument sat (m_altitude s)) (m_pArgs s) p")
  with foldX_add_argument_ok [OF assms(1,3,4)]
  have ok: "packet_ok q" "dom (m_counters q) = dom (m_counters p)" using counter_shape_dom [of q p] by auto
  then obtain r where "DetectCycle q sat {} {} = Some r"
    using DetectCycle_returns [of q sat] assms(2,3) by auto
  then show ?thesis
    using assms(3) q ok by (cases e; cases r) (simp_all add: AddSatCounterUnsafe_def)
qed

theorem AddSatCounterUnsafe_keeps_packet_ok_witness:
  "\<exists>exc q. AddSatCounterUnsafe 1 ex_packet = Some (exc, q) \<and> packet_ok q \<and> dom (m_counters q) = dom (m_counters ex_packet)"
proof (rule AddSatCounterUnsafe_keeps_packet_ok)
  show "packet_ok ex_packet" by (simp add: packet_ok_def ex_packet_def packet_new_def)
  show "finite (dom (m_counters ex_packet))" by (simp add: ex_packet_def)
  show "m_counters ex_packet 1 = Some (ex_counter 1 [auto_arg_const_ref 5, auto_arg_ref 6])"
    by (simp add: ex_packet_def)
  show "declared_args (ex_counter 1 [auto_arg_const_ref 5, auto_arg_ref 6])"
    unfolding declared_args_def
    by (rule exI [of _ "[Arg_const_ref 5, Arg_ref 6]"])
       (simp add: ex_counter_def mk_sat_counter_def mk_descriptor_def AutoFilterDescriptor.extend_def)
qed

end
