(* ===== verification/Auto_Packet_Satisfaction.thy ===== *)
theory Auto_Packet_Satisfaction
  imports Auto_Packet_Props
begin

text \<open>
  What a decoration causes: exactly the filters whose last missing input it was are called, once
  each and in altitude order; the propagation of unsatisfiable outputs ends whenever the filters do;
  and one situation in which it reaches a type that could still be produced.
\<close>

section \<open>The filters a decoration calls\<close>

definition dec_heap :: "addr set \<Rightarrow> (addr \<rightharpoonup> SatCounter) \<Rightarrow> addr \<rightharpoonup> SatCounter" where
  "dec_heap C h c = (if c \<in> C then map_option (\<lambda>s. s\<lparr>remaining := remaining s - 1\<rparr>) (h c) else h c)"

definition dec_all :: "addr set \<Rightarrow> 'w AutoPacket_scheme \<Rightarrow> 'w AutoPacket_scheme" where
  "dec_all C p = p\<lparr>m_counters := dec_heap C (m_counters p)\<rparr>"

definition last_input :: "'w AutoPacket_scheme \<Rightarrow> addr \<Rightarrow> bool" where
  "last_input p c \<longleftrightarrow> map_option remaining (m_counters p c) = Some 1"

lemma Decrement_eq: "Decrement s = (remaining s = 1, s\<lparr>remaining := remaining s - 1\<rparr>)"
  by (cases s) (auto simp: Decrement_def)

lemma dec_counter_allocated:
  assumes "m_counters p c = Some s"
  shows "dec_counter c p = Some (last_input p c, dec_all {c} p)"
proof -
  have "(m_counters p)(c \<mapsto> s\<lparr>remaining := remaining s - 1\<rparr>) = dec_heap {c} (m_counters p)"
    using assms by (auto simp: dec_heap_def fun_eq_iff)
  then show ?thesis
    using assms by (simp add: dec_counter_def Decrement_eq last_input_def dec_all_def set_counter_def)
qed

lemma dec_all_Un:
  assumes "C \<inter> D = {}"
  shows "dec_all D (dec_all C p) = dec_all (C \<union> D) p"
proof -
  have "dec_heap D (dec_heap C h) = dec_heap (C \<union> D) h" for h
    using assms by (auto simp: dec_heap_def fun_eq_iff)
  then show ?thesis by (simp add: dec_all_def)
qed

lemma distinct_map_sorted_wrt: "sorted_wrt (\<lambda>x y. f x \<noteq> f y) xs \<Longrightarrow> distinct (map f xs)"
  by (induction xs) auto

lemma dec_all_empty [simp]: "dec_all {} p = p"
  by (simp add: dec_all_def dec_heap_def [abs_def])

lemma m_counters_dec_all: "c \<notin> C \<Longrightarrow> m_counters (dec_all C p) c = m_counters p c"
  by (simp add: dec_all_def dec_heap_def)

lemma entry_dec_all [simp]: "entry k (dec_all C p) = entry k p"
  by (simp add: entry_def dec_all_def)

lemma foldX_dec_and_queue:
  assumes "distinct cs" "set cs \<subseteq> dom (m_counters p)"
  shows "foldX dec_and_queue cs (Q, U, p) = (None, Q @ filter (last_input p) cs, U, dec_all (set cs) p)"
  using assms
proof (induction cs arbitrary: Q p)
  case Nil
  then show ?case by simp
next
  case (Cons c cs)
  from Cons.prems obtain s where "m_counters p c = Some s" by auto
  note dec = dec_counter_allocated [OF this]
  have "set cs \<subseteq> dom (m_counters (dec_all {c} p))"
    using Cons.prems by (auto simp: dec_all_def dec_heap_def split: if_splits)
  note IH = Cons.IH [OF _ this]
  have f: "filter (last_input (dec_all {c} p)) cs = filter (last_input p) cs"
  proof (rule filter_cong [OF refl])
    show "last_input (dec_all {c} p) x = last_input p x" if "x \<in> set cs" for x
    proof -
      from that Cons.prems(1) have "x \<notin> {c}" by auto
      then show ?thesis by (simp add: last_input_def m_counters_dec_all)
    qed
  qed
  have "dec_all (set cs) (dec_all {c} p) = dec_all (set (c # cs)) p"
    using Cons.prems(1) by (subst dec_all_Un) auto
  then show ?case using Cons.prems(1) IH dec f by (simp add: dec_and_queue_def)
qed

lemma foldX_map: "foldX (\<lambda>x. f (g x)) xs s = foldX f (map g xs) s"
  by (induction xs arbitrary: s) (auto simp: seqX_def split: prod.splits option.splits)

lemma packet_ok_distinct_subscribers:
  assumes "packet_ok p"
  shows "distinct (map sub_satCounter (m_subscribers (entry k p)))"
    and "set (map sub_satCounter (m_subscribers (entry k p))) \<subseteq> dom (m_counters p)"
proof -
  let ?subs = "m_subscribers (entry k p)"
  from packet_ok_entry [OF assms, of k] have s: "sorted_wrt subscriber_less ?subs"
    and ok: "\<And>x. x \<in> set ?subs \<Longrightarrow> subscription_ok p k x" by (auto simp: entry_ok_def)
  have ne: "sub_satCounter x \<noteq> sub_satCounter y"
    if "subscriber_less x y" "x \<in> set ?subs" "y \<in> set ?subs" for x y
  proof
    assume "sub_satCounter x = sub_satCounter y"
    moreover from this ok [OF that(2)] ok [OF that(3)] have "sub_altitude x = sub_altitude y"
      unfolding subscription_ok_def by (cases "m_counters p (sub_satCounter y)") auto
    ultimately show False using that(1) by (simp add: subscriber_less_def)
  qed
  have "sorted_wrt (\<lambda>x y. sub_satCounter x \<noteq> sub_satCounter y) ?subs"
    by (rule sorted_wrt_mono_rel [OF _ s]) (rule ne)
  then show "distinct (map sub_satCounter ?subs)" by (rule distinct_map_sorted_wrt)
  show "set (map sub_satCounter ?subs) \<subseteq> dom (m_counters p)"
    using ok unfolding subscription_ok_def by (force split: option.splits)
qed

lemma update_subscribers_one:
  assumes "packet_ok p" "entry k p = d" "length (m_decorations d) = 1"
  shows "update_subscribers d (Q, U, p) =
     (None, Q @ filter (last_input p) (map sub_satCounter (m_subscribers d)), U,
      dec_all (set (map sub_satCounter (m_subscribers d))) p)"
  using assms packet_ok_distinct_subscribers [OF assms(1), of k]
  by (simp add: update_subscribers_def foldX_map foldX_dec_and_queue)

lemma packet_ok_set_entry_same:
  assumes "packet_ok p" "m_modifiers d = m_modifiers (entry k p)"
    "m_subscribers d = m_subscribers (entry k p)" "m_publishers d = m_publishers (entry k p)"
  shows "packet_ok (set_entry k d p)"
  using assms packet_ok_entry [OF assms(1), of k] by (intro packet_ok_set_entry) (auto simp: entry_ok_def)

text \<open>Filters that return at once.\<close>

definition ex_invoke :: "unit filter_call" where
  "ex_invoke f obj p = Some (None, p)"

text \<open>
  C5.  Attaching the only decoration of a type that nobody modifies: the filters that are called are
  exactly the subscribers for which this was the last missing input, each once, in the order of
  altitude; every subscriber's counter has gone down by one before the first call; and the outcome
  is the outcome of those calls.
\<close>

theorem Decorate_calls_satisfied_filters:
  assumes "packet_ok p" "m_state (entry k p) \<noteq> Complete" "m_modifiers (entry k p) = []"
    and "m_decorations (entry k p) = []" "length (m_publishers (entry k p)) \<le> Suc (m_nProducersRun (entry k p))"
  shows "Decorate invoke (Some v) k p =
     call_all invoke
       (filter (last_input p) (map sub_satCounter (m_subscribers (entry k p))))
       (dec_all (sub_satCounter ` set (m_subscribers (entry k p)))
          (set_entry k ((entry k p)\<lparr>m_decorations := [Some v], m_nProducersRun := Suc (m_nProducersRun (entry k p)),
             m_state := Complete\<rparr>) p))"
proof -
  let ?d = "(entry k p)\<lparr>m_decorations := [Some v], m_nProducersRun := Suc (m_nProducersRun (entry k p)), m_state := Complete\<rparr>"
  let ?p = "set_entry k ?d p"
  have inc: "IncProducerCount ((entry k p)\<lparr>m_decorations := [Some v]\<rparr>) = (True, ?d)"
    using assms(2,5) by (cases "m_state (entry k p)") (auto simp: IncProducerCount_def Let_def)
  have ok: "packet_ok ?p" using assms(1) by (intro packet_ok_set_entry_same) auto
  have li: "last_input ?p = last_input p" by (simp add: last_input_def fun_eq_iff)
  have upd: "update_subscribers ?d ([], [], ?p) =
      (None, filter (last_input p) (map sub_satCounter (m_subscribers (entry k p))), [],
       dec_all (sub_satCounter ` set (m_subscribers (entry k p))) ?p)"
    using update_subscribers_one [OF ok, of k ?d "[]" "[]"] by (simp add: li)
  have "mark_unsat invoke [] q = Some (None, q)" for q by (simp add: mark_unsat.simps)
  then have "UpdateSatisfactionUnsafe invoke k ?p = call_all invoke
       (filter (last_input p) (map sub_satCounter (m_subscribers (entry k p))))
       (dec_all (sub_satCounter ` set (m_subscribers (entry k p))) ?p)"
    using assms(3) upd
    by (simp add: UpdateSatisfactionUnsafe_def notify_consumers_def Let_def map_option_case bind_eq_Some_conv
        split: option.splits)
  then show ?thesis
    using assms(2,4) inc by (simp add: Decorate_def DecorateNoPriors_def Let_def)
qed

text \<open>The example packet with both filters subscribed.\<close>

definition ex_subscribed :: AutoPacket where
  "ex_subscribed = ex_packet\<lparr>m_decoration_map :=
     [6 \<mapsto> disposition_new\<lparr>m_publishers := [1], m_subscribers :=
        [\<lparr>sub_is_shared = False, sub_type = Normal, sub_altitude = altitude_value Standard, sub_satCounter = 2\<rparr>]\<rparr>]\<rparr>"

lemmas ex_defs = ex_subscribed_def ex_packet_def packet_new_def ex_counter_def mk_sat_counter_def
  mk_descriptor_def AutoFilterDescriptor.extend_def disposition_new_def

lemma ex_subscribed_ok: "packet_ok ex_subscribed"
  by (simp add: packet_ok_def entry_ok_def subscription_ok_def ex_defs auto_arg_defs sub_type_of_def)

theorem Decorate_calls_satisfied_filters_witness:
  "Decorate ex_invoke (Some 77) 6 ex_subscribed =
     call_all ex_invoke [2] (dec_all {2} (set_entry 6 ((entry 6 ex_subscribed)\<lparr>m_decorations := [Some 77],
       m_nProducersRun := 1, m_state := Complete\<rparr>) ex_subscribed))"
  using Decorate_calls_satisfied_filters [OF ex_subscribed_ok, of 6 ex_invoke 77]
  by (simp add: ex_defs entry_def last_input_def auto_arg_defs)

section \<open>Propagation of unsatisfiable outputs ends\<close>

definition complete_keys :: "'w AutoPacket_scheme \<Rightarrow> auto_id set" where
  "complete_keys p = {k. m_state (entry k p) = Complete}"

text \<open>How the packet may develop: complete types stay complete, filters keep their declarations.\<close>

definition grows :: "'w AutoPacket_scheme \<Rightarrow> 'w AutoPacket_scheme \<Rightarrow> bool" where
  "grows p q \<longleftrightarrow> complete_keys p \<subseteq> complete_keys q \<and> counter_shape q = counter_shape p"

lemma grows_refl [simp]: "grows p p"
  by (simp add: grows_def)

lemma grows_trans: "grows p q \<Longrightarrow> grows q r \<Longrightarrow> grows p r"
  by (auto simp: grows_def)

definition tame :: "'w filter_call \<Rightarrow> bool" where
  "tame invoke \<longleftrightarrow> (\<forall>f obj p. \<exists>exc q. invoke f obj p = Some (exc, q) \<and> grows p q)"

lemma CallFilter_tame: "tame invoke \<Longrightarrow> \<exists>exc q. CallFilter invoke c p = Some (exc, q) \<and> grows p q"
  by (cases "m_counters p c") (auto simp: CallFilter_def tame_def)

lemma call_all_tame: "tame invoke \<Longrightarrow> \<exists>exc q. call_all invoke cs p = Some (exc, q) \<and> grows p q"
proof (induction cs arbitrary: p)
  case Nil
  then show ?case by simp
next
  case (Cons c cs)
  from CallFilter_tame [OF Cons.prems, of c p] obtain exc q where
    q: "CallFilter invoke c p = Some (exc, q)" "grows p q" by blast
  show ?case
  proof (cases exc)
    case None
    with Cons.IH [OF Cons.prems, of q] q show ?thesis by (auto intro: grows_trans)
  next
    case (Some e)
    with q show ?thesis by auto
  qed
qed

lemma grows_set_counter:
  assumes "m_counters p c = Some s" "m_altitude s' = m_altitude s" "m_pArgs s' = m_pArgs s"
  shows "grows p (set_counter c s' p)"
  using assms by (auto simp: grows_def complete_keys_def counter_shape_def fun_eq_iff)

lemma dec_counter_grows: "dec_counter c p = Some (b, q) \<Longrightarrow> grows p q"
  using dec_counter_shape [of c p b q] by (auto simp: grows_def complete_keys_def entry_def)

text \<open>The types a packet's filters put out.\<close>

definition output_ids :: "'w AutoPacket_scheme \<Rightarrow> auto_id set" where
  "output_ids p = {arg_id a | a c alt args. counter_shape p c = Some (alt, args) \<and> a \<in> set args}"

lemma output_ids_grows: "grows p q \<Longrightarrow> output_ids q = output_ids p"
  by (simp add: grows_def output_ids_def)

lemma finite_output_ids:
  assumes "finite (dom (m_counters p))"
  shows "finite (output_ids p)"
proof -
  have "output_ids p \<subseteq> (\<Union>c \<in> dom (counter_shape p). arg_id ` set (snd (the (counter_shape p c))))"
    by (force simp: output_ids_def)
  then show ?thesis by (rule finite_subset) (simp add: dom_counter_shape assms)
qed

lemma args_output_ids: "m_counters p c = Some s \<Longrightarrow> a \<in> set (m_pArgs s) \<Longrightarrow> arg_id a \<in> output_ids p"
  unfolding output_ids_def
  by (rule CollectI, rule exI [of _ a], rule exI [of _ c]) (simp add: counter_shape_def)

text \<open>A step of the update: it succeeds or throws, the packet develops, the outputs are declared.\<close>

definition step_ok :: "'w AutoPacket_scheme \<Rightarrow> 'w update_state exn \<Rightarrow> bool" where
  "step_ok p r = (case r of (_, _, U, q) \<Rightarrow> grows p q \<and> arg_id ` set U \<subseteq> output_ids p)"

lemma step_ok_same: "step_ok p0 (e, Q, U, p) \<longleftrightarrow> grows p0 p \<and> arg_id ` set U \<subseteq> output_ids p0"
  by (simp add: step_ok_def)

lemma markOutputsUnsat_ok:
  assumes "grows p0 p" "arg_id ` set U \<subseteq> output_ids p0"
  shows "step_ok p0 (markOutputsUnsat c (Q, U, p))"
proof (cases "m_counters p c")
  case None
  then show ?thesis using assms by (simp add: markOutputsUnsat_def step_ok_def)
next
  case (Some s)
  have "grows p0 (set_counter c (s\<lparr>remaining := 0\<rparr>) p)"
    by (rule grows_trans [OF assms(1)]) (rule grows_set_counter [OF Some], auto)
  moreover have "arg_id ` set (m_pArgs s) \<subseteq> output_ids p0"
    using args_output_ids [OF Some] output_ids_grows [OF assms(1)] by blast
  then have "arg_id ` set (filter is_output (rev (take n (m_pArgs s)))) \<subseteq> output_ids p0" for n
    using set_take_subset [of n "m_pArgs s"] by auto
  ultimately show ?thesis
    using Some assms by (auto simp: markOutputsUnsat_def step_ok_def)
qed

lemma dec_and_queue_ok:
  assumes "grows p0 p" "arg_id ` set U \<subseteq> output_ids p0"
  shows "step_ok p0 (dec_and_queue c (Q, U, p))"
  using assms by (auto simp: dec_and_queue_def step_ok_def split: option.splits
      intro: grows_trans dest: dec_counter_grows)

lemma foldX_step_ok:
  assumes "\<And>x Q U p. grows p0 p \<Longrightarrow> arg_id ` set U \<subseteq> output_ids p0 \<Longrightarrow> step_ok p0 (f x (Q, U, p))"
    and "grows p0 p" "arg_id ` set U \<subseteq> output_ids p0"
  shows "step_ok p0 (foldX f xs (Q, U, p))"
proof -
  have "case snd (foldX f xs (Q, U, p)) of (_, U, q) \<Rightarrow> grows p0 q \<and> arg_id ` set U \<subseteq> output_ids p0"
  proof (rule foldX_invariant)
    show "case snd (f x s) of (_, U, q) \<Rightarrow> grows p0 q \<and> arg_id ` set U \<subseteq> output_ids p0"
      if "case s of (_, U, q) \<Rightarrow> grows p0 q \<and> arg_id ` set U \<subseteq> output_ids p0" for x s
      using that assms(1) [of "snd (snd s)" "fst (snd s)" x "fst s"]
      by (auto simp: step_ok_def split: prod.splits)
  qed (use assms(2,3) in auto)
  then show ?thesis by (auto simp: step_ok_def split: prod.splits)
qed

lemma update_subscribers_ok:
  assumes "grows p0 p" "arg_id ` set U \<subseteq> output_ids p0"
  shows "step_ok p0 (update_subscribers d (Q, U, p))"
proof -
  have n: "step_ok p0 (update_subscriber_none sub (Q, U, p))"
    if "grows p0 p" "arg_id ` set U \<subseteq> output_ids p0" for sub Q U p
    using that
    by (simp add: update_subscriber_none_def markOutputsUnsat_ok dec_and_queue_ok step_ok_same
        split: option.splits Subscriber_Type.splits)
  have m: "step_ok p0 (update_subscriber_many sub (Q, U, p))"
    if "grows p0 p" "arg_id ` set U \<subseteq> output_ids p0" for sub Q U p
    using that by (simp add: update_subscriber_many_def dec_and_queue_ok step_ok_same)
  show ?thesis
    using foldX_step_ok [of p0 update_subscriber_none, OF n assms]
      foldX_step_ok [of p0 update_subscriber_many, OF m assms]
      foldX_step_ok [of p0 "\<lambda>sub :: Subscriber. dec_and_queue (sub_satCounter sub)", OF dec_and_queue_ok assms]
    by (simp add: update_subscribers_def)
qed

lemma update_modifiers_ok:
  assumes "tame invoke" "grows p0 p" "arg_id ` set U \<subseteq> output_ids p0"
  shows "\<exists>r. update_modifiers invoke k ms (Q, U, p) = Some r \<and> step_ok p0 r"
  using assms(2,3)
proof (induction ms arbitrary: Q U p)
  case Nil
  then show ?case by (simp add: step_ok_same)
next
  case (Cons m ms)
  let ?c = "mod_satCounter m"
  define body where "body = (if mod_is_shared m then
            (case dec_counter ?c p of
               None \<Rightarrow> Some (Some Undefined_behaviour, Q, U, p)
             | Some (ready, p1) \<Rightarrow>
                 if ready then map_option (\<lambda>(exc, p2). (exc, [], U, p2)) (call_all invoke (Q @ [?c]) p1)
                 else Some (None, Q, U, p1))
          else if length (m_decorations (entry k p)) = 0 then Some (markOutputsUnsat ?c (Q, U, p))
          else if length (m_decorations (entry k p)) = 1 then Some (dec_and_queue ?c (Q, U, p))
          else Some (Some multi_decorate_error, Q, U, p))"
  have "\<exists>r. body = Some r \<and> step_ok p0 r"
  proof (cases "mod_is_shared m")
    case True
    show ?thesis
    proof (cases "dec_counter ?c p")
      case None
      then show ?thesis using True Cons.prems by (simp add: body_def step_ok_same)
    next
      case (Some bp)
      then obtain ready p1 where b: "dec_counter ?c p = Some (ready, p1)" by (cases bp) auto
      have g: "grows p0 p1" using dec_counter_grows [OF b] Cons.prems(1) by (rule grows_trans [rotated])
      from call_all_tame [OF assms(1), of "Q @ [?c]" p1] obtain exc q where
        "call_all invoke (Q @ [?c]) p1 = Some (exc, q)" "grows p1 q" by blast
      with b g True Cons.prems show ?thesis
        by (cases ready) (auto simp: body_def step_ok_same intro: grows_trans)
    qed
  next
    case False
    then show ?thesis
      using markOutputsUnsat_ok [OF Cons.prems] dec_and_queue_ok [OF Cons.prems]
        step_ok_same [of p0 _ Q U p] Cons.prems
      by (simp add: body_def del: split_paired_Ex)
  qed
  then obtain e Q1 U1 p1 where r: "body = Some (e, Q1, U1, p1)" "step_ok p0 (e, Q1, U1, p1)" by auto
  have *: "update_modifiers invoke k (m # ms) (Q, U, p) = Option.bind body
      (\<lambda>r. case r of (None, st1) \<Rightarrow> update_modifiers invoke k ms st1 | (Some e, st1) \<Rightarrow> Some (Some e, st1))"
    unfolding body_def by simp
  show ?case
  proof (cases e)
    case None
    with Cons.IH [of p1 U1 Q1] r * show ?thesis by (simp add: step_ok_same)
  next
    case (Some x)
    with r * show ?thesis by simp
  qed
qed

lemma notify_consumers_ok:
  assumes "tame invoke"
  shows "\<exists>exc U q. notify_consumers invoke k p = Some (exc, U, q) \<and> grows p q \<and> arg_id ` set U \<subseteq> output_ids p"
proof -
  from update_modifiers_ok [OF assms grows_refl, of "[]" p k "m_modifiers (entry k p)" "[]"]
  obtain e Q U p1 where m: "update_modifiers invoke k (m_modifiers (entry k p)) ([], [], p) = Some (e, Q, U, p1)"
    "grows p p1" "arg_id ` set U \<subseteq> output_ids p" by (auto simp: step_ok_same)
  obtain e2 Q2 U2 p2 where s: "update_subscribers (entry k p1) (Q, U, p1) = (e2, Q2, U2, p2)"
    "grows p p2" "arg_id ` set U2 \<subseteq> output_ids p"
    using update_subscribers_ok [OF m(2,3), of "entry k p1" Q]
    by (cases "update_subscribers (entry k p1) (Q, U, p1)") (auto simp: step_ok_same)
  from call_all_tame [OF assms, of Q2 p2] obtain e3 q where
    c: "call_all invoke Q2 p2 = Some (e3, q)" "grows p2 q" by blast
  show ?thesis
    using m s c
    by (cases e; cases e2) (auto simp: notify_consumers_def Let_def intro: grows_trans)
qed

lemma IncProducerCount_state:
  assumes "IncProducerCount d = (b, d')"
  shows "m_state d = Complete \<Longrightarrow> m_state d' = Complete" "b \<Longrightarrow> m_state d' = Complete \<and> m_state d \<noteq> Complete"
  using assms by (auto simp: IncProducerCount_def Let_def split: DispositionState.splits if_splits)

lemma grows_set_entry:
  "(m_state (entry k p) = Complete \<Longrightarrow> m_state d = Complete) \<Longrightarrow> grows p (set_entry k d p)"
  by (auto simp: grows_def complete_keys_def)

text \<open>Every recursion completes a type that some filter puts out.\<close>

definition open_outputs :: "'w AutoPacket_scheme \<Rightarrow> nat" where
  "open_outputs p = card (output_ids p - complete_keys p)"

lemma open_outputs_mono:
  assumes "grows p q" "finite (dom (m_counters p))"
  shows "open_outputs q \<le> open_outputs p" "finite (dom (m_counters q))"
proof -
  have "output_ids q - complete_keys q \<subseteq> output_ids p - complete_keys p"
    using assms(1) output_ids_grows [OF assms(1)] by (auto simp: grows_def)
  then show "open_outputs q \<le> open_outputs p"
    using finite_output_ids [OF assms(2)] by (simp add: open_outputs_def card_mono)
  show "finite (dom (m_counters q))"
    using assms counter_shape_dom [of q p] by (simp add: grows_def)
qed

lemma open_outputs_less:
  assumes "k \<in> output_ids p" "m_state (entry k p) \<noteq> Complete" "m_state d = Complete" "finite (dom (m_counters p))"
  shows "open_outputs (set_entry k d p) < open_outputs p"
proof -
  have "grows p (set_entry k d p)" using assms(3) by (auto intro: grows_set_entry)
  then have "output_ids (set_entry k d p) = output_ids p" by (rule output_ids_grows)
  moreover have "complete_keys (set_entry k d p) = insert k (complete_keys p)"
    using assms(3) by (auto simp: complete_keys_def)
  moreover have "k \<in> output_ids p - complete_keys p" using assms(1,2) by (simp add: complete_keys_def)
  ultimately show ?thesis
    using finite_output_ids [OF assms(4)]
    unfolding open_outputs_def by (intro psubset_card_mono) auto
qed

lemma mark_unsat_returns:
  assumes "tame invoke" "finite (dom (m_counters p))" "arg_id ` set as \<subseteq> output_ids p"
  shows "\<exists>exc q. mark_unsat invoke as p = Some (exc, q) \<and> grows p q"
proof -
  have "\<exists>exc q. mark_unsat invoke as p = Some (exc, q) \<and> grows p q"
    if "open_outputs p \<le> n" "finite (dom (m_counters p))" "arg_id ` set as \<subseteq> output_ids p" for n as p
    using that
  proof (induction n arbitrary: as p rule: less_induct)
    case (less n)
    note outer = less.IH
    from less.prems show ?case
    proof (induction as arbitrary: p)
      case Nil
      then show ?case by (simp add: mark_unsat.simps)
    next
      case (Cons a as)
      let ?k = "arg_id a"
      obtain b d where d: "IncProducerCount (entry ?k p) = (b, d)" by (cases "IncProducerCount (entry ?k p)")
      let ?p = "set_entry ?k d p"
      have g: "grows p ?p" using IncProducerCount_state(1) [OF d] by (rule grows_set_entry)
      note fin = open_outputs_mono [OF g Cons.prems(2)] and ids = output_ids_grows [OF g]
      show ?case
      proof (cases b)
        case False
        have "mark_unsat invoke (a # as) p = mark_unsat invoke as ?p"
          using d False by (subst mark_unsat.simps) simp
        with Cons.IH [of ?p] fin ids Cons.prems show ?thesis by (auto intro: grows_trans [OF g])
      next
        case True
        have lt: "open_outputs ?p < n"
          using open_outputs_less [of ?k p d] IncProducerCount_state(2) [OF d True] Cons.prems by auto
        from notify_consumers_ok [OF assms(1), of ?k ?p] obtain exc U p1 where
          n: "notify_consumers invoke ?k ?p = Some (exc, U, p1)" "grows ?p p1" "arg_id ` set U \<subseteq> output_ids ?p" by blast
        note fin1 = open_outputs_mono [OF n(2) fin(2)] and ids1 = output_ids_grows [OF n(2)]
        have g1: "grows p p1" using g n(2) by (rule grows_trans)
        show ?thesis
        proof (cases exc)
          case (Some e)
          have "mark_unsat invoke (a # as) p = Some (Some e, p1)"
            using d True n(1) Some by (subst mark_unsat.simps) simp
          with g1 show ?thesis by blast
        next
          case None
          from outer [of "open_outputs p1" p1 U] lt fin1 n(3) ids1 obtain e2 p2 where
            r: "mark_unsat invoke U p1 = Some (e2, p2)" "grows p1 p2" by auto
          note fin2 = open_outputs_mono [OF r(2) fin1(2)] and ids2 = output_ids_grows [OF r(2)]
          have g2: "grows p p2" using g1 r(2) by (rule grows_trans)
          show ?thesis
          proof (cases e2)
            case (Some e)
            have "mark_unsat invoke (a # as) p = Some (Some e, p2)"
              using d True n(1) None r(1) Some by (subst mark_unsat.simps) simp
            with g2 show ?thesis by blast
          next
            case e2: None
            have "mark_unsat invoke (a # as) p = mark_unsat invoke as p2"
              using d True n(1) None r(1) e2 by (subst mark_unsat.simps) simp
            moreover have "open_outputs p2 \<le> n" using fin2(1) fin1(1) lt by simp
            ultimately show ?thesis
              using Cons.IH [of p2] fin2(2) ids ids1 ids2 Cons.prems by (auto intro: grows_trans [OF g2])
          qed
        qed
      qed
    qed
  qed
  from this [OF order_refl assms(2,3)] show ?thesis .
qed

lemma UpdateSatisfaction_returns:
  assumes "tame invoke" "finite (dom (m_counters p))"
  shows "\<exists>exc q. UpdateSatisfactionUnsafe invoke k p = Some (exc, q) \<and> grows p q"
    and "\<exists>exc q. MarkUnsatisfiable invoke k p = Some (exc, q) \<and> k \<in> complete_keys q"
    and "\<exists>exc q. Decorate invoke v k p = Some (exc, q) \<and> complete_keys p \<subseteq> complete_keys q"
proof -
  have upd: "\<exists>exc q. UpdateSatisfactionUnsafe invoke k p = Some (exc, q) \<and> grows p q"
    if fin: "finite (dom (m_counters p))" for p
  proof -
    from notify_consumers_ok [OF assms(1), of k p] obtain exc U q where
      n: "notify_consumers invoke k p = Some (exc, U, q)" "grows p q" "arg_id ` set U \<subseteq> output_ids p" by blast
    have "\<exists>e r. mark_unsat invoke U q = Some (e, r) \<and> grows q r"
      using mark_unsat_returns [OF assms(1) open_outputs_mono(2) [OF n(2) fin], of U] n(3)
        output_ids_grows [OF n(2)] by simp
    then show ?thesis using n by (cases exc) (auto simp: UpdateSatisfactionUnsafe_def intro: grows_trans)
  qed
  show "\<exists>exc q. UpdateSatisfactionUnsafe invoke k p = Some (exc, q) \<and> grows p q" by (rule upd [OF assms(2)])
  let ?m = "set_entry k ((entry k p)\<lparr>m_state := Complete, m_decorations := [], m_pImmediate := None\<rparr>) p"
  have "k \<in> complete_keys ?m" by (simp add: complete_keys_def)
  then show "\<exists>exc q. MarkUnsatisfiable invoke k p = Some (exc, q) \<and> k \<in> complete_keys q"
    using upd [of ?m] assms(2) by (auto simp: MarkUnsatisfiable_def grows_def)
  show "\<exists>exc q. Decorate invoke v k p = Some (exc, q) \<and> complete_keys p \<subseteq> complete_keys q"
  proof (cases "m_state (entry k p) = Complete")
    case True
    then show ?thesis by (auto simp: Decorate_def DecorateNoPriors_def Let_def complete_keys_def)
  next
    case False
    let ?d = "if v \<noteq> None then (entry k p)\<lparr>m_decorations := m_decorations (entry k p) @ [v]\<rparr> else entry k p"
    obtain b d where d: "IncProducerCount ?d = (b, d)" by (cases "IncProducerCount ?d")
    have sub: "complete_keys p \<subseteq> complete_keys (set_entry k d p)" using False by (auto simp: complete_keys_def)
    show ?thesis
    proof (cases b)
      case True
      with upd [of "set_entry k d p"] assms(2) d False sub show ?thesis
        by (auto simp: Decorate_def DecorateNoPriors_def Let_def grows_def split: if_splits)
    next
      case nb: False
      with d False sub show ?thesis by (auto simp: Decorate_def DecorateNoPriors_def Let_def split: if_splits)
    qed
  qed
qed

text \<open>
  C3.  The propagation of satisfaction ends.  On a packet with finitely many filters, where every
  filter call returns, keeps complete types complete and does not change the declared filters, an
  update of any type returns, and so do decorating and marking a type unsatisfiable: every recursive
  update completes one more of the finitely many output types.
\<close>

theorem UpdateSatisfaction_terminates:
  assumes "tame invoke" "finite (dom (m_counters p))"
  shows "(\<exists>exc q. UpdateSatisfactionUnsafe invoke k p = Some (exc, q) \<and> grows p q) \<and>
     (\<exists>exc q. MarkUnsatisfiable invoke k p = Some (exc, q) \<and> k \<in> complete_keys q) \<and>
     (\<exists>exc q. Decorate invoke v k p = Some (exc, q) \<and> complete_keys p \<subseteq> complete_keys q)"
  using UpdateSatisfaction_returns [OF assms] by blast

theorem UpdateSatisfaction_terminates_witness:
  "\<exists>exc q. MarkUnsatisfiable (\<lambda>f obj p. Some (None, p)) 5 ex_subscribed = Some (exc, q) \<and> 5 \<in> complete_keys q"
proof -
  have "tame (\<lambda>f obj p. Some (None, p))" by (simp add: tame_def)
  moreover have "finite (dom (m_counters ex_subscribed))" by (simp add: ex_defs)
  ultimately show ?thesis using UpdateSatisfaction_terminates [of "\<lambda>f obj p. Some (None, p)" ex_subscribed 5] by blast
qed

section \<open>A modifier that cannot run makes its type unsatisfiable\<close>

text \<open>
  Filter 1 reads type 5 and modifies type 6 in place; filter 2 puts out type 6.
\<close>

definition ex_modified :: AutoPacket where
  "ex_modified = packet_new\<lparr>m_counters :=
     [1 \<mapsto> ex_counter 1 [auto_arg_const_ref 5, auto_arg_rvalue 6], 2 \<mapsto> ex_counter 2 [auto_arg_ref 6]]\<rparr>"

definition ex_modified_subscribed :: AutoPacket where
  "ex_modified_subscribed = ex_modified\<lparr>m_decoration_map :=
     [5 \<mapsto> disposition_new\<lparr>m_subscribers :=
        [\<lparr>sub_is_shared = False, sub_type = Normal, sub_altitude = altitude_value Standard, sub_satCounter = 1\<rparr>]\<rparr>,
      6 \<mapsto> disposition_new\<lparr>m_publishers := [2], m_modifiers :=
        [\<lparr>mod_is_shared = False, mod_altitude = altitude_value Standard, mod_satCounter = 1\<rparr>]\<rparr>]\<rparr>"

lemma ex_modified_subscribed:
  "Option.bind (AddSatCounterUnsafe 1 ex_modified) (\<lambda>(e, p). if e = None then AddSatCounterUnsafe 2 p else None) =
     Some (None, ex_modified_subscribed)"
  by (simp add: AddSatCounterUnsafe_def ex_modified_def ex_modified_subscribed_def ex_defs auto_arg_defs
      add_argument_def add_input_def add_modifier_def add_subscriber_def add_publisher_def entry_def set_entry_def
      sub_type_of_def DetectCycle_def detect_each.simps next_counters_def fun_upd_twist)

text \<open>
  When type 5 turns out to be unsatisfiable, filter 1 cannot run; its in-place argument counts
  as one more producer of type 6 that has run, although only filter 2 publishes type 6.  Type 6
  becomes complete without a decoration, and filter 2's own output is then rejected as
  unsatisfiable.
\<close>

lemma unsatisfied_modifier_blocks_publisher:
  "\<exists>q r. Option.bind (AddSatCounterUnsafe 1 ex_modified) (\<lambda>(e, p). if e = None then AddSatCounterUnsafe 2 p else None) =
       Some (None, ex_modified_subscribed) \<and>
     m_publishers (entry 6 ex_modified_subscribed) = [2] \<and>
     MarkUnsatisfiable invoke 5 ex_modified_subscribed = Some (None, q) \<and>
     Decorate invoke (Some v) 6 q =
       Some (Some (autowiring_error ''Cannot check out decoration, it has been marked unsatisfiable''), r)"
proof -
  show ?thesis
    using ex_modified_subscribed
    by (simp add: MarkUnsatisfiable_def UpdateSatisfactionUnsafe_def notify_consumers_def
        ex_modified_subscribed_def ex_modified_def ex_defs auto_arg_defs entry_def set_entry_def set_counter_def
        update_subscribers_def update_subscriber_none_def markOutputsUnsat_def mark_unsat.simps
        IncProducerCount_def Let_def Decorate_def DecorateNoPriors_def)
qed

end
