(* ===== verification/Core_Context.thy ===== *)
theory Core_Context
  imports Prelude
begin

text \<open>
  The context tree and its life cycle: \<open>CoreContext.{h,cpp}\<close>, \<open>CoreRunnable.{h,cpp}\<close>,
  \<open>ContextEnumerator.{h,cpp}\<close>, \<open>CurrentContextPusher.cpp\<close> and the bolts.

  The contexts and runnables that are alive live in a store; a weak pointer to a context is
  expired when the store has none at its address.  The calls that leave the framework (signals, the
  virtual functions of a runnable, bolts) are recorded, in order, in a log; \<open>onStart r\<close>, what the
  runnable \<open>r\<close> answers from its \<open>OnStart\<close>, is a parameter.
\<close>

section \<open>Runnables\<close>

record CoreRunnable =
  m_wasStarted :: bool
  m_shouldStop :: bool
  m_outstanding :: ptr
  is_DelayedContextHold :: bool

definition runnable_new :: CoreRunnable where
  "runnable_new = \<lparr>m_wasStarted = False, m_shouldStop = False, m_outstanding = None,
     is_DelayedContextHold = False\<rparr>"

text \<open>
  \<open>DelayedContextHold\<close>, the runnable by which an initiated context keeps itself alive until it can
  start: its \<open>OnStart\<close> declines to run.
\<close>

definition DelayedContextHold :: CoreRunnable where
  "DelayedContextHold = runnable_new\<lparr>is_DelayedContextHold := True\<rparr>"

definition OnStart :: "(addr \<Rightarrow> bool) \<Rightarrow> addr \<Rightarrow> CoreRunnable \<Rightarrow> bool" where
  "OnStart onStart r k \<longleftrightarrow> \<not> is_DelayedContextHold k \<and> onStart r"

datatype context_event =
    Ev_OnStart addr | Ev_OnStop addr bool
  | Ev_onInitiated addr | Ev_onRunning addr | Ev_onShutdown addr
  | Ev_newContext addr | Ev_ContextCreated addr addr

definition runnable_IsRunning :: "CoreRunnable \<Rightarrow> bool" where
  "runnable_IsRunning r \<longleftrightarrow> m_outstanding r \<noteq> None"

text \<open>\<open>outstanding\<close> is the context whose run counter is handed over.\<close>

definition runnable_Start ::
  "bool \<Rightarrow> addr \<Rightarrow> addr \<Rightarrow> CoreRunnable \<Rightarrow> bool \<times> context_event list \<times> CoreRunnable" where
  "runnable_Start starts self outstanding r =
     (if m_wasStarted r \<or> m_outstanding r \<noteq> None \<or> m_shouldStop r then (True, [], r)
      else
        (let r1 = r\<lparr>m_wasStarted := True, m_outstanding := Some outstanding\<rparr> in
         if \<not> starts then
           (True, [Ev_OnStart self, Ev_OnStop self False], r1\<lparr>m_shouldStop := True, m_outstanding := None\<rparr>)
         else (True, [Ev_OnStart self], r1)))"

definition runnable_Stop :: "bool \<Rightarrow> addr \<Rightarrow> CoreRunnable \<Rightarrow> context_event list \<times> CoreRunnable" where
  "runnable_Stop graceful self r =
     (let (evs, r1) = (if \<not> m_shouldStop r then ([Ev_OnStop self graceful], r\<lparr>m_shouldStop := True\<rparr>)
                       else ([], r))
      in (evs, r1\<lparr>m_outstanding := None\<rparr>))"

text \<open>The condition that \<open>Wait\<close>, \<open>WaitFor\<close> and \<open>WaitUntil\<close> sleep for.\<close>

definition runnable_wait_pred :: "CoreRunnable \<Rightarrow> bool" where
  "runnable_wait_pred r \<longleftrightarrow> m_shouldStop r \<and> \<not> runnable_IsRunning r"

section \<open>Contexts\<close>

datatype ContextState = NotStarted | CanRun | Initiated | Running | Shutdown | Abandoned

record CoreContext =
  m_pParent :: ptr
  m_children :: "ptr list"
  SigilType :: nat
  AncestorCount :: nat
  ctx_state :: ContextState
  m_beforeRunning :: bool
  m_threads :: "addr list"
  m_nameListeners :: "nat \<rightharpoonup> addr list"

record ContextStore =
  contexts :: "addr \<rightharpoonup> CoreContext"
  runnables :: "addr \<rightharpoonup> CoreRunnable"
  log :: "context_event list"

definition IsInitiated :: "CoreContext \<Rightarrow> bool" where
  "IsInitiated c = (case ctx_state c of
     Initiated \<Rightarrow> True | Running \<Rightarrow> True | Shutdown \<Rightarrow> True | _ \<Rightarrow> False)"

definition IsRunning :: "CoreContext \<Rightarrow> bool" where
  "IsRunning c \<longleftrightarrow> ctx_state c = Running"

definition IsShutdown :: "CoreContext \<Rightarrow> bool" where
  "IsShutdown c = (case ctx_state c of Shutdown \<Rightarrow> True | Abandoned \<Rightarrow> True | _ \<Rightarrow> False)"

definition IsGlobalContext :: "CoreContext \<Rightarrow> bool" where
  "IsGlobalContext c \<longleftrightarrow> m_pParent c = None"

definition emit :: "context_event list \<Rightarrow> 'a ContextStore_scheme \<Rightarrow> 'a ContextStore_scheme" where
  "emit evs st = st\<lparr>log := log st @ evs\<rparr>"

definition set_state :: "addr \<Rightarrow> ContextState \<Rightarrow> 'a ContextStore_scheme \<Rightarrow> 'a ContextStore_scheme" where
  "set_state c s st =
     st\<lparr>contexts := (contexts st)(c := map_option (\<lambda>k. k\<lparr>ctx_state := s\<rparr>) (contexts st c))\<rparr>"

text \<open>The live children of a context, in list order.\<close>

fun lock_all :: "'a ContextStore_scheme \<Rightarrow> ptr list \<Rightarrow> addr list" where
  "lock_all st [] = []"
| "lock_all st (w # ws) =
     (case w of None \<Rightarrow> lock_all st ws
      | Some a \<Rightarrow> if contexts st a \<noteq> None then a # lock_all st ws else lock_all st ws)"

definition live_children :: "'a ContextStore_scheme \<Rightarrow> addr \<Rightarrow> addr list" where
  "live_children st c = (case contexts st c of None \<Rightarrow> [] | Some k \<Rightarrow> lock_all st (m_children k))"

definition GetChildCount :: "CoreContext \<Rightarrow> nat" where
  "GetChildCount k = length (m_children k)"

definition GetParentContext :: "'a ContextStore_scheme \<Rightarrow> addr \<Rightarrow> ptr" where
  "GetParentContext st c = (case contexts st c of None \<Rightarrow> None | Some k \<Rightarrow> m_pParent k)"

text \<open>\<open>FirstChild\<close> and \<open>NextSibling\<close>: the first weak pointer that can be locked.\<close>

fun first_lock :: "'a ContextStore_scheme \<Rightarrow> ptr list \<Rightarrow> ptr" where
  "first_lock st [] = None"
| "first_lock st (w # ws) =
     (case w of None \<Rightarrow> first_lock st ws
      | Some a \<Rightarrow> if contexts st a \<noteq> None then Some a else first_lock st ws)"

definition FirstChild :: "'a ContextStore_scheme \<Rightarrow> addr \<Rightarrow> ptr" where
  "FirstChild st c = (case contexts st c of None \<Rightarrow> None | Some k \<Rightarrow> first_lock st (m_children k))"

text \<open>A context's back reference is its own place in the child list of its parent.\<close>

fun after :: "'b \<Rightarrow> 'b list \<Rightarrow> 'b list" where
  "after x [] = []"
| "after x (y # ys) = (if x = y then ys else after x ys)"

definition NextSibling :: "'a ContextStore_scheme \<Rightarrow> addr \<Rightarrow> ptr" where
  "NextSibling st c =
     (case GetParentContext st c of
        None \<Rightarrow> None
      | Some p \<Rightarrow> (case contexts st p of None \<Rightarrow> None
                   | Some k \<Rightarrow> first_lock st (after (Some c) (m_children k))))"

partial_function (option) ancestor_walk :: "'a ContextStore_scheme \<Rightarrow> addr \<Rightarrow> ptr \<Rightarrow> bool option" where
  "ancestor_walk st c cur =
     (case cur of None \<Rightarrow> Some False
      | Some a \<Rightarrow> if a = c then Some True else ancestor_walk st c (GetParentContext st a))"

definition IsAncestorOf :: "'a ContextStore_scheme \<Rightarrow> addr \<Rightarrow> addr \<Rightarrow> bool option" where
  "IsAncestorOf st c child = ancestor_walk st c (Some child)"

section \<open>Starting and stopping\<close>

text \<open>Calling \<open>Start\<close> or \<open>Stop\<close> on the runnables of a context, in list order.\<close>

definition start_one :: "(addr \<Rightarrow> bool) \<Rightarrow> addr \<Rightarrow> addr \<Rightarrow> 'a ContextStore_scheme \<Rightarrow> 'a ContextStore_scheme" where
  "start_one onStart c r st =
     (case runnables st r of None \<Rightarrow> st
      | Some k \<Rightarrow> (case runnable_Start (OnStart onStart r k) r c k of (_, evs, k') \<Rightarrow>
          emit evs (st\<lparr>runnables := (runnables st)(r \<mapsto> k')\<rparr>)))"

definition stop_one :: "bool \<Rightarrow> addr \<Rightarrow> 'a ContextStore_scheme \<Rightarrow> 'a ContextStore_scheme" where
  "stop_one graceful r st =
     (case runnables st r of None \<Rightarrow> st
      | Some k \<Rightarrow> (case runnable_Stop graceful r k of (evs, k') \<Rightarrow>
          emit evs (st\<lparr>runnables := (runnables st)(r \<mapsto> k')\<rparr>)))"

definition threads_of :: "'a ContextStore_scheme \<Rightarrow> addr \<Rightarrow> addr list" where
  "threads_of st c = (case contexts st c of None \<Rightarrow> [] | Some k \<Rightarrow> m_threads k)"

definition start_threads :: "(addr \<Rightarrow> bool) \<Rightarrow> addr \<Rightarrow> 'a ContextStore_scheme \<Rightarrow> 'a ContextStore_scheme" where
  "start_threads onStart c st = fold (start_one onStart c) (threads_of st c) st"

text \<open>
  \<open>RunCounter\<close>: a context's counter is alive as long as a runnable of the context, or the counter of a
  child, holds it.  \<open>IsQuiescent\<close> is the condition of \<open>Quiescent\<close> and \<open>Wait\<close>.
\<close>

inductive counter_alive :: "'a ContextStore_scheme \<Rightarrow> addr \<Rightarrow> bool" for st where
  holder: "runnables st r = Some k \<Longrightarrow> m_outstanding k = Some c \<Longrightarrow> counter_alive st c"
| parentCount: "counter_alive st d \<Longrightarrow> GetParentContext st d = Some c \<Longrightarrow> counter_alive st c"

definition IsQuiescent :: "'a ContextStore_scheme \<Rightarrow> addr \<Rightarrow> bool" where
  "IsQuiescent st c \<longleftrightarrow> \<not> counter_alive st c"

text \<open>\<open>TryTransitionChildrenState\<close>, as a recursion over a list of children.\<close>

partial_function (option) transition_each ::
  "(addr \<Rightarrow> bool) \<Rightarrow> addr list \<Rightarrow> 'a ContextStore_scheme \<Rightarrow> 'a ContextStore_scheme option" where
  "transition_each onStart cs st =
     (case cs of
        [] \<Rightarrow> Some st
      | c # cs' \<Rightarrow>
          (case map_option ctx_state (contexts st c) of
             Some Initiated \<Rightarrow>
               Option.bind
                 (transition_each onStart (live_children st c)
                    (emit [Ev_onRunning c] (start_threads onStart c (set_state c Running st))))
                 (transition_each onStart cs')
           | Some NotStarted \<Rightarrow> transition_each onStart cs' (set_state c CanRun st)
           | _ \<Rightarrow> transition_each onStart cs' st))"

definition TryTransitionChildrenState ::
  "(addr \<Rightarrow> bool) \<Rightarrow> addr \<Rightarrow> 'a ContextStore_scheme \<Rightarrow> 'a ContextStore_scheme option" where
  "TryTransitionChildrenState onStart c st = transition_each onStart (live_children st c) st"

text \<open>
  \<open>AddCoreRunnable\<close>: \<open>m_beforeRunning\<close> is set while the runnable is started, and cleared again.
\<close>

definition AddCoreRunnable ::
  "(addr \<Rightarrow> bool) \<Rightarrow> addr \<Rightarrow> addr \<Rightarrow> 'a ContextStore_scheme \<Rightarrow> 'a ContextStore_scheme" where
  "AddCoreRunnable onStart c r st =
     (case contexts st c of
        None \<Rightarrow> st
      | Some k \<Rightarrow>
          (let st1 = st\<lparr>contexts := (contexts st)(c \<mapsto> k\<lparr>m_threads := r # m_threads k, m_beforeRunning := True\<rparr>)\<rparr>;
               st2 = (if IsRunning k then start_one onStart c r st1 else st1);
               st3 = st2\<lparr>contexts := (contexts st2)(c \<mapsto> k\<lparr>m_threads := r # m_threads k, m_beforeRunning := False\<rparr>)\<rparr>
           in if IsShutdown k then stop_one False r st3 else st3))"

text \<open>
  \<open>Initiate\<close>.  \<open>hold\<close> is the address of the \<open>DelayedContextHold\<close> that a context which cannot run
  yet injects into itself.
\<close>

definition inject_hold ::
  "(addr \<Rightarrow> bool) \<Rightarrow> addr \<Rightarrow> addr \<Rightarrow> 'a ContextStore_scheme \<Rightarrow> 'a ContextStore_scheme" where
  "inject_hold onStart hold c st =
     AddCoreRunnable onStart c hold (st\<lparr>runnables := (runnables st)(hold \<mapsto> DelayedContextHold)\<rparr>)"

definition Initiate ::
  "(addr \<Rightarrow> bool) \<Rightarrow> addr \<Rightarrow> addr \<Rightarrow> 'a ContextStore_scheme \<Rightarrow> 'a ContextStore_scheme option" where
  "Initiate onStart hold c st =
     (case contexts st c of
        None \<Rightarrow> Some st
      | Some k \<Rightarrow>
          if IsInitiated k then Some st
          else (case ctx_state k of
                  NotStarted \<Rightarrow>
                    if IsGlobalContext k then
                      TryTransitionChildrenState onStart c
                        (emit [Ev_onRunning c] (start_threads onStart c (emit [Ev_onInitiated c] (set_state c Running st))))
                    else Some (inject_hold onStart hold c (emit [Ev_onInitiated c] (set_state c Initiated st)))
                | CanRun \<Rightarrow>
                    TryTransitionChildrenState onStart c
                      (emit [Ev_onRunning c] (start_threads onStart c (emit [Ev_onInitiated c] (set_state c Running st))))
                | _ \<Rightarrow> Some st))"

definition shutdown_state :: "ContextState \<Rightarrow> ContextState" where
  "shutdown_state s = (case s of
     NotStarted \<Rightarrow> Abandoned | CanRun \<Rightarrow> Abandoned | Initiated \<Rightarrow> Shutdown | Running \<Rightarrow> Shutdown | t \<Rightarrow> t)"

definition stop_threads :: "bool \<Rightarrow> addr \<Rightarrow> 'a ContextStore_scheme \<Rightarrow> 'a ContextStore_scheme" where
  "stop_threads graceful c st =
     (case contexts st c of None \<Rightarrow> st
      | Some k \<Rightarrow> fold (stop_one graceful)
          (if m_beforeRunning k then tl (m_threads k) else m_threads k) st)"

text \<open>
  \<open>SignalShutdown\<close> on each of a list of contexts: the state changes and the signal is asserted, then
  the children are shut down, last one first, then the threads are stopped.
\<close>

partial_function (option) shutdown_each ::
  "bool \<Rightarrow> addr list \<Rightarrow> 'a ContextStore_scheme \<Rightarrow> 'a ContextStore_scheme option" where
  "shutdown_each graceful cs st =
     (case cs of
        [] \<Rightarrow> Some st
      | c # cs' \<Rightarrow>
          (case contexts st c of
             None \<Rightarrow> shutdown_each graceful cs' st
           | Some k \<Rightarrow>
               if IsShutdown k then shutdown_each graceful cs' st
               else Option.bind
                      (shutdown_each graceful (rev (live_children st c))
                         (emit [Ev_onShutdown c] (set_state c (shutdown_state (ctx_state k)) st)))
                      (\<lambda>st1. shutdown_each graceful cs' (stop_threads graceful c st1))))"

definition SignalShutdown :: "bool \<Rightarrow> addr \<Rightarrow> 'a ContextStore_scheme \<Rightarrow> 'a ContextStore_scheme option" where
  "SignalShutdown graceful c st = shutdown_each graceful [c] st"

section \<open>Creating and destroying contexts\<close>

definition listeners :: "nat \<Rightarrow> CoreContext \<Rightarrow> addr list" where
  "listeners sigil k = (case m_nameListeners k sigil of None \<Rightarrow> [] | Some bs \<Rightarrow> bs)"

text \<open>The bolts that a creation notice reaches: named ones, then those for all types, then the parent's.\<close>

partial_function (option) creation_notice ::
  "'a ContextStore_scheme \<Rightarrow> nat \<Rightarrow> ptr \<Rightarrow> addr list option" where
  "creation_notice st sigil cur =
     (case cur of
        None \<Rightarrow> Some []
      | Some c \<Rightarrow>
          (case contexts st c of
             None \<Rightarrow> Some []
           | Some k \<Rightarrow>
               Option.bind (creation_notice st sigil (m_pParent k)) (\<lambda>bs.
                 Some (listeners sigil k @ (if sigil \<noteq> 0 then listeners 0 k else []) @ bs))))"

definition BroadcastContextCreationNotice ::
  "addr \<Rightarrow> nat \<Rightarrow> addr \<Rightarrow> 'a ContextStore_scheme \<Rightarrow> 'a ContextStore_scheme option" where
  "BroadcastContextCreationNotice c sigil new st =
     map_option (\<lambda>bs. emit (map (\<lambda>b. Ev_ContextCreated b new) bs) st) (creation_notice st sigil (Some c))"

definition context_new :: "ptr \<Rightarrow> nat \<Rightarrow> 'a ContextStore_scheme \<Rightarrow> CoreContext" where
  "context_new pParent sigil st = \<lparr>m_pParent = pParent, m_children = [], SigilType = sigil,
     AncestorCount = (case pParent of None \<Rightarrow> 0
        | Some p \<Rightarrow> (case contexts st p of None \<Rightarrow> 0 | Some k \<Rightarrow> Suc (AncestorCount k))),
     ctx_state = NotStarted, m_beforeRunning = False, m_threads = [], m_nameListeners = Map.empty\<rparr>"

text \<open>
  \<open>CreateInternal\<close> of a child at the fresh address \<open>a\<close>: the place in the child list is reserved
  first and filled last, after the bolts have been fired.
\<close>

definition CreateInternal ::
  "addr \<Rightarrow> addr \<Rightarrow> nat \<Rightarrow> 'a ContextStore_scheme \<Rightarrow> 'a ContextStore_scheme result option" where
  "CreateInternal c a sigil st =
     (case contexts st c of
        None \<Rightarrow> Some (Inl Undefined_behaviour)
      | Some k \<Rightarrow>
          if IsShutdown k then
            Some (Inl (dispatch_aborted_exception ''Cannot create a child context; this context is already shut down''))
          else
            (let child = context_new (Some c) sigil st;
                 st1 = emit [Ev_newContext a] (st\<lparr>contexts := (contexts st)(a \<mapsto>
                   child\<lparr>ctx_state := (if IsRunning k then CanRun else NotStarted)\<rparr>)\<rparr>)
             in map_option (\<lambda>st2. Inr (st2\<lparr>contexts := (contexts st2)(c \<mapsto> k\<lparr>m_children := m_children k @ [Some a]\<rparr>)\<rparr>))
                  (BroadcastContextCreationNotice c sigil a st1)))"

text \<open>The destructor evicts the context from its parent's child list.\<close>

definition destroy_context :: "addr \<Rightarrow> 'a ContextStore_scheme \<Rightarrow> 'a ContextStore_scheme" where
  "destroy_context c st =
     (case contexts st c of
        None \<Rightarrow> st
      | Some k \<Rightarrow>
          (let m = (case m_pParent k of None \<Rightarrow> contexts st
                    | Some p \<Rightarrow> (contexts st)(p := map_option
                        (\<lambda>q. q\<lparr>m_children := filter (\<lambda>w. w \<noteq> Some c) (m_children q)\<rparr>) (contexts st p)))
           in st\<lparr>contexts := m(c := None)\<rparr>))"

section \<open>Enumeration\<close>

text \<open>
  The loop of \<open>_next\<close>: the node it found and where \<open>m_cur\<close> has risen to.
\<close>

partial_function (option) ascend :: "'a ContextStore_scheme \<Rightarrow> ptr \<Rightarrow> ptr \<Rightarrow> (ptr \<times> ptr) option" where
  "ascend st i m_cur =
     (if i = None \<and> m_cur \<noteq> None
      then ascend st (NextSibling st (the m_cur)) (GetParentContext st (the m_cur))
      else Some (i, m_cur))"

text \<open>\<open>m_root\<close> is the parent of the context that the enumeration started at.\<close>

definition iterator_next :: "'a ContextStore_scheme \<Rightarrow> ptr \<Rightarrow> ptr \<Rightarrow> addr \<Rightarrow> ptr option" where
  "iterator_next st m_root start m_cur =
     map_option (\<lambda>(i, cur). if cur = m_root then None else i) (ascend st start (Some m_cur))"

definition iterator_inc :: "'a ContextStore_scheme \<Rightarrow> ptr \<Rightarrow> addr \<Rightarrow> ptr option" where
  "iterator_inc st m_root m_cur = iterator_next st m_root (FirstChild st m_cur) m_cur"

text \<open>The contexts visited from \<open>m_cur\<close> on.\<close>

partial_function (option) visit_from :: "'a ContextStore_scheme \<Rightarrow> ptr \<Rightarrow> ptr \<Rightarrow> addr list option" where
  "visit_from st m_root m_cur =
     (case m_cur of
        None \<Rightarrow> Some []
      | Some c \<Rightarrow> Option.bind (iterator_inc st m_root c)
                    (\<lambda>n. Option.bind (visit_from st m_root n) (\<lambda>cs. Some (c # cs))))"

definition enumerate_contexts :: "'a ContextStore_scheme \<Rightarrow> addr \<Rightarrow> addr list option" where
  "enumerate_contexts st root = visit_from st (GetParentContext st root) (Some root)"

text \<open>\<open>ContextEnumeratorT<Sigil>\<close> and its \<open>unique\<close>.\<close>

definition enumerate_sigil :: "'a ContextStore_scheme \<Rightarrow> nat \<Rightarrow> addr \<Rightarrow> addr list option" where
  "enumerate_sigil st sigil root =
     map_option (filter (\<lambda>c. map_option SigilType (contexts st c) = Some sigil)) (enumerate_contexts st root)"

definition enumerator_unique :: "'a ContextStore_scheme \<Rightarrow> nat \<Rightarrow> addr \<Rightarrow> addr result option" where
  "enumerator_unique st sigil root =
     map_option (\<lambda>cs. case cs of
         [] \<Rightarrow> Inl (autowiring_error ''Attempted to get a unique context on a context enumerator that enumerates no children'')
       | [c] \<Rightarrow> Inr c
       | _ \<Rightarrow> Inl (autowiring_error ''Attempted to get a unique context on a context enumerator that enumerates more than one child''))
     (enumerate_sigil st sigil root)"

section \<open>Bolts\<close>

text \<open>
  \<open>AddBolt\<close> of a bolt with the context sigils \<open>sigils\<close>: it is registered, and then told of the contexts
  that exist already; the loop ends at the first context that the bolt does not match.
\<close>

definition bolt_matches :: "nat list \<Rightarrow> nat \<Rightarrow> bool" where
  "bolt_matches sigils sigil \<longleftrightarrow> sigils = [] \<or> sigil \<in> set sigils"

definition add_listener :: "addr \<Rightarrow> nat \<Rightarrow> CoreContext \<Rightarrow> CoreContext" where
  "add_listener bolt sigil k = k\<lparr>m_nameListeners := (m_nameListeners k)(sigil \<mapsto> listeners sigil k @ [bolt])\<rparr>"

definition sigil_of :: "'a ContextStore_scheme \<Rightarrow> addr \<Rightarrow> nat" where
  "sigil_of st c = (case contexts st c of None \<Rightarrow> 0 | Some k \<Rightarrow> SigilType k)"

definition AddBolt ::
  "addr \<Rightarrow> nat list \<Rightarrow> addr \<Rightarrow> 'a ContextStore_scheme \<Rightarrow> 'a ContextStore_scheme option" where
  "AddBolt bolt sigils c st =
     (let st1 = st\<lparr>contexts := (contexts st)(c := map_option
                  (fold (add_listener bolt) (if sigils = [] then [0] else sigils)) (contexts st c))\<rparr>
      in map_option (\<lambda>cs. emit (map (\<lambda>q. Ev_ContextCreated bolt q)
             (takeWhile (\<lambda>q. bolt_matches sigils (sigil_of st1 q)) (tl cs))) st1)
           (enumerate_contexts st1 c))"

section \<open>The current context\<close>

text \<open>\<open>SetCurrent\<close>: the new value of the thread's current context and the prior one.\<close>

definition ctx_SetCurrent :: "ptr \<Rightarrow> ptr \<Rightarrow> ptr \<times> ptr" where
  "ctx_SetCurrent ctxt current = (if current = ctxt then (current, current) else (ctxt, current))"

definition CurrentContext :: "addr \<Rightarrow> ptr \<Rightarrow> addr" where
  "CurrentContext global current = (case current of Some c \<Rightarrow> c | None \<Rightarrow> global)"

definition EvictCurrent :: "ptr \<Rightarrow> ptr" where
  "EvictCurrent current = None"

record CurrentContextPusher =
  m_prior :: ptr
  pop_invoked :: bool

definition pusher_new :: "ptr \<Rightarrow> ptr \<Rightarrow> CurrentContextPusher \<times> ptr" where
  "pusher_new ctxt current =
     (case ctx_SetCurrent ctxt current of (cur, prior) \<Rightarrow> (\<lparr>m_prior = prior, pop_invoked = False\<rparr>, cur))"

text \<open>The default constructor only saves the current context.\<close>

definition pusher_save :: "ptr \<Rightarrow> CurrentContextPusher \<times> ptr" where
  "pusher_save current = (\<lparr>m_prior = current, pop_invoked = False\<rparr>, current)"

text \<open>The move constructor: the new pusher and what is left of the old one.\<close>

definition pusher_move :: "CurrentContextPusher \<Rightarrow> CurrentContextPusher \<times> CurrentContextPusher" where
  "pusher_move rhs = (\<lparr>m_prior = m_prior rhs, pop_invoked = False\<rparr>, rhs\<lparr>m_prior := None\<rparr>)"

text \<open>\<open>Pop\<close>: what it returns, the pusher after it and the current context.  The destructor is \<open>Pop\<close>.\<close>

definition pusher_Pop :: "CurrentContextPusher \<Rightarrow> ptr \<Rightarrow> ptr \<times> CurrentContextPusher \<times> ptr" where
  "pusher_Pop p current =
     (if pop_invoked p then (None, p, current)
      else (case ctx_SetCurrent (m_prior p) current of (cur, prior) \<Rightarrow>
              (prior, \<lparr>m_prior = None, pop_invoked = True\<rparr>, cur)))"

end
