(* ===== verification/Core_Context_Props.thy ===== *)
theory Core_Context_Props
  imports Core_Context
begin

text \<open>
  The life cycle of a tree of contexts: starting and shutting down always end, and keep children
  consistent with their parents, in every state that the operations reach.
\<close>

section \<open>Shape of the tree\<close>

definition shape :: "'a ContextStore_scheme \<Rightarrow> addr \<rightharpoonup> ptr \<times> ptr list \<times> nat" where
  "shape st = (\<lambda>c. map_option (\<lambda>k. (m_pParent k, m_children k, AncestorCount k)) (contexts st c))"

definition state_of :: "'a ContextStore_scheme \<Rightarrow> addr \<rightharpoonup> ContextState" where
  "state_of st c = map_option ctx_state (contexts st c)"

lemma emit_contexts [simp]: "contexts (emit evs st) = contexts st"
  by (simp add: emit_def)

lemma start_one_contexts [simp]: "contexts (start_one onStart c r st) = contexts st"
  by (simp add: start_one_def split: option.splits prod.splits)

lemma stop_one_contexts [simp]: "contexts (stop_one graceful r st) = contexts st"
  by (simp add: stop_one_def split: option.splits prod.splits)

lemma fold_contexts:
  "(\<And>r st. contexts (f r st) = contexts st) \<Longrightarrow> contexts (fold f rs st) = contexts st"
  by (induction rs arbitrary: st) auto

lemma start_threads_contexts [simp]: "contexts (start_threads onStart c st) = contexts st"
  by (simp add: start_threads_def fold_contexts)

lemma stop_threads_contexts [simp]: "contexts (stop_threads graceful c st) = contexts st"
  by (simp add: stop_threads_def fold_contexts split: option.splits)

lemma shape_contexts_cong: "contexts st = contexts st' \<Longrightarrow> shape st = shape st'"
  by (simp add: shape_def)

lemma shape_set_state [simp]: "shape (set_state c s st) = shape st"
  by (auto simp: shape_def set_state_def fun_eq_iff option.map_comp comp_def)

lemma state_of_set_state [simp]:
  "state_of (set_state c s st) d = (if d = c then map_option (\<lambda>_. s) (state_of st c) else state_of st d)"
  by (auto simp: state_of_def set_state_def option.map_comp comp_def)

lemma state_of_contexts_cong: "contexts st = contexts st' \<Longrightarrow> state_of st = state_of st'"
  by (simp add: state_of_def fun_eq_iff)

lemma shape_Some:
  assumes "shape st = shape st'" "contexts st c = Some k"
  shows "\<exists>k'. contexts st' c = Some k' \<and> m_pParent k' = m_pParent k \<and> m_children k' = m_children k \<and>
     AncestorCount k' = AncestorCount k"
  using fun_cong [OF assms(1), of c] assms(2) by (cases "contexts st' c") (auto simp: shape_def)

lemma shape_None: "shape st = shape st' \<Longrightarrow> contexts st c = None \<longleftrightarrow> contexts st' c = None"
  using shape_Some [of st st' c] shape_Some [of st' st c] by (cases "contexts st c"; cases "contexts st' c") auto

lemma GetParentContext_shape:
  assumes "shape st = shape st'"
  shows "GetParentContext st c = GetParentContext st' c"
proof (cases "contexts st c")
  case None
  then show ?thesis using shape_None [OF assms, of c] by (simp add: GetParentContext_def)
next
  case (Some k)
  then show ?thesis using shape_Some [OF assms Some] by (auto simp: GetParentContext_def)
qed

lemma live_children_shape:
  assumes "shape st = shape st'"
  shows "live_children st c = live_children st' c"
proof (cases "contexts st c")
  case None
  then show ?thesis using shape_None [OF assms, of c] by (simp add: live_children_def)
next
  case (Some k)
  have "lock_all st ws = lock_all st' ws" for ws
    using shape_None [OF assms] by (induction ws) (auto split: option.splits)
  then show ?thesis using shape_Some [OF assms Some] Some by (auto simp: live_children_def)
qed

lemma set_lock_all: "set (lock_all st ws) = {a. Some a \<in> set ws \<and> contexts st a \<noteq> None}"
  by (induction ws) (auto split: option.splits)

text \<open>
  Parents and children refer to each other, a context is one level below its parent, and there are
  finitely many contexts.
\<close>

definition tree_ok :: "'a ContextStore_scheme \<Rightarrow> bool" where
  "tree_ok st \<longleftrightarrow> finite (dom (contexts st)) \<and>
     (\<forall>c k. contexts st c = Some k \<longrightarrow>
        (\<forall>a. Some a \<in> set (m_children k) \<longrightarrow> contexts st a \<noteq> None \<and> GetParentContext st a = Some c) \<and>
        (case m_pParent k of None \<Rightarrow> AncestorCount k = 0
         | Some p \<Rightarrow> \<exists>kp. contexts st p = Some kp \<and> Some c \<in> set (m_children kp) \<and>
             AncestorCount k = Suc (AncestorCount kp)))"

definition level :: "'a ContextStore_scheme \<Rightarrow> addr \<Rightarrow> nat" where
  "level st c = (case contexts st c of None \<Rightarrow> 0 | Some k \<Rightarrow> AncestorCount k)"

lemma level_shape: "shape st = shape st' \<Longrightarrow> level st c = level st' c"
  using shape_Some [of st st' c] shape_None [of st st' c]
  by (cases "contexts st c") (auto simp: level_def)

lemma tree_ok_shape:
  assumes "shape st = shape st'" "tree_ok st"
  shows "tree_ok st'"
proof -
  have d: "dom (contexts st') = dom (contexts st)" 
    using shape_None [OF assms(1)] by (simp add: set_eq_iff dom_def)
  have *: "shape st' = shape st" using assms(1) by simp
  show ?thesis
    unfolding tree_ok_def
  proof (intro conjI allI impI)
    show "finite (dom (contexts st'))" using assms(2) d by (simp add: tree_ok_def)
    fix c k' assume k': "contexts st' c = Some k'"
    from shape_Some [OF * k'] obtain k where k: "contexts st c = Some k" "m_pParent k = m_pParent k'"
      "m_children k = m_children k'" "AncestorCount k = AncestorCount k'" by auto
    have kids: "contexts st a \<noteq> None \<and> GetParentContext st a = Some c" if "Some a \<in> set (m_children k')" for a
      using assms(2) k(1,3) that unfolding tree_ok_def by (metis (no_types, lifting))
    show "contexts st' a \<noteq> None" "GetParentContext st' a = Some c" if "Some a \<in> set (m_children k')" for a
      using kids [OF that] shape_None [OF assms(1), of a] GetParentContext_shape [OF assms(1), of a] by auto
    show "case m_pParent k' of None \<Rightarrow> AncestorCount k' = 0
         | Some p \<Rightarrow> \<exists>kp. contexts st' p = Some kp \<and> Some c \<in> set (m_children kp) \<and>
             AncestorCount k' = Suc (AncestorCount kp)"
    proof (cases "m_pParent k'")
      case None
      then show ?thesis using assms(2) k by (force simp: tree_ok_def)
    next
      case (Some p)
      then obtain kp where "contexts st p = Some kp" "Some c \<in> set (m_children kp)"
        "AncestorCount k = Suc (AncestorCount kp)" using assms(2) k by (force simp: tree_ok_def)
      with shape_Some [OF assms(1), of p kp] Some k(4) show ?thesis by auto
    qed
  qed
qed

lemma live_children_iff:
  assumes "tree_ok st"
  shows "a \<in> set (live_children st c) \<longleftrightarrow> contexts st a \<noteq> None \<and> GetParentContext st a = Some c"
proof
  assume "a \<in> set (live_children st c)"
  then obtain k where "contexts st c = Some k" "Some a \<in> set (m_children k)" "contexts st a \<noteq> None"
    by (cases "contexts st c") (auto simp: live_children_def set_lock_all)
  then show "contexts st a \<noteq> None \<and> GetParentContext st a = Some c" using assms by (auto simp: tree_ok_def)
next
  assume a: "contexts st a \<noteq> None \<and> GetParentContext st a = Some c"
  then obtain ka where ka: "contexts st a = Some ka" "m_pParent ka = Some c" by (auto simp: GetParentContext_def)
  then obtain k where "contexts st c = Some k" "Some a \<in> set (m_children k)"
    using assms by (force simp: tree_ok_def)
  then show "a \<in> set (live_children st c)" using a by (simp add: live_children_def set_lock_all)
qed

lemma live_children_level:
  assumes "tree_ok st" "a \<in> set (live_children st c)"
  shows "level st a = Suc (level st c)"
proof -
  from assms obtain ka where ka: "contexts st a = Some ka" "m_pParent ka = Some c"
    using live_children_iff [OF assms(1), of a c] by (auto simp: GetParentContext_def)
  then show ?thesis using assms(1) by (force simp: tree_ok_def level_def)
qed

definition height_bound :: "'a ContextStore_scheme \<Rightarrow> nat" where
  "height_bound st = Suc (Max (insert 0 (level st ` dom (contexts st))))"

lemma level_less_bound: "tree_ok st \<Longrightarrow> level st c < height_bound st"
proof (cases "contexts st c")
  case None
  then show ?thesis by (simp add: level_def height_bound_def)
next
  case (Some k)
  assume "tree_ok st"
  then have "finite (insert 0 (level st ` dom (contexts st)))" by (simp add: tree_ok_def)
  moreover have "level st c \<in> insert 0 (level st ` dom (contexts st))" using Some by auto
  ultimately have "level st c \<le> Max (insert 0 (level st ` dom (contexts st)))" by (rule Max_ge)
  then show ?thesis by (simp add: height_bound_def)
qed

section \<open>Children and parents\<close>

definition terminal :: "ContextState option \<Rightarrow> bool" where
  "terminal s \<longleftrightarrow> s = Some Shutdown \<or> s = Some Abandoned"

text \<open>A running parent has no child that still waits to be told.\<close>

definition told :: "'a ContextStore_scheme \<Rightarrow> addr \<Rightarrow> addr \<Rightarrow> bool" where
  "told st p c \<longleftrightarrow> (state_of st p = Some Running \<longrightarrow>
     state_of st c \<noteq> Some NotStarted \<and> state_of st c \<noteq> Some Initiated)"

text \<open>A child that runs or may run has a running parent; a child of a context shut down is shut down.\<close>

definition within :: "'a ContextStore_scheme \<Rightarrow> addr \<Rightarrow> addr \<Rightarrow> bool" where
  "within st p c \<longleftrightarrow>
     (state_of st c = Some Running \<or> state_of st c = Some CanRun \<longrightarrow> state_of st p = Some Running) \<and>
     (terminal (state_of st p) \<longrightarrow> terminal (state_of st c))"

definition edge :: "'a ContextStore_scheme \<Rightarrow> addr \<Rightarrow> addr \<Rightarrow> bool" where
  "edge st p c \<longleftrightarrow> contexts st c \<noteq> None \<and> GetParentContext st c = Some p"

text \<open>The invariant, except for the children in \<open>A\<close> (not yet told) and in \<open>B\<close> (not yet shut down).\<close>

definition life_ok :: "'a ContextStore_scheme \<Rightarrow> addr set \<Rightarrow> addr set \<Rightarrow> bool" where
  "life_ok st A B \<longleftrightarrow> (\<forall>p c. edge st p c \<longrightarrow> (c \<notin> A \<longrightarrow> told st p c) \<and> (c \<notin> B \<longrightarrow> within st p c))"

lemma edge_shape: "shape st = shape st' \<Longrightarrow> edge st p c = edge st' p c"
  using shape_None [of st st' c] GetParentContext_shape [of st st' c] by (simp add: edge_def)

lemma life_ok_contexts_cong:
  assumes "contexts st = contexts st'"
  shows "life_ok st A B = life_ok st' A B"
  using edge_shape [OF shape_contexts_cong [OF assms]] state_of_contexts_cong [OF assms]
  by (simp add: life_ok_def told_def within_def)

lemma tree_ok_contexts_cong: "contexts st = contexts st' \<Longrightarrow> tree_ok st = tree_ok st'"
  using tree_ok_shape [of st st'] tree_ok_shape [of st' st] shape_contexts_cong [of st st'] by metis

lemma state_of_Some_iff: "contexts st c \<noteq> None \<longleftrightarrow> state_of st c \<noteq> None"
  by (simp add: state_of_def)

text \<open>One context becomes running: its children are now waiting to be told.\<close>

lemma life_ok_run:
  assumes "tree_ok st" "life_ok st A {}" "contexts st c \<noteq> None"
    and "\<And>p. GetParentContext st c = Some p \<Longrightarrow> state_of st p = Some Running"
  shows "life_ok (set_state c Running st) (A - {c} \<union> set (live_children st c)) {}"
  unfolding life_ok_def
proof (intro allI impI conjI)
  fix p d assume "edge (set_state c Running st) p d"
  then have e: "edge st p d" using edge_shape [OF shape_set_state] by blast
  show "within (set_state c Running st) p d"
    using assms(2-4) e by (auto simp: life_ok_def within_def edge_def terminal_def state_of_Some_iff)
  assume d: "d \<notin> A - {c} \<union> set (live_children st c)"
  then have "p \<noteq> c" using e live_children_iff [OF assms(1), of d c] by (auto simp: edge_def)
  then show "told (set_state c Running st) p d"
    using assms(2,3) e d by (auto simp: life_ok_def told_def state_of_Some_iff)
qed

text \<open>A child that has not started learns that it can run.\<close>

lemma life_ok_can_run:
  assumes "life_ok st A {}" "state_of st c = Some NotStarted"
    and "\<And>p. GetParentContext st c = Some p \<Longrightarrow> state_of st p = Some Running"
  shows "life_ok (set_state c CanRun st) (A - {c}) {}"
  unfolding life_ok_def
proof (intro allI impI conjI)
  fix p d assume "edge (set_state c CanRun st) p d"
  then have e: "edge st p d" using edge_shape [OF shape_set_state] by blast
  from assms(1) e have "within st p d" by (simp add: life_ok_def)
  moreover have "d = c \<Longrightarrow> state_of st p = Some Running" using assms(3) e by (simp add: edge_def)
  ultimately show "within (set_state c CanRun st) p d"
    using assms(2) by (auto simp: within_def terminal_def)
  assume "d \<notin> A - {c}"
  then show "told (set_state c CanRun st) p d" using assms e by (auto simp: life_ok_def told_def)
qed

lemma life_ok_told: "life_ok st (insert c A) B \<Longrightarrow> state_of st c \<noteq> Some NotStarted \<Longrightarrow>
    state_of st c \<noteq> Some Initiated \<Longrightarrow> life_ok st A B"
  by (auto simp: life_ok_def told_def)

text \<open>One context is shut down: its children are now waiting to be shut down.\<close>

lemma life_ok_shutdown:
  assumes "tree_ok st" "life_ok st {} B" "contexts st c \<noteq> None" "s = Shutdown \<or> s = Abandoned"
  shows "life_ok (set_state c s st) {} (B - {c} \<union> set (live_children st c))"
  unfolding life_ok_def
proof (intro allI impI conjI)
  fix p d assume "edge (set_state c s st) p d"
  then have e: "edge st p d" using edge_shape [OF shape_set_state] by blast
  show "told (set_state c s st) p d"
    using assms(2-4) e by (auto simp: life_ok_def told_def state_of_Some_iff)
  assume d: "d \<notin> B - {c} \<union> set (live_children st c)"
  then have "p \<noteq> c" using e live_children_iff [OF assms(1), of d c] by (auto simp: edge_def)
  moreover obtain s0 where "state_of st c = Some s0" using assms(3) by (auto simp: state_of_def)
  moreover have "d \<noteq> c \<Longrightarrow> within st p d" using assms(2) e d by (auto simp: life_ok_def)
  ultimately show "within (set_state c s st) p d"
    using assms(4) by (auto simp: within_def terminal_def)
qed

section \<open>Starting a tree\<close>

lemma transition_each_Cons:
  "transition_each onStart (c # cs) st =
     (case state_of st c of
        Some Initiated \<Rightarrow> Option.bind (transition_each onStart (live_children st c)
            (emit [Ev_onRunning c] (start_threads onStart c (set_state c Running st)))) (transition_each onStart cs)
      | Some NotStarted \<Rightarrow> transition_each onStart cs (set_state c CanRun st)
      | _ \<Rightarrow> transition_each onStart cs st)"
  unfolding state_of_def by (subst transition_each.simps) simp

lemma transition_each_ok:
  fixes st :: "'a ContextStore_scheme"
  assumes "tree_ok st" "life_ok st (A \<union> set cs) {}" "\<forall>c \<in> set cs. n + level st c \<ge> height_bound st"
    and "\<forall>c \<in> set cs. \<exists>p. GetParentContext st c = Some p \<and> state_of st p = Some Running"
  shows "\<exists>st'. transition_each onStart cs st = Some st' \<and> shape st' = shape st \<and> life_ok st' A {} \<and>
     (\<forall>c. state_of st c = Some Running \<longrightarrow> state_of st' c = Some Running)"
  using assms
proof (induction n arbitrary: cs st A)
  case 0
  then have "cs = []" using level_less_bound [OF 0(1)] by (cases cs) (auto simp: not_le [symmetric])
  then show ?case using 0(2) by (simp add: transition_each.simps)
next
  case (Suc n)
  note outer = Suc.IH
  from Suc.prems show ?case
  proof (induction cs arbitrary: st A)
    case Nil
    then show ?case by (simp add: transition_each.simps)
  next
    case (Cons c cs)
    from Cons.prems(4) obtain p where p: "GetParentContext st c = Some p" "state_of st p = Some Running" by auto
    then have alive: "contexts st c \<noteq> None" by (auto simp: GetParentContext_def split: option.splits)
    have step: "\<exists>st'. transition_each onStart cs st1 = Some st' \<and> shape st' = shape st \<and> life_ok st' A {} \<and>
         (\<forall>c. state_of st c = Some Running \<longrightarrow> state_of st' c = Some Running)"
      if "shape st1 = shape st" "life_ok st1 (A \<union> set cs) {}"
        "\<forall>c. state_of st c = Some Running \<longrightarrow> state_of st1 c = Some Running" for st1 :: "'a ContextStore_scheme"
    proof -
      have "\<forall>d \<in> set cs. \<exists>p. GetParentContext st1 d = Some p \<and> state_of st1 p = Some Running"
        using Cons.prems(4) that(3) GetParentContext_shape [OF that(1)] by fastforce
      moreover have "height_bound st1 = height_bound st"
        using level_shape [OF that(1)] shape_None [OF that(1)] by (simp add: height_bound_def dom_def)
      ultimately show ?thesis
        using Cons.IH [of st1 A] that tree_ok_shape [of st st1] Cons.prems(1,3) level_shape [OF that(1)] by auto
    qed
    consider (initiated) "state_of st c = Some Initiated" | (notstarted) "state_of st c = Some NotStarted"
      | (other) "state_of st c \<noteq> Some Initiated" "state_of st c \<noteq> Some NotStarted" by blast
    then show ?case
    proof cases
      case initiated
      let ?st = "emit [Ev_onRunning c] (start_threads onStart c (set_state c Running st))"
      have sh: "shape ?st = shape st" by (simp add: shape_contexts_cong [of ?st "set_state c Running st"])
      have so: "state_of ?st = state_of (set_state c Running st)" by (rule state_of_contexts_cong) simp
      have kids: "live_children ?st c = live_children st c" by (rule live_children_shape [OF sh])
      have "life_ok (set_state c Running st) (A \<union> set (c # cs) - {c} \<union> set (live_children st c)) {}"
        using Cons.prems(1,2) alive p by (intro life_ok_run) auto
      then have "life_ok ?st ((A \<union> set cs) \<union> set (live_children st c)) {}"
        unfolding life_ok_contexts_cong [of ?st "set_state c Running st", simplified]
        by (auto simp: life_ok_def)
      moreover have "\<forall>d \<in> set (live_children st c). n + level ?st d \<ge> height_bound ?st"
        using Cons.prems(1,3) live_children_level [OF Cons.prems(1)] level_shape [OF sh] shape_None [OF sh]
        by (auto simp: height_bound_def dom_def)
      moreover have "\<forall>d \<in> set (live_children st c). \<exists>p. GetParentContext ?st d = Some p \<and> state_of ?st p = Some Running"
        using live_children_iff [OF Cons.prems(1)] GetParentContext_shape [OF sh] so initiated by auto
      ultimately obtain st1 where st1: "transition_each onStart (live_children st c) ?st = Some st1"
        "shape st1 = shape ?st" "life_ok st1 (A \<union> set cs) {}"
        "\<forall>c. state_of ?st c = Some Running \<longrightarrow> state_of st1 c = Some Running"
        using outer [of ?st "A \<union> set cs" "live_children st c"] tree_ok_shape [OF sh [symmetric] Cons.prems(1)]
        by blast
      have "state_of ?st d = Some Running" if "state_of st d = Some Running" for d using that so by auto
      then have "\<forall>c. state_of st c = Some Running \<longrightarrow> state_of st1 c = Some Running" using st1(4) by blast
      from step [OF _ st1(3) this] st1(1,2) sh initiated show ?thesis
        by (simp add: transition_each_Cons)
    next
      case notstarted
      have "life_ok (set_state c CanRun st) (A \<union> set (c # cs) - {c}) {}"
        using Cons.prems(2) notstarted p by (intro life_ok_can_run) auto
      then have "life_ok (set_state c CanRun st) (A \<union> set cs) {}" by (auto simp: life_ok_def)
      from step [OF _ this] notstarted show ?thesis by (simp add: transition_each_Cons)
    next
      case other
      have "life_ok st (A \<union> set cs) {}"
        using life_ok_told [of st c "A \<union> set cs" "{}"] Cons.prems(2) other by simp
      from step [OF _ this] other show ?thesis
        by (auto simp: transition_each_Cons split: option.splits ContextState.splits)
    qed
  qed
qed

section \<open>Shutting a tree down\<close>

lemma shutdown_state_terminal: "terminal (Some (shutdown_state s))"
  by (cases s) (auto simp: shutdown_state_def terminal_def)

lemma IsShutdown_iff: "contexts st c = Some k \<Longrightarrow> IsShutdown k \<longleftrightarrow> terminal (state_of st c)"
  by (cases "ctx_state k") (auto simp: IsShutdown_def terminal_def state_of_def)

lemma life_ok_drop:
  "life_ok st A (insert c B) \<Longrightarrow> (\<And>p. edge st p c \<Longrightarrow> within st p c) \<Longrightarrow> life_ok st A B"
  unfolding life_ok_def by (metis insert_iff)

lemma life_ok_shut: "life_ok st {} (insert c B) \<Longrightarrow> terminal (state_of st c) \<Longrightarrow> life_ok st {} B"
  by (erule life_ok_drop) (auto simp: within_def terminal_def)

lemma life_ok_dead: "life_ok st {} (insert c B) \<Longrightarrow> contexts st c = None \<Longrightarrow> life_ok st {} B"
  by (erule life_ok_drop) (simp add: edge_def)

lemma height_bound_shape: "shape st = shape st' \<Longrightarrow> height_bound st = height_bound st'"
  using level_shape [of st st'] shape_None [of st st'] by (simp add: height_bound_def dom_def)

lemma shutdown_each_ok:
  fixes st :: "'a ContextStore_scheme"
  assumes "tree_ok st" "life_ok st {} (B \<union> set cs)" "\<forall>c \<in> set cs. n + level st c \<ge> height_bound st"
  shows "\<exists>st'. shutdown_each graceful cs st = Some st' \<and> shape st' = shape st \<and> life_ok st' {} B \<and>
     (\<forall>c \<in> set cs. contexts st c \<noteq> None \<longrightarrow> terminal (state_of st' c)) \<and>
     (\<forall>c. terminal (state_of st c) \<longrightarrow> terminal (state_of st' c))"
  using assms
proof (induction n arbitrary: cs st B)
  case 0
  then have "cs = []" using level_less_bound [OF 0(1)] by (cases cs) (auto simp: not_le [symmetric])
  then show ?case using 0(2) by (simp add: shutdown_each.simps)
next
  case (Suc n)
  note outer = Suc.IH
  from Suc.prems show ?case
  proof (induction cs arbitrary: st B)
    case Nil
    then show ?case by (simp add: shutdown_each.simps)
  next
    case (Cons c cs)
    have step: "\<exists>st'. shutdown_each graceful cs st1 = Some st' \<and> shape st' = shape st \<and> life_ok st' {} B \<and>
         (\<forall>d \<in> set (c # cs). contexts st d \<noteq> None \<longrightarrow> terminal (state_of st' d)) \<and>
         (\<forall>d. terminal (state_of st d) \<longrightarrow> terminal (state_of st' d))"
      if "shape st1 = shape st" "life_ok st1 {} (B \<union> set cs)" "contexts st c \<noteq> None \<longrightarrow> terminal (state_of st1 c)"
        "\<forall>d. terminal (state_of st d) \<longrightarrow> terminal (state_of st1 d)" for st1 :: "'a ContextStore_scheme"
      using Cons.IH [of st1 B] that tree_ok_shape [of st st1] Cons.prems(1,3) level_shape [OF that(1)]
        height_bound_shape [OF that(1)] shape_None [OF that(1)] by auto
    show ?case
    proof (cases "contexts st c")
      case None
      have "life_ok st {} (B \<union> set cs)" using life_ok_dead [of st c "B \<union> set cs"] Cons.prems(2) None by simp
      from step [OF refl this] None show ?thesis by (subst shutdown_each.simps) simp
    next
      case (Some k)
      show ?thesis
      proof (cases "IsShutdown k")
        case True
        then have t: "terminal (state_of st c)" using IsShutdown_iff [OF Some] by simp
        then have "life_ok st {} (B \<union> set cs)"
          using life_ok_shut [of st c "B \<union> set cs"] Cons.prems(2) by simp
        from step [OF refl this] t Some True show ?thesis by (subst shutdown_each.simps) simp
      next
        case False
        let ?s = "shutdown_state (ctx_state k)"
        let ?st = "emit [Ev_onShutdown c] (set_state c ?s st)"
        have sh: "shape ?st = shape st" by (simp add: shape_contexts_cong [of ?st "set_state c ?s st"])
        have so: "state_of ?st = state_of (set_state c ?s st)" by (rule state_of_contexts_cong) simp
        have trm: "?s = Shutdown \<or> ?s = Abandoned" using shutdown_state_terminal [of "ctx_state k"] by (simp add: terminal_def)
        have "life_ok (set_state c ?s st) {} (B \<union> set (c # cs) - {c} \<union> set (live_children st c))"
          using Cons.prems(1,2) Some trm by (intro life_ok_shutdown) auto
        then have "life_ok ?st {} ((B \<union> set cs) \<union> set (rev (live_children st c)))"
          unfolding life_ok_contexts_cong [of ?st "set_state c ?s st", simplified] by (auto simp: life_ok_def)
        moreover have "\<forall>d \<in> set (rev (live_children st c)). n + level ?st d \<ge> height_bound ?st"
          using Cons.prems(1,3) live_children_level [OF Cons.prems(1)] level_shape [OF sh] height_bound_shape [OF sh]
          by auto
        ultimately obtain st1 where st1: "shutdown_each graceful (rev (live_children st c)) ?st = Some st1"
          "shape st1 = shape ?st" "life_ok st1 {} (B \<union> set cs)"
          "\<forall>d. terminal (state_of ?st d) \<longrightarrow> terminal (state_of st1 d)"
          using outer [of ?st "B \<union> set cs" "rev (live_children st c)"] tree_ok_shape [OF sh [symmetric] Cons.prems(1)]
          by blast
        let ?st2 = "stop_threads graceful c st1"
        have c2: "contexts ?st2 = contexts st1" by simp
        have k: "state_of st c = Some (ctx_state k)" using Some by (simp add: state_of_def)
        then have "state_of ?st c = Some ?s" using so by simp
        then have "terminal (state_of st1 c)" using st1(4) shutdown_state_terminal by simp
        moreover have "terminal (state_of st1 d)" if "terminal (state_of st d)" for d
        proof -
          have "terminal (state_of ?st d)" using that so k shutdown_state_terminal by auto
          then show ?thesis using st1(4) by blast
        qed
        ultimately show ?thesis
          using step [of ?st2] st1(1-3) sh Some False shape_contexts_cong [OF c2] state_of_contexts_cong [OF c2]
            life_ok_contexts_cong [OF c2] by (subst shutdown_each.simps) simp
      qed
    qed
  qed
qed

section \<open>The operations keep the invariant\<close>

definition ctx_inv :: "addr \<Rightarrow> 'a ContextStore_scheme \<Rightarrow> bool" where
  "ctx_inv global st \<longleftrightarrow> tree_ok st \<and> life_ok st {} {} \<and> contexts st global \<noteq> None \<and>
     (\<forall>c. contexts st c \<noteq> None \<longrightarrow> (GetParentContext st c = None \<longleftrightarrow> c = global))"

lemma ctx_inv_shape:
  assumes "ctx_inv global st" "shape st' = shape st" "life_ok st' {} {}"
  shows "ctx_inv global st'"
  using assms tree_ok_shape [of st st'] shape_None [OF assms(2)] GetParentContext_shape [OF assms(2)]
  by (simp add: ctx_inv_def)

text \<open>A context with the right to run starts, and all that wait below it.\<close>

lemma run_context_ok:
  assumes "ctx_inv global st" "contexts st c \<noteq> None"
    and "\<And>p. GetParentContext st c = Some p \<Longrightarrow> state_of st p = Some Running"
  shows "\<exists>st'. TryTransitionChildrenState onStart c
      (emit [Ev_onRunning c] (start_threads onStart c (emit [Ev_onInitiated c] (set_state c Running st)))) = Some st' \<and>
     ctx_inv global st' \<and> state_of st' c = Some Running"
proof -
  let ?st = "emit [Ev_onRunning c] (start_threads onStart c (emit [Ev_onInitiated c] (set_state c Running st)))"
  have ok: "tree_ok st" "life_ok st {} {}" using assms(1) by (auto simp: ctx_inv_def)
  have cx: "contexts ?st = contexts (set_state c Running st)" by simp
  have sh: "shape ?st = shape st" using shape_contexts_cong [OF cx] by simp
  obtain s0 where "state_of st c = Some s0" using assms(2) by (auto simp: state_of_def)
  then have run: "state_of ?st c = Some Running" using state_of_contexts_cong [OF cx] by simp
  have kids: "live_children ?st c = live_children st c" by (rule live_children_shape [OF sh])
  have "life_ok ?st ({} \<union> set (live_children st c)) {}"
    using life_ok_run [OF ok assms(2,3)] life_ok_contexts_cong [OF cx] by simp
  moreover have "\<forall>d \<in> set (live_children st c). \<exists>p. GetParentContext ?st d = Some p \<and> state_of ?st p = Some Running"
    using live_children_iff [OF ok(1)] GetParentContext_shape [OF sh] run by simp
  ultimately obtain st' where "transition_each onStart (live_children st c) ?st = Some st'"
    "shape st' = shape ?st" "life_ok st' {} {}" "\<forall>c. state_of ?st c = Some Running \<longrightarrow> state_of st' c = Some Running"
    using transition_each_ok [of ?st "{}" "live_children st c" "height_bound ?st" onStart]
      tree_ok_shape [OF sh [symmetric] ok(1)] by auto
  then show ?thesis
    using ctx_inv_shape [OF assms(1), of st'] sh run by (simp add: TryTransitionChildrenState_def kids)
qed

lemma life_ok_initiate:
  assumes "life_ok st {} {}" "state_of st c = Some NotStarted"
  shows "life_ok (set_state c Initiated st) {} {}"
  unfolding life_ok_def
proof (intro allI impI conjI)
  fix p d assume "edge (set_state c Initiated st) p d"
  then have e: "edge st p d" using edge_shape [OF shape_set_state] by blast
  then have w: "within st p d" "told st p d" using assms(1) by (auto simp: life_ok_def)
  show "within (set_state c Initiated st) p d" "told (set_state c Initiated st) p d"
    using w assms(2) by (auto simp: within_def told_def terminal_def)
qed

text \<open>Adding a runnable or a bolt changes neither the shape of the tree nor a state.\<close>

lemma AddCoreRunnable_frame [simp]:
  "shape (AddCoreRunnable onStart c r st) = shape st" "state_of (AddCoreRunnable onStart c r st) = state_of st"
  by (auto simp: AddCoreRunnable_def shape_def state_of_def Let_def fun_eq_iff split: option.splits)

lemma inject_hold_frame [simp]:
  "shape (inject_hold onStart hold c st) = shape st" "state_of (inject_hold onStart hold c st) = state_of st"
  by (simp_all add: inject_hold_def shape_def state_of_def fun_eq_iff
    AddCoreRunnable_frame [unfolded shape_def state_of_def fun_eq_iff, rule_format])

lemma AddBolt_frame:
  "AddBolt bolt sigils c st = Some st' \<Longrightarrow> shape st' = shape st \<and> state_of st' = state_of st"
proof -
  have l: "\<forall>k. m_pParent (add_listener bolt s k) = m_pParent k \<and> m_children (add_listener bolt s k) = m_children k \<and>
     AncestorCount (add_listener bolt s k) = AncestorCount k \<and> ctx_state (add_listener bolt s k) = ctx_state k" for s
    by (simp add: add_listener_def)
  have f: "m_pParent (fold (add_listener bolt) ss k) = m_pParent k \<and> m_children (fold (add_listener bolt) ss k) = m_children k \<and>
     AncestorCount (fold (add_listener bolt) ss k) = AncestorCount k \<and> ctx_state (fold (add_listener bolt) ss k) = ctx_state k" for ss k
    by (induction ss arbitrary: k) (simp_all add: l)
  assume "AddBolt bolt sigils c st = Some st'"
  then have "contexts st' = (contexts st)(c := map_option
      (fold (add_listener bolt) (if sigils = [] then [0] else sigils)) (contexts st c))"
    by (auto simp: AddBolt_def Let_def)
  then show ?thesis by (auto simp: shape_def state_of_def fun_eq_iff map_option.compositionality comp_def l f)
qed

lemma ctx_inv_frame:
  assumes "ctx_inv global st" "shape st' = shape st" "state_of st' = state_of st"
  shows "ctx_inv global st'"
proof (rule ctx_inv_shape [OF assms(1,2)])
  show "life_ok st' {} {}"
    using assms(1,3) edge_shape [OF assms(2)] by (simp add: ctx_inv_def life_ok_def told_def within_def)
qed

lemma Initiate_ok:
  assumes "ctx_inv global st"
  shows "\<exists>st'. Initiate onStart hold c st = Some st' \<and> ctx_inv global st'"
proof (cases "contexts st c")
  case None
  then show ?thesis using assms by (simp add: Initiate_def)
next
  case (Some k)
  have so: "state_of st c = Some (ctx_state k)" using Some by (simp add: state_of_def)
  have inv: "life_ok st {} {}" "\<And>p. GetParentContext st c = Some p \<Longrightarrow> edge st p c"
    using assms Some by (auto simp: ctx_inv_def edge_def)
  show ?thesis
  proof (cases "ctx_state k")
    case NotStarted
    show ?thesis
    proof (cases "c = global")
      case True
      then have "GetParentContext st c = None" using assms Some by (auto simp: ctx_inv_def)
      then show ?thesis using run_context_ok [OF assms, of c onStart] Some NotStarted True
        by (auto simp: Initiate_def IsInitiated_def IsGlobalContext_def GetParentContext_def)
    next
      case False
      let ?st = "emit [Ev_onInitiated c] (set_state c Initiated st)"
      have cx: "contexts ?st = contexts (set_state c Initiated st)" by simp
      have "life_ok ?st {} {}"
        using life_ok_initiate [OF inv(1), of c] so NotStarted life_ok_contexts_cong [OF cx] by simp
      then have "ctx_inv global ?st" using ctx_inv_shape [OF assms] shape_contexts_cong [OF cx] by simp
      then have "ctx_inv global (inject_hold onStart hold c ?st)" by (rule ctx_inv_frame) simp_all
      moreover have "\<not> IsGlobalContext k"
        using assms Some False by (auto simp: ctx_inv_def IsGlobalContext_def GetParentContext_def)
      ultimately show ?thesis using Some NotStarted by (simp add: Initiate_def IsInitiated_def)
    qed
  next
    case CanRun
    have "state_of st p = Some Running" if "GetParentContext st c = Some p" for p
      using inv(1) inv(2) [OF that] so CanRun by (auto simp: life_ok_def within_def)
    then show ?thesis using run_context_ok [OF assms, of c onStart] Some CanRun
      by (auto simp: Initiate_def IsInitiated_def)
  qed (use Some assms in \<open>simp_all add: Initiate_def IsInitiated_def\<close>)
qed

lemma SignalShutdown_ok:
  assumes "ctx_inv global st"
  shows "\<exists>st'. SignalShutdown graceful c st = Some st' \<and> ctx_inv global st' \<and>
     (contexts st c \<noteq> None \<longrightarrow> terminal (state_of st' c)) \<and>
     (\<forall>d. terminal (state_of st d) \<longrightarrow> terminal (state_of st' d))"
proof -
  have "tree_ok st" "life_ok st {} ({} \<union> set [c])" using assms by (auto simp: ctx_inv_def life_ok_def)
  from shutdown_each_ok [OF this, of "height_bound st" graceful] show ?thesis
    using ctx_inv_shape [OF assms] unfolding SignalShutdown_def by fastforce
qed

definition levels_ok :: "'a ContextStore_scheme \<Rightarrow> bool" where
  "levels_ok st \<longleftrightarrow> (\<forall>c k p kp. contexts st c = Some k \<longrightarrow> m_pParent k = Some p \<longrightarrow> contexts st p = Some kp \<longrightarrow>
     AncestorCount kp < AncestorCount k)"

lemma creation_notice_returns:
  assumes "levels_ok st"
  shows "\<exists>bs. creation_notice st sigil cur = Some bs"
proof -
  have "\<exists>bs. creation_notice st sigil (Some c) = Some bs" if "level st c = n" for n c
    using that
  proof (induction n arbitrary: c rule: less_induct)
    case (less n)
    show ?case
    proof (cases "contexts st c")
      case None
      then show ?thesis by (subst creation_notice.simps) simp
    next
      case (Some k)
      have "\<exists>bs. creation_notice st sigil (m_pParent k) = Some bs"
      proof (cases "m_pParent k")
        case None
        then show ?thesis by (simp add: creation_notice.simps)
      next
        case p: (Some p)
        show ?thesis
        proof (cases "contexts st p")
          case None
          with p show ?thesis by (subst creation_notice.simps) simp
        next
          case kp: (Some kp)
          then have "level st p < n" using less.prems Some p assms by (auto simp: level_def levels_ok_def)
          with less.IH p show ?thesis by simp
        qed
      qed
      then show ?thesis using Some by (subst creation_notice.simps) auto
    qed
  qed
  then show ?thesis by (cases cur) (auto simp: creation_notice.simps)
qed

lemma tree_ok_parent:
  assumes "tree_ok st" "contexts st c = Some k" "m_pParent k = Some p"
  shows "\<exists>kp. contexts st p = Some kp \<and> Some c \<in> set (m_children kp) \<and> AncestorCount k = Suc (AncestorCount kp)"
proof -
  have "case m_pParent k of None \<Rightarrow> AncestorCount k = 0
     | Some p \<Rightarrow> \<exists>kp. contexts st p = Some kp \<and> Some c \<in> set (m_children kp) \<and> AncestorCount k = Suc (AncestorCount kp)"
    using assms(1,2) unfolding tree_ok_def by blast
  with assms(3) show ?thesis by simp
qed

lemma tree_ok_child:
  "tree_ok st \<Longrightarrow> contexts st c = Some k \<Longrightarrow> Some a \<in> set (m_children k) \<Longrightarrow>
     contexts st a \<noteq> None \<and> GetParentContext st a = Some c"
  unfolding tree_ok_def by (metis (no_types, lifting))

lemma fresh_not_child:
  assumes "tree_ok st" "contexts st a = None" "contexts st d = Some kd"
  shows "Some a \<notin> set (m_children kd)" "m_pParent kd \<noteq> Some a"
  using tree_ok_child [OF assms(1,3), of a] tree_ok_parent [OF assms(1,3), of a] assms(2) by auto

text \<open>A new child below \<open>c\<close>.\<close>

lemma tree_ok_new_child:
  assumes "tree_ok st" "contexts st c = Some k" "contexts st a = None"
    and "m_pParent ka = Some c" "m_children ka = []" "AncestorCount ka = Suc (AncestorCount k)"
    and st': "contexts st' = (contexts st)(a \<mapsto> ka, c \<mapsto> k\<lparr>m_children := m_children k @ [Some a]\<rparr>)"
  shows "tree_ok st'"
proof -
  have ac: "a \<noteq> c" using assms(2,3) by auto
  have par: "GetParentContext st' d = (if d = a then Some c else GetParentContext st d)" for d
    using st' ac assms(2,4) by (auto simp: GetParentContext_def)
  have fin: "finite (dom (contexts st'))" using assms(1) st' by (simp add: tree_ok_def)
  have kids: "contexts st x \<noteq> None \<and> GetParentContext st x = Some d" if "contexts st d = Some kd" "Some x \<in> set (m_children kd)" for d kd x
    using assms(1) that by (auto simp: tree_ok_def)
  have up: "case m_pParent kd of None \<Rightarrow> AncestorCount kd = 0
     | Some p \<Rightarrow> \<exists>kp. contexts st p = Some kp \<and> Some d \<in> set (m_children kp) \<and> AncestorCount kd = Suc (AncestorCount kp)"
    if "contexts st d = Some kd" for d kd using assms(1) that by (auto simp: tree_ok_def)
  show ?thesis
    unfolding tree_ok_def
  proof (intro conjI allI impI fin)
    fix d kd x assume d: "contexts st' d = Some kd" and x: "Some x \<in> set (m_children kd)"
    have "(d = c \<and> x = a) \<or> (\<exists>kd'. contexts st d = Some kd' \<and> Some x \<in> set (m_children kd'))"
      using d x st' assms(2,5) by (auto split: if_splits)
    then have "contexts st' x \<noteq> None \<and> GetParentContext st' x = Some d"
    proof
      assume "\<exists>kd'. contexts st d = Some kd' \<and> Some x \<in> set (m_children kd')"
      then have "contexts st x \<noteq> None \<and> GetParentContext st x = Some d" using kids by blast
      moreover from this have "x \<noteq> a" using assms(3) by auto
      ultimately show ?thesis using st' par by simp
    qed (use st' par ac in simp)
    then show "contexts st' x \<noteq> None" "GetParentContext st' x = Some d" by auto
  next
    fix d kd assume d: "contexts st' d = Some kd"
    show "case m_pParent kd of None \<Rightarrow> AncestorCount kd = 0
      | Some p \<Rightarrow> \<exists>kp. contexts st' p = Some kp \<and> Some d \<in> set (m_children kp) \<and> AncestorCount kd = Suc (AncestorCount kp)"
    proof (cases "d = a")
      case True
      then show ?thesis using d st' ac assms(4,6) by auto
    next
      case False
      then obtain kd' where kd': "contexts st d = Some kd'" "m_pParent kd = m_pParent kd'" "AncestorCount kd = AncestorCount kd'"
        using d st' assms(2) by (auto split: if_splits)
      have "m_pParent kd' \<noteq> Some a" by (rule fresh_not_child(2) [OF assms(1,3) kd'(1)])
      then show ?thesis using up [OF kd'(1)] kd' st' assms(2) by (auto split: option.splits)
    qed
  qed
qed

lemma CreateInternal_ok:
  fixes st :: "'a ContextStore_scheme"
  assumes "ctx_inv global st" "contexts st c = Some k" "contexts st a = None" "\<not> IsShutdown k"
  shows "\<exists>st'. CreateInternal c a sigil st = Some (Inr st') \<and> ctx_inv global st' \<and>
     GetParentContext st' a = Some c \<and> state_of st' a = Some (if IsRunning k then CanRun else NotStarted)"
proof -
  let ?s = "if IsRunning k then CanRun else NotStarted"
  let ?ka = "(context_new (Some c) sigil st)\<lparr>ctx_state := ?s\<rparr>"
  let ?st1 = "emit [Ev_newContext a] (st\<lparr>contexts := (contexts st)(a \<mapsto> ?ka)\<rparr>)"
  have tr: "tree_ok st" and life: "life_ok st {} {}" using assms(1) by (auto simp: ctx_inv_def)
  have ac: "a \<noteq> c" using assms(2,3) by auto
  have ka: "m_pParent ?ka = Some c" "m_children ?ka = []" "AncestorCount ?ka = Suc (AncestorCount k)"
    using assms(2) by (simp_all add: context_new_def)
  have "levels_ok ?st1"
    unfolding levels_ok_def
  proof (intro allI impI)
    fix d kd p kp assume d: "contexts ?st1 d = Some kd" "m_pParent kd = Some p" "contexts ?st1 p = Some kp"
    show "AncestorCount kp < AncestorCount kd"
    proof (cases "d = a")
      case True
      then show ?thesis using d ka assms(2) ac by auto
    next
      case False
      then have kd: "contexts st d = Some kd" using d by simp
      with d(2) have "p \<noteq> a" using fresh_not_child(2) [OF tr assms(3) kd] by auto
      then show ?thesis using tree_ok_parent [OF tr kd d(2)] d(3) by auto
    qed
  qed
  then obtain bs where bs: "creation_notice ?st1 sigil (Some c) = Some bs" using creation_notice_returns by blast
  define st' where "st' = (emit (map (\<lambda>b. Ev_ContextCreated b a) bs) ?st1)\<lparr>contexts :=
      (contexts ?st1)(c \<mapsto> k\<lparr>m_children := m_children k @ [Some a]\<rparr>)\<rparr>"
  have cx: "contexts st' = (contexts st)(a \<mapsto> ?ka, c \<mapsto> k\<lparr>m_children := m_children k @ [Some a]\<rparr>)"
    by (simp add: st'_def)
  have tr': "tree_ok st'" by (rule tree_ok_new_child [OF tr assms(2,3) ka cx])
  have par: "GetParentContext st' d = (if d = a then Some c else GetParentContext st d)" for d
    using cx ac assms(2) ka(1) by (auto simp: GetParentContext_def)
  have so: "state_of st' d = (if d = a then Some ?s else state_of st d)" for d
    using cx ac assms(2) by (auto simp: state_of_def)
  have alive: "contexts st' d \<noteq> None \<longleftrightarrow> d = a \<or> contexts st d \<noteq> None" for d
    using cx assms(2) by auto
  have "life_ok st' {} {}"
    unfolding life_ok_def
  proof (intro allI impI conjI)
    fix p d assume e: "edge st' p d"
    have "told st' p d \<and> within st' p d"
    proof (cases "d = a")
      case True
      then have "p = c" using e par by (simp add: edge_def)
      moreover have "state_of st c = Some (ctx_state k)" using assms(2) by (simp add: state_of_def)
      moreover have "\<not> terminal (Some (ctx_state k))" using IsShutdown_iff [OF assms(2)] assms(4) calculation by simp
      ultimately show ?thesis using True so ac by (auto simp: told_def within_def IsRunning_def)
    next
      case False
      then have e': "edge st p d" using e par alive by (auto simp: edge_def)
      then have "p \<noteq> a" using fresh_not_child(2) [OF tr assms(3)] by (auto simp: edge_def GetParentContext_def)
      then show ?thesis using e' life so False by (simp add: life_ok_def told_def within_def)
    qed
    then show "told st' p d" "within st' p d" by auto
  qed
  moreover have "\<forall>d. contexts st' d \<noteq> None \<longrightarrow> (GetParentContext st' d = None \<longleftrightarrow> d = global)"
    "contexts st' global \<noteq> None"
    using assms(1-3) par alive by (auto simp: ctx_inv_def)
  ultimately have "ctx_inv global st'" using tr' by (simp add: ctx_inv_def)
  moreover have "CreateInternal c a sigil st = Some (Inr st')"
    using assms(2,4) bs by (simp add: CreateInternal_def BroadcastContextCreationNotice_def st'_def)
  ultimately show ?thesis using par so by auto
qed

subsection \<open>Destruction\<close>

text \<open>A context is held by its children, so only one without live children is destroyed.\<close>

lemma destroy_context_ok:
  fixes st :: "'a ContextStore_scheme"
  assumes "ctx_inv global st" "live_children st c = []" "c \<noteq> global"
  shows "ctx_inv global (destroy_context c st)"
proof (cases "contexts st c")
  case None
  then show ?thesis using assms(1) by (simp add: destroy_context_def)
next
  case (Some k)
  have tr: "tree_ok st" and life: "life_ok st {} {}" using assms(1) by (auto simp: ctx_inv_def)
  from assms(1,3) Some obtain p where p: "m_pParent k = Some p"
    by (auto simp: ctx_inv_def GetParentContext_def)
  from tree_ok_parent [OF tr Some p] obtain kp where kp: "contexts st p = Some kp"
    "AncestorCount k = Suc (AncestorCount kp)" by auto
  have pc: "p \<noteq> c" using kp Some by auto
  let ?kp = "kp\<lparr>m_children := filter (\<lambda>w. w \<noteq> Some c) (m_children kp)\<rparr>"
  let ?st = "destroy_context c st"
  have cx: "contexts ?st = (contexts st)(p \<mapsto> ?kp, c := None)"
    using Some p kp by (simp add: destroy_context_def)
  have orphan: "m_pParent kd \<noteq> Some c" if "contexts st d = Some kd" for d kd
    using that assms(2) live_children_iff [OF tr, of d c] by (auto simp: GetParentContext_def)
  have par: "d \<noteq> c \<Longrightarrow> GetParentContext ?st d = GetParentContext st d" for d
    using cx kp pc by (auto simp: GetParentContext_def)
  have so: "d \<noteq> c \<Longrightarrow> state_of ?st d = state_of st d" for d using cx kp by (auto simp: state_of_def)
  have sub: "\<exists>kd'. contexts st d = Some kd' \<and> d \<noteq> c \<and> m_pParent kd' = m_pParent kd \<and> AncestorCount kd' = AncestorCount kd \<and>
      set (m_children kd) = set (m_children kd') - (if d = p then {Some c} else {})"
    if "contexts ?st d = Some kd" for d kd
    using that cx kp by (auto split: if_splits)
  have "tree_ok ?st"
    unfolding tree_ok_def
  proof (intro conjI allI impI)
    show "finite (dom (contexts ?st))" using tr cx by (simp add: tree_ok_def)
    fix d kd assume d: "contexts ?st d = Some kd"
    from sub [OF d] obtain kd' where kd': "contexts st d = Some kd'" "d \<noteq> c" "m_pParent kd' = m_pParent kd"
      "AncestorCount kd' = AncestorCount kd"
      "set (m_children kd) = set (m_children kd') - (if d = p then {Some c} else {})" by blast
    have x: "contexts ?st x \<noteq> None \<and> GetParentContext ?st x = Some d" if "Some x \<in> set (m_children kd)" for x
    proof -
      have x: "contexts st x \<noteq> None" "GetParentContext st x = Some d"
        using tree_ok_child [OF tr kd'(1), of x] that kd'(5) by auto
      have "x \<noteq> c"
      proof
        assume "x = c"
        then have "d = p" using x(2) Some p by (simp add: GetParentContext_def)
        then show False using that kd'(5) \<open>x = c\<close> by simp
      qed
      then show ?thesis using x par [of x] cx kp by auto
    qed
    show "contexts ?st x \<noteq> None" "GetParentContext ?st x = Some d" if "Some x \<in> set (m_children kd)" for x
      using x [OF that] by auto
    show "case m_pParent kd of None \<Rightarrow> AncestorCount kd = 0
      | Some q \<Rightarrow> \<exists>kq. contexts ?st q = Some kq \<and> Some d \<in> set (m_children kq) \<and> AncestorCount kd = Suc (AncestorCount kq)"
    proof (cases "m_pParent kd")
      case None
      then show ?thesis using tr kd' by (force simp: tree_ok_def)
    next
      case (Some q)
      then have "q \<noteq> c" using orphan [OF kd'(1)] kd'(3) by auto
      then show ?thesis
        using tree_ok_parent [OF tr kd'(1), of q] Some kd'(2-4) cx kp by auto
    qed
  qed
  moreover have "life_ok ?st {} {}"
    unfolding life_ok_def
  proof (intro allI impI conjI)
    fix q d assume "edge ?st q d"
    then have d: "d \<noteq> c" "edge st q d" using cx par kp by (auto simp: edge_def split: if_splits)
    then have "q \<noteq> c" using orphan by (auto simp: edge_def GetParentContext_def)
    then show "told ?st q d" "within ?st q d" using d life so by (simp_all add: life_ok_def told_def within_def)
  qed
  moreover have "\<forall>d. contexts ?st d \<noteq> None \<longrightarrow> (GetParentContext ?st d = None \<longleftrightarrow> d = global)"
  proof (intro allI impI)
    fix d assume "contexts ?st d \<noteq> None"
    then have "d \<noteq> c" "contexts st d \<noteq> None" using cx kp by (auto split: if_splits)
    then show "GetParentContext ?st d = None \<longleftrightarrow> d = global" using assms(1) par by (simp add: ctx_inv_def)
  qed
  moreover have "contexts ?st global \<noteq> None" using cx assms(1,3) by (auto simp: ctx_inv_def)
  ultimately show ?thesis by (simp add: ctx_inv_def)
qed

section \<open>Reachable trees\<close>

text \<open>
  A context can be destroyed only when nothing holds it: its children hold it as their parent, and a
  runnable that has been started holds the run counter, which holds the context.
\<close>

inductive ctx_step :: "addr \<Rightarrow> (addr \<Rightarrow> bool) \<Rightarrow> ContextStore \<Rightarrow> ContextStore \<Rightarrow> bool" for global onStart where
  initiate: "runnables st hold = None \<Longrightarrow> Initiate onStart hold c st = Some st' \<Longrightarrow> ctx_step global onStart st st'"
| shutdown: "SignalShutdown graceful c st = Some st' \<Longrightarrow> ctx_step global onStart st st'"
| create: "contexts st a = None \<Longrightarrow> CreateInternal c a sigil st = Some (Inr st') \<Longrightarrow> ctx_step global onStart st st'"
| runnable: "runnables st r = None \<Longrightarrow>
    ctx_step global onStart st (AddCoreRunnable onStart c r (st\<lparr>runnables := (runnables st)(r \<mapsto> runnable_new)\<rparr>))"
| bolt: "AddBolt b sigils c st = Some st' \<Longrightarrow> ctx_step global onStart st st'"
| destroy: "live_children st c = [] \<Longrightarrow> c \<noteq> global \<Longrightarrow>
    \<forall>r k. runnables st r = Some k \<longrightarrow> m_outstanding k \<noteq> Some c \<Longrightarrow>
    ctx_step global onStart st (destroy_context c st)"

inductive ctx_reach :: "addr \<Rightarrow> (addr \<Rightarrow> bool) \<Rightarrow> ContextStore \<Rightarrow> bool" for global onStart where
  start: "ctx_reach global onStart
    \<lparr>contexts = [global \<mapsto> context_new None sigil \<lparr>contexts = Map.empty, runnables = Map.empty, log = []\<rparr>],
     runnables = Map.empty, log = []\<rparr>"
| step: "ctx_reach global onStart st \<Longrightarrow> ctx_step global onStart st st' \<Longrightarrow> ctx_reach global onStart st'"

inductive_cases ctx_stepE: "ctx_step global onStart st st'"

lemma CreateInternal_Inr:
  "CreateInternal c a sigil st = Some (Inr st') \<Longrightarrow> \<exists>k. contexts st c = Some k \<and> \<not> IsShutdown k"
  by (auto simp: CreateInternal_def split: option.splits if_splits)

lemma ctx_step_inv: "ctx_step global onStart st st' \<Longrightarrow> ctx_inv global st \<Longrightarrow> ctx_inv global st'"
proof (erule ctx_stepE)
  fix hold c assume "ctx_inv global st" "Initiate onStart hold c st = Some st'"
  then show ?thesis using Initiate_ok [of global st onStart hold c] by auto
next
  fix graceful c assume "ctx_inv global st" "SignalShutdown graceful c st = Some st'"
  then show ?thesis using SignalShutdown_ok [of global st graceful c] by auto
next
  fix a c sigil assume "ctx_inv global st" "contexts st a = None" "CreateInternal c a sigil st = Some (Inr st')"
  then show ?thesis using CreateInternal_Inr [of c a sigil st st'] CreateInternal_ok [of global st c _ a sigil] by auto
next
  fix r c assume "ctx_inv global st"
    "st' = AddCoreRunnable onStart c r (st\<lparr>runnables := (runnables st)(r \<mapsto> runnable_new)\<rparr>)"
  moreover have "shape (st\<lparr>runnables := rs\<rparr>) = shape st" "state_of (st\<lparr>runnables := rs\<rparr>) = state_of st" for rs
    by (simp_all add: shape_def state_of_def fun_eq_iff)
  ultimately show ?thesis by (auto intro!: ctx_inv_frame [of global st])
next
  fix b sigils c assume "ctx_inv global st" "AddBolt b sigils c st = Some st'"
  then show ?thesis using ctx_inv_frame AddBolt_frame by blast
next
  fix c assume "ctx_inv global st" "live_children st c = []" "c \<noteq> global" "st' = destroy_context c st"
  then show ?thesis by (simp add: destroy_context_ok)
qed

lemma ctx_reach_inv: "ctx_reach global onStart st \<Longrightarrow> ctx_inv global st"
proof (induction rule: ctx_reach.induct)
  case (start sigil)
  show ?case
    by (auto simp: ctx_inv_def tree_ok_def life_ok_def edge_def GetParentContext_def context_new_def)
qed (rule ctx_step_inv)

text \<open>
  C7.  In every tree of contexts reachable from a lone global context by creating, initiating,
  shutting down and destroying contexts and adding runnables and bolts to them: initiating or shutting down any context returns; a context
  with a running parent is not left waiting; a context that runs or may run has a running parent;
  and below a context that has been shut down everything has been shut down.
\<close>

theorem context_tree_life_cycle:
  assumes "ctx_reach global onStart st"
  shows "(\<exists>st1. Initiate onStart hold c st = Some st1) \<and> (\<exists>st2. SignalShutdown graceful c st = Some st2) \<and>
    (\<forall>d k kp p. contexts st d = Some k \<longrightarrow> m_pParent k = Some p \<longrightarrow> contexts st p = Some kp \<longrightarrow>
       (ctx_state kp = Running \<longrightarrow> ctx_state k \<noteq> NotStarted \<and> ctx_state k \<noteq> Initiated) \<and>
       (ctx_state k = Running \<or> ctx_state k = CanRun \<longrightarrow> ctx_state kp = Running) \<and>
       (IsShutdown kp \<longrightarrow> IsShutdown k))"
proof -
  have inv: "ctx_inv global st" by (rule ctx_reach_inv [OF assms])
  have "told st p d \<and> within st p d" if "contexts st d = Some k" "m_pParent k = Some p" for d k p
    using inv that by (auto simp: ctx_inv_def life_ok_def edge_def GetParentContext_def)
  then show ?thesis
    using Initiate_ok [OF inv, of onStart hold c] SignalShutdown_ok [OF inv, of graceful c] IsShutdown_iff [of st]
    by (fastforce simp: told_def within_def state_of_def)
qed

theorem context_tree_life_cycle_witness:
  "\<exists>st. ctx_reach 0 (\<lambda>_. True) st \<and> contexts st 1 \<noteq> None \<and>
     (\<exists>st1. Initiate (\<lambda>_. True) 7 1 st = Some st1) \<and> (\<exists>st2. SignalShutdown False 0 st = Some st2)"
proof -
  let ?st = "\<lparr>contexts = [0 \<mapsto> context_new None 0 \<lparr>contexts = Map.empty, runnables = Map.empty, log = []\<rparr>],
     runnables = Map.empty, log = []\<rparr>"
  let ?st' = "the (case_sum Map.empty Some (the (CreateInternal 0 1 5 ?st)))"
  have "CreateInternal 0 1 5 ?st = Some (Inr ?st')"
    by (simp add: CreateInternal_def context_new_def IsShutdown_def BroadcastContextCreationNotice_def Let_def
        creation_notice.simps listeners_def emit_def)
  moreover have "contexts ?st' 1 \<noteq> None"
    by (simp add: CreateInternal_def context_new_def IsShutdown_def BroadcastContextCreationNotice_def Let_def
        creation_notice.simps listeners_def emit_def)
  ultimately have "ctx_reach 0 (\<lambda>_. True) ?st'" "contexts ?st' 1 \<noteq> None"
    using ctx_reach.step [OF ctx_reach.start [of 0 _ 0] ctx_step.create [of _ 1 0 5 ?st']] by simp_all
  moreover note context_tree_life_cycle [OF calculation(1), of 7 1 False]
    context_tree_life_cycle [OF calculation(1), of 7 0 False]
  ultimately show ?thesis by blast
qed

end
