(* ===== verification/Context_Quiescence.thy ===== *)
theory Context_Quiescence
  imports Core_Context_Props
begin

text \<open>
  The runnables of a tree of contexts: which ones hold a run counter, and that shutting a context down
  stops them all, so that \<open>CoreContext::Wait\<close> returns.
\<close>

section \<open>Who holds a run counter\<close>

text \<open>
  Only a runnable in the thread list of a running context holds its counter; the contexts in \<open>X\<close> are
  being shut down and have yet to stop their threads.
\<close>

definition run_ok :: "addr set \<Rightarrow> 'a ContextStore_scheme \<Rightarrow> bool" where
  "run_ok X st \<longleftrightarrow>
     (\<forall>r k c. runnables st r = Some k \<longrightarrow> m_outstanding k = Some c \<longrightarrow>
        (\<exists>kc. contexts st c = Some kc \<and> r \<in> set (m_threads kc) \<and> (ctx_state kc = Running \<or> c \<in> X))) \<and>
     (\<forall>c kc. contexts st c = Some kc \<longrightarrow> \<not> m_beforeRunning kc)"

lemma emit_runnables [simp]: "runnables (emit evs st) = runnables st"
  by (simp add: emit_def)

lemma set_state_runnables [simp]: "runnables (set_state c s st) = runnables st"
  by (simp add: set_state_def)


lemma run_ok_emit [simp]: "run_ok X (emit evs st) \<longleftrightarrow> run_ok X st"
  by (simp add: run_ok_def)




subsection \<open>Starting\<close>






subsection \<open>Stopping\<close>

lemma runnable_Stop_outstanding [simp]: "m_outstanding (snd (runnable_Stop graceful r k)) = None"
  by (simp add: runnable_Stop_def)







section \<open>Every operation\<close>










section \<open>Shutdown quiesces\<close>




end
