(* ===== verification/Context_Enumerator_Props.thy ===== *)
theory Context_Enumerator_Props
  imports Core_Context_Props
begin

text \<open>
  \<open>ContextEnumerator\<close>: which contexts an enumeration visits, and in which order; and which bolts
  learn of which contexts.
\<close>

section \<open>Children without repetition\<close>

definition kids_distinct :: "'a ContextStore_scheme \<Rightarrow> bool" where
  "kids_distinct st \<longleftrightarrow> (\<forall>c k. contexts st c = Some k \<longrightarrow> distinct (m_children k))"

lemma kids_distinct_shape: "shape st' = shape st \<Longrightarrow> kids_distinct st \<Longrightarrow> kids_distinct st'"
  unfolding kids_distinct_def using shape_Some [of st' st] by fastforce

lemma transition_each_shape: "transition_each onStart cs st = Some st' \<Longrightarrow> shape st' = shape st"
proof (induction rule: transition_each.raw_induct [rotated, consumes 1])
  case (1 rec onStart cs st st')
  have run: "shape (emit evs (start_threads onStart c (set_state c s st))) = shape st" for evs c s
    using shape_contexts_cong [of "emit evs (start_threads onStart c (set_state c s st))" "set_state c s st"] by simp
  show ?case
  proof (cases cs)
    case (Cons c cs')
    show ?thesis
      using 1 Cons run by (cases "map_option ctx_state (contexts st c)"; cases "the (map_option ctx_state (contexts st c))")
        (auto simp: bind_eq_Some_conv)
  qed (use 1 in simp)
qed

lemma shutdown_each_shape: "shutdown_each graceful cs st = Some st' \<Longrightarrow> shape st' = shape st"
proof (induction rule: shutdown_each.raw_induct [rotated, consumes 1])
  case (1 rec graceful cs st st')
  have stop: "shape (stop_threads graceful c st1) = shape st1" "shape (emit evs st1) = shape st1"
    for c evs and st1 :: "'a ContextStore_scheme"
    by (rule shape_contexts_cong, simp)+
  show ?case
  proof (cases cs)
    case (Cons c cs')
    show ?thesis
    proof (cases "contexts st c")
      case None
      then show ?thesis using 1 Cons by simp
    next
      case (Some k)
      then show ?thesis using 1 Cons stop by (cases "IsShutdown k") (auto simp: bind_eq_Some_conv)
    qed
  qed (use 1 in simp)
qed

lemma Initiate_shape: "Initiate onStart hold c st = Some st' \<Longrightarrow> shape st' = shape st"
proof -
  assume i: "Initiate onStart hold c st = Some st'"
  have e: "shape (emit evs st1) = shape st1" "shape (start_threads onStart c st1) = shape st1"
    for c evs and st1 :: "'a ContextStore_scheme"
    by (rule shape_contexts_cong, simp)+
  show ?thesis
  proof (cases "contexts st c")
    case (Some k)
    then show ?thesis
      using i by (cases "ctx_state k") (auto simp: Initiate_def IsInitiated_def TryTransitionChildrenState_def e
        dest!: transition_each_shape split: if_splits)
  qed (use i in \<open>simp add: Initiate_def\<close>)
qed

lemma kids_distinct_create:
  assumes "kids_distinct st" "tree_ok st" "contexts st a = None" "CreateInternal c a sigil st = Some (Inr st')"
  shows "kids_distinct st'"
proof -
  obtain k where k: "contexts st c = Some k" using CreateInternal_Inr [OF assms(4)] by blast
  have "Some a \<notin> set (m_children k)" using tree_ok_child [OF assms(2) k, of a] assms(3) by auto
  then have "distinct (m_children k @ [Some a])" using assms(1) k by (simp add: kids_distinct_def)
  then show ?thesis
    using assms(1,4) k by (auto simp: kids_distinct_def CreateInternal_def BroadcastContextCreationNotice_def
      context_new_def Let_def split: if_splits)
qed

lemma ctx_reach_distinct: "ctx_reach global onStart st \<Longrightarrow> kids_distinct st"
proof (induction rule: ctx_reach.induct)
  case (start sigil)
  show ?case by (simp add: kids_distinct_def context_new_def)
next
  case (step st st')
  from step(2) show ?case
  proof (cases rule: ctx_step.cases)
    case (initiate hold c) then show ?thesis using step.IH Initiate_shape kids_distinct_shape by blast
  next
    case (shutdown graceful c)
    then show ?thesis using step.IH shutdown_each_shape kids_distinct_shape unfolding SignalShutdown_def by blast
  next
    case (create a c sigil)
    then show ?thesis using step.IH kids_distinct_create ctx_reach_inv [OF step(1)] unfolding ctx_inv_def by blast
  next
    case (runnable r c)
    have "shape (st\<lparr>runnables := rs\<rparr>) = shape st" for rs by (simp add: shape_def fun_eq_iff)
    then have "shape st' = shape st" using runnable by simp
    then show ?thesis using step.IH kids_distinct_shape by blast
  next
    case (bolt b sigils c) then show ?thesis using step.IH AddBolt_frame kids_distinct_shape by blast
  next
    case (destroy c)
    then show ?thesis
      using step.IH by (auto simp: kids_distinct_def destroy_context_def Let_def split: option.splits if_splits)
  qed
qed

section \<open>The subtree of a context\<close>

text \<open>\<open>visits st cs xs\<close>: the contexts at and below \<open>cs\<close>, parents before children and siblings in order.\<close>

inductive visits :: "'a ContextStore_scheme \<Rightarrow> addr list \<Rightarrow> addr list \<Rightarrow> bool" for st where
  none: "visits st [] []"
| sub: "visits st (live_children st c) xs \<Longrightarrow> visits st cs ys \<Longrightarrow> visits st (c # cs) (c # xs @ ys)"

lemma visits_exist:
  assumes "tree_ok st"
  shows "\<forall>c \<in> set cs. height_bound st - level st c \<le> n \<Longrightarrow> \<exists>xs. visits st cs xs"
proof (induction n arbitrary: cs)
  case 0
  then have "cs = []" using level_less_bound [OF assms] by (cases cs) (auto simp: diff_is_0_eq not_le [symmetric])
  then show ?case using visits.none by blast
next
  case (Suc n)
  then show ?case
  proof (induction cs)
    case (Cons c cs)
    have "height_bound st - level st d \<le> n" if "d \<in> set (live_children st c)" for d
      using live_children_level [OF assms that] Cons.prems(2) by auto
    then obtain xs where "visits st (live_children st c) xs" using Cons.prems(1) by blast
    moreover obtain ys where "visits st cs ys" using Cons by auto
    ultimately show ?case using visits.sub by blast
  qed (use visits.none in blast)
qed

lemma edge_iff_live: "tree_ok st \<Longrightarrow> edge st c d \<longleftrightarrow> d \<in> set (live_children st c)"
  by (auto simp: edge_def live_children_iff)

lemma below_unfold: "(edge st)\<^sup>*\<^sup>* c d \<longleftrightarrow> d = c \<or> (\<exists>e. edge st c e \<and> (edge st)\<^sup>*\<^sup>* e d)"
  by (metis converse_rtranclpE converse_rtranclp_into_rtranclp rtranclp.rtrancl_refl)

lemma visits_set:
  "visits st cs xs \<Longrightarrow> tree_ok st \<Longrightarrow> set xs = {d. \<exists>c \<in> set cs. (edge st)\<^sup>*\<^sup>* c d}"
proof (induction rule: visits.induct)
  case (sub c xs cs ys)
  have "{d. (edge st)\<^sup>*\<^sup>* c d} = insert c (set xs)"
    using sub.IH(1) [OF sub.prems] edge_iff_live [OF sub.prems, of c] below_unfold [of st c] by auto
  then show ?case using sub.IH(2) [OF sub.prems] by auto
qed simp

lemma edge_level: "tree_ok st \<Longrightarrow> edge st c d \<Longrightarrow> level st d = Suc (level st c)"
  using live_children_level edge_iff_live by blast

lemma below_level: "(edge st)\<^sup>*\<^sup>* c d \<Longrightarrow> tree_ok st \<Longrightarrow> level st c \<le> level st d"
  by (induction rule: rtranclp_induct) (auto dest: edge_level)

lemma below_unique:
  "(edge st)\<^sup>*\<^sup>* c d \<Longrightarrow> tree_ok st \<Longrightarrow> (edge st)\<^sup>*\<^sup>* c' d \<Longrightarrow> level st c = level st c' \<Longrightarrow> c = c'"
proof (induction rule: rtranclp_induct)
  case base
  from base(2) show ?case
  proof (cases rule: rtranclp.cases)
    case (rtrancl_into_rtrancl e)
    then show ?thesis using below_level [of st c' e] edge_level [of st e c] base by auto
  qed simp
next
  case (step y z)
  from step.prems(2) show ?case
  proof (cases rule: rtranclp.cases)
    case rtrancl_refl
    then show ?thesis using below_level [OF step(1)] edge_level [OF _ step(2)] step.prems by auto
  next
    case (rtrancl_into_rtrancl e)
    then have "e = y" using step(2) by (auto simp: edge_def)
    then show ?thesis using step.IH step.prems rtrancl_into_rtrancl by blast
  qed
qed

lemma distinct_lock_all: "distinct ws \<Longrightarrow> distinct (lock_all st ws)"
  by (induction ws) (auto simp: set_lock_all split: option.splits)

lemma distinct_live_children: "kids_distinct st \<Longrightarrow> distinct (live_children st c)"
  by (auto simp: live_children_def kids_distinct_def distinct_lock_all split: option.splits)

lemma visits_distinct:
  "visits st cs xs \<Longrightarrow> tree_ok st \<Longrightarrow> kids_distinct st \<Longrightarrow> distinct cs \<Longrightarrow>
   \<forall>c \<in> set cs. \<forall>d \<in> set cs. level st c = level st d \<Longrightarrow> distinct xs"
proof (induction rule: visits.induct)
  case (sub c xs cs ys)
  have kids: "level st d = Suc (level st c)" if "d \<in> set (live_children st c)" for d
    by (rule live_children_level [OF sub.prems(1) that])
  then have xs: "distinct xs" using sub.IH(1) sub.prems(1,2) distinct_live_children [OF sub.prems(2), of c] by simp
  have ys: "distinct ys" by (rule sub.IH(2)) (use sub.prems(1-3) in \<open>simp_all add: sub.prems(4) [rule_format]\<close>)
  have sx: "set xs = {d. \<exists>e \<in> set (live_children st c). (edge st)\<^sup>*\<^sup>* e d}"
    and sy: "set ys = {d. \<exists>e \<in> set cs. (edge st)\<^sup>*\<^sup>* e d}"
    using visits_set sub(1,2) sub.prems(1) by blast+
  have "c \<notin> set xs"
  proof
    assume "c \<in> set xs"
    then obtain e where "e \<in> set (live_children st c)" "(edge st)\<^sup>*\<^sup>* e c" using sx by blast
    then show False using kids [of e] below_level [of st e c] sub.prems(1) by simp
  qed
  moreover have "d \<notin> set ys" if "(edge st)\<^sup>*\<^sup>* c d" for d
  proof
    assume "d \<in> set ys"
    then obtain e where e: "e \<in> set cs" "(edge st)\<^sup>*\<^sup>* e d" using sy by blast
    moreover have "level st c = level st e" by (rule sub.prems(4) [rule_format]) (use e(1) in simp_all)
    ultimately have "c = e" using below_unique [OF that sub.prems(1)] by blast
    then show False using e(1) sub.prems(3) by simp
  qed
  moreover have "(edge st)\<^sup>*\<^sup>* c d" if "d \<in> set xs" for d
  proof -
    have "\<exists>e \<in> set (live_children st c). (edge st)\<^sup>*\<^sup>* e d" using that unfolding sx by simp
    then obtain e where e: "e \<in> set (live_children st c)" "(edge st)\<^sup>*\<^sup>* e d" ..
    have "edge st c e" using e(1) edge_iff_live [OF sub.prems(1), of c e] by simp
    then show ?thesis using e(2) by (rule converse_rtranclp_into_rtranclp)
  qed
  ultimately show ?case using xs ys by auto
qed simp

section \<open>The iterator\<close>

lemma first_lock_hd: "first_lock st ws = (case lock_all st ws of [] \<Rightarrow> None | a # _ \<Rightarrow> Some a)"
  by (induction ws) (auto split: option.splits)

lemma FirstChild_live: "FirstChild st c = (case live_children st c of [] \<Rightarrow> None | a # _ \<Rightarrow> Some a)"
  by (simp add: FirstChild_def live_children_def first_lock_hd split: option.splits)

lemma lock_all_after:
  "distinct ws \<Longrightarrow> lock_all st ws = as @ c # bs \<Longrightarrow> lock_all st (after (Some c) ws) = bs"
proof (induction ws arbitrary: as)
  case (Cons w ws)
  show ?case
  proof (cases "w = Some c")
    case True
    then have c: "contexts st c \<noteq> None" "c \<notin> set (lock_all st ws)"
      using Cons.prems set_lock_all [of st "w # ws"] by (auto simp: set_lock_all)
    then have "as = []" using Cons.prems(2) True by (cases as) auto
    then show ?thesis using Cons.prems(2) True c by simp
  next
    case False
    then obtain as' where "lock_all st ws = as' @ c # bs"
      using Cons.prems(2) by (cases w; cases as) (auto split: if_splits)
    then show ?thesis using Cons False by simp
  qed
qed simp

lemma NextSibling_live:
  assumes "tree_ok st" "kids_distinct st" "live_children st p = as @ c # bs"
  shows "NextSibling st c = (case bs of [] \<Rightarrow> None | d # _ \<Rightarrow> Some d)" "GetParentContext st c = Some p"
proof -
  show g: "GetParentContext st c = Some p" using live_children_iff [OF assms(1), of c p] assms(3) by simp
  obtain k where k: "contexts st p = Some k" using assms(3) by (cases "contexts st p") (auto simp: live_children_def)
  then have "lock_all st (after (Some c) (m_children k)) = bs"
    using lock_all_after [of "m_children k" st as c bs] assms(2,3) by (simp add: kids_distinct_def live_children_def)
  then show "NextSibling st c = (case bs of [] \<Rightarrow> None | d # _ \<Rightarrow> Some d)"
    using g k by (simp add: NextSibling_def first_lock_hd)
qed

lemma ascend_found [simp]: "ascend st (Some i) cur = Some (Some i, cur)"
  by (subst ascend.simps) simp

lemma ascend_top [simp]: "ascend st None None = Some (None, None)"
  by (subst ascend.simps) simp

lemma ascend_up: "ascend st None (Some c) = ascend st (NextSibling st c) (GetParentContext st c)"
  by (subst ascend.simps) simp

lemma visit_from_None [simp]: "visit_from st m_root None = Some []"
  by (subst visit_from.simps) simp

lemma visit_from_Some:
  "visit_from st m_root (Some c) = Option.bind (iterator_inc st m_root c)
     (\<lambda>n. Option.bind (visit_from st m_root n) (\<lambda>cs. Some (c # cs)))"
  by (subst visit_from.simps) simp

text \<open>
  Below a context \<open>p\<close>: once the visit has gone through \<open>cs\<close> and everything below, it goes on where it
  would go on after \<open>p\<close>.
\<close>

lemma visit_children:
  assumes "tree_ok st" "kids_distinct st"
  shows "visits st cs xs \<Longrightarrow> live_children st p = as @ cs \<Longrightarrow> m_root \<noteq> Some p \<Longrightarrow> m_root \<notin> Some ` set xs \<Longrightarrow>
    iterator_next st m_root None p = Some n \<Longrightarrow> visit_from st m_root n = Some rest \<Longrightarrow>
    visit_from st m_root (case cs of [] \<Rightarrow> n | c # _ \<Rightarrow> Some c) = Some (xs @ rest)"
proof (induction arbitrary: p as n rest rule: visits.induct)
  case (sub c xs cs ys)
  have sib: "NextSibling st c = (case cs of [] \<Rightarrow> None | d # _ \<Rightarrow> Some d)" "GetParentContext st c = Some p"
    by (rule NextSibling_live [OF assms sub.prems(1)])+
  let ?n = "case cs of [] \<Rightarrow> n | d # _ \<Rightarrow> Some d"
  have next_c: "iterator_next st m_root None c = Some ?n"
    using sib sub.prems(2,4) by (cases cs) (auto simp: iterator_next_def ascend_up)
  have rest: "visit_from st m_root ?n = Some (ys @ rest)"
    using sub.IH(2) [of p "as @ [c]" n rest] sub.prems by auto
  have kids: "visit_from st m_root (case live_children st c of [] \<Rightarrow> ?n | d # _ \<Rightarrow> Some d) = Some (xs @ ys @ rest)"
    by (rule sub.IH(1) [of c "[]", OF _ _ _ next_c rest]) (use sub.prems in auto)
  moreover have "iterator_inc st m_root c = Some (case live_children st c of [] \<Rightarrow> ?n | d # _ \<Rightarrow> Some d)"
    using next_c sub.prems(3) by (cases "live_children st c") (auto simp: iterator_inc_def iterator_next_def FirstChild_live)
  ultimately show ?case by (simp add: visit_from_Some)
qed simp

lemma visit_subtree:
  assumes "tree_ok st" "kids_distinct st" "visits st (live_children st c) xs" "m_root \<noteq> Some c"
    "m_root \<notin> Some ` set xs" "iterator_next st m_root None c = Some None"
  shows "visit_from st m_root (Some c) = Some (c # xs)"
proof -
  let ?n = "case live_children st c of [] \<Rightarrow> None | d # _ \<Rightarrow> Some d"
  have "visit_from st m_root ?n = Some (xs @ [])"
    by (rule visit_children [OF assms(1-3), of c "[]", OF _ assms(4-6)]) simp_all
  moreover have "iterator_inc st m_root c = Some ?n"
    using assms(4,6) by (cases "live_children st c") (auto simp: iterator_inc_def iterator_next_def FirstChild_live)
  ultimately show ?thesis by (simp add: visit_from_Some)
qed

lemma IsAncestorOf_below:
  assumes "tree_ok st"
  shows "IsAncestorOf st c d = Some ((edge st)\<^sup>*\<^sup>* c d)"
  unfolding IsAncestorOf_def
proof (induction "level st d" arbitrary: d rule: less_induct)
  case less
  have walk: "ancestor_walk st c (Some d) = (if d = c then Some True else ancestor_walk st c (GetParentContext st d))"
    by (subst ancestor_walk.simps) simp
  show ?case
  proof (cases "GetParentContext st d")
    case None
    then have "(edge st)\<^sup>*\<^sup>* c d \<longleftrightarrow> d = c" by (metis edge_def option.distinct(1) rtranclp.cases rtranclp.rtrancl_refl)
    then show ?thesis using walk None by (simp add: ancestor_walk.simps [of st c None])
  next
    case (Some p)
    then have e: "edge st p d" by (auto simp: edge_def GetParentContext_def split: option.splits)
    then have "level st p < level st d" using edge_level [OF assms e] by simp
    from less [OF this] have "ancestor_walk st c (Some p) = Some ((edge st)\<^sup>*\<^sup>* c p)" .
    moreover have "(edge st)\<^sup>*\<^sup>* c d \<longleftrightarrow> d = c \<or> (edge st)\<^sup>*\<^sup>* c p"
      using e Some by (metis edge_def option.inject rtranclp.simps)
    ultimately show ?thesis using walk Some by simp
  qed
qed

text \<open>
  C9.  In a reachable tree, enumerating from the global context, or from a context that has a next
  sibling, returns after visiting exactly the contexts at and below it: each one once, parents before
  children and siblings in the order of their creation.
\<close>

theorem enumerate_contexts_preorder:
  assumes "ctx_reach global onStart st" "contexts st c \<noteq> None" "c = global \<or> NextSibling st c \<noteq> None"
  shows "\<exists>xs. enumerate_contexts st c = Some xs \<and> visits st [c] xs \<and> distinct xs \<and>
    set xs = {d. IsAncestorOf st c d = Some True}"
proof -
  have inv: "ctx_inv global st" and dis: "kids_distinct st"
    using ctx_reach_inv ctx_reach_distinct assms(1) by blast+
  then have tr: "tree_ok st" by (simp add: ctx_inv_def)
  obtain xs where xs: "visits st (live_children st c) xs"
    using visits_exist [OF tr, of "live_children st c" "height_bound st"] by auto
  then have all: "visits st [c] (c # xs)" using visits.sub [OF xs visits.none] by simp
  have set: "set (c # xs) = {d. (edge st)\<^sup>*\<^sup>* c d}" using visits_set [OF all tr] by simp
  have out: "GetParentContext st c \<noteq> Some d" if "(edge st)\<^sup>*\<^sup>* c d" for d
  proof
    assume "GetParentContext st c = Some d"
    then have "edge st d c" using assms(2) by (simp add: edge_def)
    then show False using edge_level [OF tr] below_level [OF that tr] by fastforce
  qed
  have "iterator_next st (GetParentContext st c) None c = Some None"
    using assms(3)
  proof
    assume "c = global"
    then have "GetParentContext st c = None" using inv assms(2) by (simp add: ctx_inv_def)
    then show ?thesis by (simp add: iterator_next_def ascend_up NextSibling_def)
  qed (auto simp: iterator_next_def ascend_up)
  then have "enumerate_contexts st c = Some (c # xs)"
    unfolding enumerate_contexts_def
    by (intro visit_subtree [OF tr dis xs]) (use out set in auto)
  moreover have "distinct (c # xs)" by (rule visits_distinct [OF all tr dis]) simp_all
  ultimately show ?thesis using all set IsAncestorOf_below [OF tr, of c] by auto
qed

section \<open>A tree of four contexts\<close>

text \<open>The global context 0 with the children 1 and 2, and 3 below 1.\<close>

definition created :: "addr \<Rightarrow> addr \<Rightarrow> nat \<Rightarrow> ContextStore \<Rightarrow> ContextStore" where
  "created c a sigil st = (case CreateInternal c a sigil st of Some (Inr st') \<Rightarrow> st' | _ \<Rightarrow> st)"

definition lone :: ContextStore where
  "lone = \<lparr>contexts = [0 \<mapsto> context_new None 0 \<lparr>contexts = Map.empty, runnables = Map.empty, log = []\<rparr>],
     runnables = Map.empty, log = []\<rparr>"

definition four :: ContextStore where
  "four = created 1 3 5 (created 0 2 6 (created 0 1 5 lone))"

lemma created_reach:
  assumes "ctx_reach global onStart st" "contexts st a = None"
  shows "ctx_reach global onStart (created c a sigil st)"
proof (cases "\<exists>st'. CreateInternal c a sigil st = Some (Inr st')")
  case True
  then show ?thesis
    using ctx_reach.step [OF assms(1) ctx_step.create [OF assms(2)]] by (auto simp: created_def)
next
  case False
  then have "created c a sigil st = st" by (auto simp: created_def split: option.splits sum.splits)
  then show ?thesis using assms(1) by simp
qed

lemma four_contexts:
  "contexts four = [0 \<mapsto> (context_new None 0 lone)\<lparr>m_children := [Some 1, Some 2]\<rparr>,
     1 \<mapsto> (context_new (Some 0) 5 lone)\<lparr>m_children := [Some 3]\<rparr>, 2 \<mapsto> context_new (Some 0) 6 lone,
     3 \<mapsto> (context_new (Some 0) 5 lone)\<lparr>m_pParent := Some 1, AncestorCount := 2\<rparr>]"
  by (simp add: four_def lone_def created_def CreateInternal_def context_new_def IsShutdown_def IsRunning_def
    BroadcastContextCreationNotice_def creation_notice.simps listeners_def emit_def Let_def fun_eq_iff)

lemma four_reach: "ctx_reach 0 onStart four"
proof -
  have "ctx_reach 0 onStart lone" unfolding lone_def by (rule ctx_reach.start)
  then have "ctx_reach 0 onStart (created 0 1 5 lone)" by (rule created_reach) (simp add: lone_def)
  then have "ctx_reach 0 onStart (created 0 2 6 (created 0 1 5 lone))"
    by (rule created_reach) (simp add: lone_def created_def CreateInternal_def context_new_def IsShutdown_def
      BroadcastContextCreationNotice_def creation_notice.simps listeners_def Let_def)
  then show ?thesis unfolding four_def
    by (rule created_reach) (simp add: lone_def created_def CreateInternal_def context_new_def IsShutdown_def
      BroadcastContextCreationNotice_def creation_notice.simps listeners_def emit_def Let_def)
qed

lemmas four_simps = four_contexts context_new_def GetParentContext_def NextSibling_def FirstChild_def

theorem enumerate_contexts_preorder_witness:
  "ctx_reach 0 (\<lambda>_. True) four \<and> (\<exists>xs. enumerate_contexts four 1 = Some xs \<and> distinct xs \<and>
     set xs = {d. IsAncestorOf four 1 d = Some True})"
  using four_reach enumerate_contexts_preorder [OF four_reach, of 1] by (auto simp: four_simps)

text \<open>
  A context without a next sibling, whose parent has one: the enumeration that starts at the
  context leaves its subtree and visits the sibling of its parent (\<open>_next\<close> passes \<open>m_root\<close> on its way up).
\<close>

lemma enumerate_contexts_leaves_subtree:
  "ctx_reach 0 onStart four \<and> enumerate_contexts four 3 = Some [3, 2] \<and> IsAncestorOf four 3 2 = Some False"
proof -
  have "ascend four None (Some 3) = Some (Some 2, Some 0)" by (simp add: ascend_up four_simps)
  moreover have "ascend four None (Some 2) = Some (None, None)" by (simp add: ascend_up four_simps)
  ultimately have "enumerate_contexts four 3 = Some [3, 2]"
    by (simp add: enumerate_contexts_def visit_from_Some iterator_inc_def iterator_next_def four_simps)
  moreover have "IsAncestorOf four 3 2 = Some False"
    by (simp add: IsAncestorOf_def ancestor_walk.simps four_simps)
  ultimately show ?thesis using four_reach by blast
qed

end
