(* ===== verification/Context_Scope_Props.thy ===== *)
theory Context_Scope_Props
  imports Context_Enumerator_Props
begin

text \<open>
  Creating a child context, the bolts that are told of it, and the scopes that make a context current.
\<close>

section \<open>Creation\<close>

lemma creation_notice_Some:
  "contexts st c = Some k \<Longrightarrow> creation_notice st sigil (Some c) =
     Option.bind (creation_notice st sigil (m_pParent k)) (\<lambda>bs.
       Some (listeners sigil k @ (if sigil \<noteq> 0 then listeners 0 k else []) @ bs))"
  by (subst creation_notice.simps) simp

lemma creation_notice_None [simp]: "creation_notice st sigil None = Some []"
  by (subst creation_notice.simps) simp

definition heard :: "'a ContextStore_scheme \<Rightarrow> nat \<Rightarrow> addr \<Rightarrow> addr set" where
  "heard st sigil c = (case contexts st c of None \<Rightarrow> {} | Some k \<Rightarrow> set (listeners sigil k) \<union> set (listeners 0 k))"

lemma creation_notice_set:
  assumes "tree_ok st"
  shows "creation_notice st sigil (Some c) = Some bs \<Longrightarrow> contexts st c \<noteq> None \<Longrightarrow>
    set bs = (\<Union>p \<in> {p. (edge st)\<^sup>*\<^sup>* p c}. heard st sigil p)"
proof (induction "level st c" arbitrary: c bs rule: less_induct)
  case less
  from less.prems(2) obtain k where k: "contexts st c = Some k" by auto
  have here: "set (listeners sigil k @ (if sigil \<noteq> 0 then listeners 0 k else [])) = heard st sigil c"
    using k by (cases "sigil = 0") (auto simp: heard_def)
  show ?case
  proof (cases "m_pParent k")
    case None
    then have "{p. (edge st)\<^sup>*\<^sup>* p c} = {c}"
      using k by (auto simp: edge_def GetParentContext_def elim: rtranclp.cases)
    then show ?thesis using less.prems(1) None here k by (auto simp: creation_notice_Some)
  next
    case (Some p)
    then have e: "edge st p c" using k by (simp add: edge_def GetParentContext_def)
    have lp: "level st p < level st c" using edge_level [OF assms e] by simp
    obtain kp where kp: "contexts st p = Some kp" using tree_ok_parent [OF assms k Some] by auto
    obtain bs' where bs': "creation_notice st sigil (Some p) = Some bs'"
      "bs = listeners sigil k @ (if sigil \<noteq> 0 then listeners 0 k else []) @ bs'"
      using less.prems(1) k Some by (auto simp: creation_notice_Some bind_eq_Some_conv)
    have "{q. (edge st)\<^sup>*\<^sup>* q c} = insert c {q. (edge st)\<^sup>*\<^sup>* q p}"
    proof -
      have "(edge st)\<^sup>*\<^sup>* q c \<longleftrightarrow> q = c \<or> (edge st)\<^sup>*\<^sup>* q p" for q
        using e k Some by (metis edge_def option.inject rtranclp.simps)
      then show ?thesis by auto
    qed
    then show ?thesis using less.hyps [OF lp bs'(1)] kp bs'(2) here by auto
  qed
qed

text \<open>The notice does not look at the new context, which is not yet anybody's parent.\<close>

lemma creation_notice_fresh:
  fixes st :: "'a ContextStore_scheme"
  assumes "tree_ok st" "contexts st a = None" "contexts st' = (contexts st)(a \<mapsto> ka)"
  shows "cur \<noteq> Some a \<Longrightarrow> creation_notice st' sigil cur = creation_notice st sigil cur"
proof (induction "case cur of None \<Rightarrow> 0 | Some c \<Rightarrow> Suc (level st c)" arbitrary: cur rule: less_induct)
  case less
  show ?case
  proof (cases cur)
    case (Some c)
    show ?thesis
    proof (cases "contexts st c")
      case None
      then show ?thesis using Some less.prems assms(3)
        by (simp add: creation_notice.simps [of st sigil "Some c"] creation_notice.simps [of st' sigil "Some c"])
    next
      case k: (Some k)
      have "m_pParent k \<noteq> Some a" by (rule fresh_not_child(2) [OF assms(1,2) k])
      moreover have "level st p < level st c" if "m_pParent k = Some p" for p
        using edge_level [OF assms(1), of p c] k that by (simp add: edge_def GetParentContext_def)
      ultimately have "creation_notice st' sigil (m_pParent k) = creation_notice st sigil (m_pParent k)"
        using less.hyps [of "m_pParent k"] Some by (cases "m_pParent k") auto
      moreover have "contexts st' c = Some k" using k Some less.prems assms(3) by simp
      ultimately show ?thesis using k Some by (simp add: creation_notice_Some)
    qed
  qed simp
qed

text \<open>
  C10.  Creating a child of a context of a reachable tree: if the context is shut down, an exception is
  thrown and nothing is created; otherwise the child becomes the last child, may run exactly if its
  parent runs, and the bolts that are told of it are those registered, at its parent or above, for its
  sigil or for all sigils.
\<close>

theorem CreateInternal_child:
  assumes "ctx_reach global onStart st" "contexts st c = Some k" "contexts st a = None"
  shows "if IsShutdown k then CreateInternal c a sigil st = Some (Inl (dispatch_aborted_exception
        ''Cannot create a child context; this context is already shut down''))
    else \<exists>st' ka bs. CreateInternal c a sigil st = Some (Inr st') \<and>
      live_children st' c = live_children st c @ [a] \<and> contexts st' a = Some ka \<and> m_pParent ka = Some c \<and>
      ctx_state ka = (if IsRunning k then CanRun else NotStarted) \<and>
      log st' = log st @ Ev_newContext a # map (\<lambda>b. Ev_ContextCreated b a) bs \<and>
      set bs = {b. \<exists>p kp. IsAncestorOf st p c = Some True \<and> contexts st p = Some kp \<and>
        b \<in> set (listeners sigil kp) \<union> set (listeners 0 kp)}"
proof (cases "IsShutdown k")
  case True
  then show ?thesis using assms by (simp add: CreateInternal_def)
next
  case False
  have inv: "ctx_inv global st" by (rule ctx_reach_inv [OF assms(1)])
  then have tr: "tree_ok st" by (simp add: ctx_inv_def)
  let ?ka = "(context_new (Some c) sigil st)\<lparr>ctx_state := (if IsRunning k then CanRun else NotStarted)\<rparr>"
  let ?st1 = "emit [Ev_newContext a] (st\<lparr>contexts := (contexts st)(a \<mapsto> ?ka)\<rparr>)"
  from CreateInternal_ok [OF inv assms(2,3) False] obtain st' where st': "CreateInternal c a sigil st = Some (Inr st')"
    by blast
  then obtain bs where bs: "creation_notice ?st1 sigil (Some c) = Some bs"
    "st' = (emit (map (\<lambda>b. Ev_ContextCreated b a) bs) ?st1)\<lparr>contexts :=
      (contexts ?st1)(c \<mapsto> k\<lparr>m_children := m_children k @ [Some a]\<rparr>)\<rparr>"
    using assms(2) False by (auto simp: CreateInternal_def BroadcastContextCreationNotice_def Let_def)
  have ac: "a \<noteq> c" using assms by auto
  have "creation_notice st sigil (Some c) = Some bs"
    using creation_notice_fresh [OF tr assms(3), of ?st1 ?ka "Some c" sigil] bs(1) ac by simp
  then have "set bs = (\<Union>p \<in> {p. (edge st)\<^sup>*\<^sup>* p c}. heard st sigil p)"
    using creation_notice_set [OF tr] assms(2) by blast
  then have told: "set bs = {b. \<exists>p kp. IsAncestorOf st p c = Some True \<and> contexts st p = Some kp \<and>
      b \<in> set (listeners sigil kp) \<union> set (listeners 0 kp)}"
    by (auto simp: heard_def IsAncestorOf_below [OF tr] split: option.splits)
  have "lock_all st' ws = lock_all st ws" if "Some a \<notin> set ws" for ws
    using that bs(2) assms(2) by (induction ws) (auto split: option.splits)
  moreover have "lock_all st' (ws @ [Some a]) = lock_all st' ws @ [a]" for ws
    using bs(2) by (induction ws) (auto split: option.splits)
  moreover have "Some a \<notin> set (m_children k)" using tree_ok_child [OF tr assms(2), of a] assms(3) by auto
  ultimately have "live_children st' c = live_children st c @ [a]" using bs(2) assms(2) by (simp add: live_children_def)
  moreover have "contexts st' a = Some ?ka" "log st' = log st @ Ev_newContext a # map (\<lambda>b. Ev_ContextCreated b a) bs"
    using bs(2) ac by (simp_all add: emit_def)
  moreover have "m_pParent ?ka = Some c" "ctx_state ?ka = (if IsRunning k then CanRun else NotStarted)"
    by (simp_all add: context_new_def)
  ultimately show ?thesis using False st' told by auto
qed

theorem CreateInternal_child_witness:
  "ctx_reach 0 (\<lambda>_. True) four \<and> (\<exists>st'. CreateInternal 2 4 7 four = Some (Inr st') \<and> live_children st' 2 = [4])"
  using CreateInternal_child [OF four_reach, of 2 "the (contexts four 2)" 4 7] four_reach
  by (simp add: four_simps IsShutdown_def live_children_def) blast

text \<open>
  A bolt that is added after contexts exist is told of none of them from the first one on that it
  does not match: here context 2 has the sigil of the bolt, and the bolt is not told of it.
\<close>

lemma AddBolt_misses_contexts:
  "\<exists>st'. AddBolt 9 [6] 0 four = Some st' \<and> bolt_matches [6] (sigil_of four 2) \<and>
     IsAncestorOf four 0 2 = Some True \<and> Ev_ContextCreated 9 2 \<notin> set (log st')"
proof -
  define st1 where "st1 = four\<lparr>contexts := (contexts four)(0 := map_option (add_listener 9 6) (contexts four 0))\<rparr>"
  have cx: "contexts st1 0 = Some (add_listener 9 6 (the (contexts four 0)))"
    "c \<noteq> 0 \<Longrightarrow> contexts st1 c = contexts four c" for c
    by (simp_all add: st1_def four_contexts)
  have up: "GetParentContext st1 3 = Some 1" "GetParentContext st1 1 = Some 0" "GetParentContext st1 2 = Some 0"
    "GetParentContext st1 0 = None"
    by (simp_all add: GetParentContext_def cx four_contexts context_new_def add_listener_def)
  have across: "NextSibling st1 3 = None" "NextSibling st1 1 = Some 2" "NextSibling st1 2 = None" "NextSibling st1 0 = None"
    using up by (simp_all add: NextSibling_def cx four_contexts context_new_def add_listener_def)
  have down: "FirstChild st1 0 = Some 1" "FirstChild st1 1 = Some 3" "FirstChild st1 2 = None" "FirstChild st1 3 = None"
    by (simp_all add: FirstChild_def cx four_contexts context_new_def add_listener_def)
  have "enumerate_contexts st1 0 = Some [0, 1, 3, 2]"
    using up across down by (simp add: enumerate_contexts_def visit_from_Some iterator_inc_def iterator_next_def ascend_up)
  moreover have "log st1 = [Ev_newContext 1, Ev_newContext 2, Ev_newContext 3]"
    by (simp add: st1_def four_def lone_def created_def CreateInternal_def context_new_def IsShutdown_def
      BroadcastContextCreationNotice_def creation_notice.simps listeners_def emit_def Let_def)
  moreover have "sigil_of st1 1 = 5" "sigil_of four 2 = 6"
    by (simp_all add: sigil_of_def cx four_contexts context_new_def)
  moreover have "IsAncestorOf four 0 2 = Some True"
    by (simp add: IsAncestorOf_def ancestor_walk.simps GetParentContext_def four_contexts context_new_def)
  ultimately show ?thesis
    by (simp add: AddBolt_def Let_def bolt_matches_def emit_def st1_def [symmetric])
qed

section \<open>Scopes\<close>

text \<open>Pushers made current one inside the other, and destroyed in the reverse order.\<close>

fun push_all :: "addr list \<Rightarrow> ptr \<Rightarrow> CurrentContextPusher list \<times> ptr" where
  "push_all [] cur = ([], cur)"
| "push_all (c # cs) cur = (case pusher_new (Some c) cur of (p, cur1) \<Rightarrow>
     (case push_all cs cur1 of (ps, cur2) \<Rightarrow> (ps @ [p], cur2)))"

fun pop_all :: "CurrentContextPusher list \<Rightarrow> ptr \<Rightarrow> ptr" where
  "pop_all [] cur = cur"
| "pop_all (p # ps) cur = pop_all ps (snd (snd (pusher_Pop p cur)))"

lemma pop_all_append: "pop_all (ps @ qs) cur = pop_all qs (pop_all ps cur)"
  by (induction ps arbitrary: cur) simp_all

lemma SetCurrent_fst [simp]: "fst (ctx_SetCurrent c cur) = c" "snd (ctx_SetCurrent c cur) = cur"
  by (simp_all add: ctx_SetCurrent_def)

lemma pusher_Pop_fresh [simp]: "pusher_Pop \<lparr>m_prior = c, pop_invoked = False\<rparr> cur =
    (cur, \<lparr>m_prior = None, pop_invoked = True\<rparr>, c)"
  by (simp add: pusher_Pop_def split: prod.split) (metis SetCurrent_fst prod.sel)

text \<open>
  However contexts are pushed inside each other, the last one is current inside the scopes and the
  context that was current before is current again after them; a second \<open>Pop\<close> changes nothing.
\<close>

lemma pushers_restore_current:
  "snd (push_all cs cur) = (if cs = [] then cur else Some (last cs)) \<and>
   pop_all (fst (push_all cs cur)) (snd (push_all cs cur)) = cur \<and>
   (case pusher_Pop p cur of (_, p', cur') \<Rightarrow> pusher_Pop p' cur' = (None, p', cur'))"
proof -
  have "snd (push_all cs cur) = (if cs = [] then cur else Some (last cs)) \<and>
     pop_all (fst (push_all cs cur)) (snd (push_all cs cur)) = cur" for cs cur
  proof (induction cs arbitrary: cur)
    case (Cons c cs)
    have "pusher_new (Some c) cur = (\<lparr>m_prior = cur, pop_invoked = False\<rparr>, Some c)"
      by (simp add: pusher_new_def split: prod.split) (metis SetCurrent_fst prod.sel)
    then show ?case using Cons [of "Some c"] by (auto simp: pop_all_append split: prod.splits)
  qed simp
  moreover have "case pusher_Pop p cur of (_, p', cur') \<Rightarrow> pusher_Pop p' cur' = (None, p', cur')"
    by (simp add: pusher_Pop_def split: prod.splits)
  ultimately show ?thesis by blast
qed

text \<open>
  A pusher that has been moved from is not disarmed: after its contents have been moved to a new
  pusher, its destructor makes no context current, whichever was current.
\<close>

lemma moved_pusher_clears_current:
  "case pusher_new (Some c) cur of (p, cur1) \<Rightarrow>
     (case pusher_move p of (p1, p2) \<Rightarrow> snd (snd (pusher_Pop p2 cur1)) = None \<and> snd (snd (pusher_Pop p1 cur2)) = cur)"
  by (simp add: pusher_new_def pusher_move_def ctx_SetCurrent_def pusher_Pop_def)

end
