(* ===== verification/Once.thy ===== *)
theory Once
  imports Prelude
begin

text \<open>
  \<open>once\<close> (\<open>once.{h,cpp}\<close>): a flag that is raised at most once, with handlers.  A handler is known by
  its address; whether it throws when it is called is a parameter.
\<close>

section \<open>Model\<close>

datatype OnceState = unsignalled | signalling | signalled

record once =
  once_state :: OnceState
  m_fns :: "addr list"

definition once_new :: once where
  "once_new = \<lparr>once_state = unsignalled, m_fns = []\<rparr>"

definition once_get :: "once \<Rightarrow> bool" where
  "once_get s \<longleftrightarrow> once_state s \<noteq> unsignalled"

definition once_is_executing :: "once \<Rightarrow> bool" where
  "once_is_executing s \<longleftrightarrow> once_state s = signalling"

text \<open>\<open>operator+=\<close>: the handlers called at once, the registered handler and the flag.\<close>

definition once_add :: "addr \<Rightarrow> once \<Rightarrow> addr list \<times> ptr \<times> once" where
  "once_add f s =
     (if once_state s \<noteq> unsignalled then ([f], None, s)
      else ([], Some f, s\<lparr>m_fns := m_fns s @ [f]\<rparr>))"

text \<open>
  \<open>operator-=\<close>: the entry is searched from the back, and the last entry takes its place.
\<close>

fun once_find :: "addr \<Rightarrow> addr list \<Rightarrow> nat \<Rightarrow> nat option" where
  "once_find f fns 0 = None"
| "once_find f fns (Suc i) = (if fns ! i = f then Some i else once_find f fns i)"

definition once_remove :: "addr \<Rightarrow> once \<Rightarrow> (bool \<times> once) result" where
  "once_remove f s =
     (if once_get s then Inr (False, s)
      else (case once_find f (m_fns s) (length (m_fns s)) of
              Some i \<Rightarrow> Inr (True, s\<lparr>m_fns := butlast ((m_fns s)[i := last (m_fns s)])\<rparr>)
            | None \<Rightarrow> Inl (runtime_error
                ''Attempted to unregister a once signal that was not created on this object.'')))"

text \<open>\<open>signal\<close>: an exception of a handler leaves the flag in the state \<open>signalling\<close>.\<close>

fun once_calls :: "(addr \<Rightarrow> bool) \<Rightarrow> addr list \<Rightarrow> bool \<times> addr list" where
  "once_calls throws [] = (False, [])"
| "once_calls throws (f # fs) =
     (if throws f then (True, [f]) else (case once_calls throws fs of (exc, called) \<Rightarrow> (exc, f # called)))"

definition once_signal :: "(addr \<Rightarrow> bool) \<Rightarrow> once \<Rightarrow> bool \<times> addr list \<times> once" where
  "once_signal throws s =
     (if once_get s then (False, [], s)
      else (case once_calls throws (m_fns s) of (exc, called) \<Rightarrow>
              if exc then (True, called, s\<lparr>once_state := signalling\<rparr>)
              else (False, called, \<lparr>once_state = signalled, m_fns = []\<rparr>)))"

definition once_assign :: "(addr \<Rightarrow> bool) \<Rightarrow> bool \<Rightarrow> once \<Rightarrow> (bool \<times> addr list \<times> once) result" where
  "once_assign throws rhs s =
     (if \<not> rhs then Inl (runtime_error ''Cannot set a once flag to any value other than true'')
      else Inr (once_signal throws s))"

text \<open>The move constructor: the new flag and what is left of the old one.\<close>

definition once_move :: "once \<Rightarrow> once \<times> once" where
  "once_move rhs = (rhs, rhs\<lparr>m_fns := []\<rparr>)"

section \<open>Every handler is called exactly once\<close>

lemma once_find_Some: "once_find f fns n = Some i \<Longrightarrow> i < n \<and> fns ! i = f"
  by (induction n) (auto split: if_splits)

lemma once_find_None: "once_find f fns n = None \<longleftrightarrow> (\<forall>i < n. fns ! i \<noteq> f)"
  by (induction n) (auto simp: less_Suc_eq)

text \<open>Overwriting an entry by the last one and dropping the last one removes the entry.\<close>

lemma mset_swap_remove:
  assumes "i < length xs"
  shows "mset (butlast (xs[i := last xs])) + {#xs ! i#} = mset xs"
proof (cases xs rule: rev_cases)
  case (snoc ys l)
  show ?thesis
  proof (cases "i < length ys")
    case True
    then have "mset (ys[i := l]) = add_mset l (mset ys - {#ys ! i#})" by (rule mset_update)
    moreover have "ys ! i \<in># mset ys" using True by simp
    ultimately show ?thesis using snoc True by (simp add: list_update_append butlast_append nth_append)
  next
    case False
    then have "i = length ys" using assms snoc by simp
    then show ?thesis using snoc by (simp add: list_update_append butlast_append)
  qed
qed (use assms in simp)

lemma once_calls_all: "\<forall>f \<in> set fs. \<not> throws f \<Longrightarrow> once_calls throws fs = (False, fs)"
  by (induction fs) simp_all

datatype once_op = Add addr | Remove addr | Signal

text \<open>The handlers called and removed so far, and the flag.\<close>

definition once_step :: "(addr \<Rightarrow> bool) \<Rightarrow> once_op \<Rightarrow> addr list \<times> addr list \<times> once \<Rightarrow> (addr list \<times> addr list \<times> once) result" where
  "once_step throws op = (\<lambda>(called, removed, s).
     (case op of
        Add f \<Rightarrow> (case once_add f s of (cs, _, s1) \<Rightarrow> Inr (called @ cs, removed, s1))
      | Remove f \<Rightarrow> bindR (once_remove f s) (\<lambda>(b, s1). Inr (called, if b then f # removed else removed, s1))
      | Signal \<Rightarrow> (case once_signal throws s of (_, cs, s1) \<Rightarrow> Inr (called @ cs, removed, s1))))"

fun adds :: "once_op list \<Rightarrow> addr list" where
  "adds [] = []"
| "adds (Add f # ops) = f # adds ops"
| "adds (_ # ops) = adds ops"

definition once_inv :: "addr multiset \<Rightarrow> addr list \<times> addr list \<times> once \<Rightarrow> bool" where
  "once_inv added = (\<lambda>(called, removed, s). mset called + mset removed + mset (m_fns s) = added \<and>
     (if once_get s then m_fns s = [] \<and> once_state s = signalled else called = []))"

lemma once_step_inv:
  assumes "once_inv A (called, removed, s)" "once_step throws op (called, removed, s) = Inr t" "\<forall>f. \<not> throws f"
  shows "once_inv (A + mset (adds [op])) t"
proof (cases op)
  case (Add f)
  then show ?thesis using assms by (auto simp: once_step_def once_add_def once_inv_def once_get_def split: if_splits)
next
  case (Remove f)
  then obtain b s1 where r: "once_remove f s = Inr (b, s1)" "t = (called, if b then f # removed else removed, s1)"
    using assms(2) by (auto simp: once_step_def bindR_eq_Inr_iff)
  show ?thesis
  proof (cases "once_get s")
    case True
    then show ?thesis using r assms(1) Remove by (auto simp: once_remove_def once_inv_def)
  next
    case False
    then obtain i where i: "once_find f (m_fns s) (length (m_fns s)) = Some i"
      "s1 = s\<lparr>m_fns := butlast ((m_fns s)[i := last (m_fns s)])\<rparr>" "b"
      using r(1) by (auto simp: once_remove_def split: option.splits)
    then have "mset (m_fns s1) + {#f#} = mset (m_fns s)"
      using once_find_Some [OF i(1)] mset_swap_remove [of i "m_fns s"] by simp
    then show ?thesis using r(2) i(2,3) assms(1) False Remove by (auto simp: once_inv_def once_get_def)
  qed
next
  case Signal
  then show ?thesis using assms once_calls_all [of "m_fns s" throws]
    by (auto simp: once_step_def once_signal_def once_inv_def once_get_def split: if_splits)
qed

lemma once_run_inv:
  "foldR (once_step throws) ops t = Inr t' \<Longrightarrow> once_inv A t \<Longrightarrow> \<forall>f. \<not> throws f \<Longrightarrow> once_inv (A + mset (adds ops)) t'"
proof (induction ops arbitrary: t A)
  case (Cons op ops)
  obtain t1 where t1: "once_step throws op t = Inr t1" "foldR (once_step throws) ops t1 = Inr t'"
    using Cons.prems(1) by (auto simp: bindR_eq_Inr_iff)
  obtain called removed s where t: "t = (called, removed, s)" by (cases t)
  have "once_inv (A + mset (adds [op])) t1" using once_step_inv t1(1) t Cons.prems(2,3) by blast
  from Cons.IH [OF t1(2) this Cons.prems(3)] show ?case by (cases op) (simp_all add: ac_simps)
qed (simp add: once_inv_def)

text \<open>
  C28.  However handlers are added to and removed from a once flag and the flag is raised, before, between
  or after, as long as no handler throws: if the flag is up, the handlers called so far are, as a
  multiset, those added less those removed while it was down; if it is down none has been called, and
  those added less those removed are waiting.
\<close>

theorem once_handlers_called_once:
  assumes "foldR (once_step throws) ops ([], [], once_new) = Inr (called, removed, s)" "\<forall>f. \<not> throws f"
  shows "if once_get s then mset called = mset (adds ops) - mset removed
         else called = [] \<and> mset (m_fns s) = mset (adds ops) - mset removed"
proof -
  have "once_inv {#} ([], [], once_new)" by (simp add: once_inv_def once_new_def once_get_def)
  from once_run_inv [OF assms(1) this assms(2)]
  have *: "mset called + mset removed + mset (m_fns s) = mset (adds ops)"
    "if once_get s then m_fns s = [] else called = []" by (auto simp: once_inv_def split: if_splits)
  have "mset called + mset (m_fns s) = mset (adds ops) - mset removed" using *(1) [symmetric] by simp
  then show ?thesis using *(2) by (auto split: if_splits)
qed

theorem once_handlers_called_once_witness:
  "\<exists>called removed s. foldR (once_step (\<lambda>_. False)) [Add 1, Add 2, Add 3, Remove 1, Signal, Add 4, Remove 4]
       ([], [], once_new) = Inr (called, removed, s) \<and> called = [3, 2, 4] \<and>
     mset called = mset (adds [Add 1, Add 2, Add 3, Remove 1, Signal, Add 4, Remove 4]) - mset removed"
proof -
  have r: "foldR (once_step (\<lambda>_. False)) [Add 1, Add 2, Add 3, Remove 1, Signal, Add 4, Remove 4]
       ([], [], once_new) = Inr ([3, 2, 4], [1], \<lparr>once_state = signalled, m_fns = []\<rparr>)"
    by (simp add: once_step_def once_new_def once_add_def once_remove_def once_get_def once_signal_def numeral_2_eq_2 numeral_3_eq_3)
  from once_handlers_called_once [OF r] show ?thesis using r by (simp add: once_get_def)
qed

end
