(* ===== verification/Type_Memo.thy ===== *)
theory Type_Memo
  imports Core_Context Once Auto_Filter
begin

text \<open>
  The members of a context, and how a type is resolved to one of them: \<open>FindByType\<close>, \<open>Inject\<close>, \<open>Add\<close> and the
  satisfaction of deferred lookups in \<open>CoreContext.{h,cpp}\<close>, with \<open>AnySharedPointer\<close>, \<open>MemoEntry\<close> and
  \<open>CoreObjectDescriptor\<close>.

  The dynamic cast of an object to a type is a parameter: \<open>cast ty obj\<close> is the pointer it gives, if any.
  The constructors and \<open>AutoInit\<close> methods of the injected types, and the listeners of a lookup, do not call
  back into the contexts; whether they throw is a parameter.
\<close>

section \<open>Shared pointers to objects of any type\<close>

record AnySharedPointer =
  m_ti :: auto_id
  m_ptr :: ptr

text \<open>\<open>type.block->pFromObj(obj)\<close>; a type without a caster casts nothing.\<close>

type_synonym caster = "auto_id \<Rightarrow> addr \<Rightarrow> ptr"

definition pFromObj :: "caster \<Rightarrow> auto_id \<Rightarrow> ptr \<Rightarrow> ptr" where
  "pFromObj cast ty obj = (case obj of None \<Rightarrow> None | Some a \<Rightarrow> cast ty a)"

definition try_assign :: "caster \<Rightarrow> ptr \<Rightarrow> AnySharedPointer \<Rightarrow> bool \<times> AnySharedPointer" where
  "try_assign cast rhs p =
     (case pFromObj cast (m_ti p) rhs of None \<Rightarrow> (False, p) | Some a \<Rightarrow> (True, p\<lparr>m_ptr := Some a\<rparr>))"

section \<open>Members and memos\<close>

record CoreObjectDescriptor =
  od_type :: auto_id
  actual_type :: auto_id
  od_value :: AnySharedPointer
  pCoreObject :: ptr
  pContextMember :: ptr
  pFilter :: ptr
  pBoltBase :: "(addr \<times> nat list) option"
  pCoreRunnable :: ptr
  od_subscriber :: bool
  pConfigWatcher :: ptr

record MemoEntry =
  onSatisfied :: once
  pObjTraits :: "CoreObjectDescriptor option"
  m_value :: AnySharedPointer
  m_local :: bool

definition memo_new :: "auto_id \<Rightarrow> MemoEntry" where
  "memo_new ty = \<lparr>onSatisfied = once_new, pObjTraits = None, m_value = \<lparr>m_ti = ty, m_ptr = None\<rparr>, m_local = True\<rparr>"

record Members =
  m_concreteTypes :: "CoreObjectDescriptor list"
  m_typeMemos :: "(auto_id \<times> MemoEntry) list"
  m_contextMembers :: "addr list"
  m_filters :: "addr list"
  m_snoopers :: "addr list"

text \<open>What the members learn: a listener of a lookup is called, a filter is subscribed, and so on.\<close>

datatype member_event =
    Ev_satisfied addr | Ev_subscriber ptr | Ev_configWatcher addr | Ev_newObject ptr

record MemberStore = ContextStore +
  members :: "addr \<Rightarrow> Members"
  mlog :: "member_event list"

definition memo_of :: "'a MemberStore_scheme \<Rightarrow> addr \<Rightarrow> auto_id \<Rightarrow> MemoEntry option" where
  "memo_of st c ty = map_of (m_typeMemos (members st c)) ty"

fun memo_put :: "auto_id \<Rightarrow> MemoEntry \<Rightarrow> (auto_id \<times> MemoEntry) list \<Rightarrow> (auto_id \<times> MemoEntry) list" where
  "memo_put ty m [] = [(ty, m)]"
| "memo_put ty m ((k, e) # xs) = (if k = ty then (k, m) # xs else (k, e) # memo_put ty m xs)"

definition set_members :: "addr \<Rightarrow> Members \<Rightarrow> 'a MemberStore_scheme \<Rightarrow> 'a MemberStore_scheme" where
  "set_members c k st = st\<lparr>members := (members st)(c := k)\<rparr>"

definition put_memo :: "addr \<Rightarrow> auto_id \<Rightarrow> MemoEntry \<Rightarrow> 'a MemberStore_scheme \<Rightarrow> 'a MemberStore_scheme" where
  "put_memo c ty m st = set_members c ((members st c)\<lparr>m_typeMemos := memo_put ty m (m_typeMemos (members st c))\<rparr>) st"

definition memit :: "member_event list \<Rightarrow> 'a MemberStore_scheme \<Rightarrow> 'a MemberStore_scheme" where
  "memit evs st = st\<lparr>mlog := mlog st @ evs\<rparr>"

text \<open>\<open>onSatisfied()\<close>: the listeners that are called, and the entry after it.\<close>

definition memo_fire :: "MemoEntry \<Rightarrow> addr list \<times> MemoEntry" where
  "memo_fire m = (case once_signal (\<lambda>_. False) (onSatisfied m) of (_, called, o1) \<Rightarrow> (called, m\<lparr>onSatisfied := o1\<rparr>))"

definition satisfied :: "MemoEntry \<Rightarrow> bool" where
  "satisfied m \<longleftrightarrow> m_ptr (m_value m) \<noteq> None"

section \<open>Lookup\<close>

text \<open>The entry after a concrete type has been matched against it, if it does match.\<close>

definition match_type :: "caster \<Rightarrow> auto_id \<Rightarrow> CoreObjectDescriptor \<Rightarrow> MemoEntry \<Rightarrow> MemoEntry option" where
  "match_type cast ty d m =
     (if ty = od_type d then Some (m\<lparr>m_value := od_value d\<rparr>)
      else (case pFromObj cast ty (pCoreObject d) of
              None \<Rightarrow> None
            | Some a \<Rightarrow>
                Some ((snd (memo_fire m))\<lparr>m_value := (m_value m)\<lparr>m_ptr := Some a\<rparr>, m_local := True\<rparr>)))"

text \<open>
  The loop over the concrete types, with whether it ended in an ambiguity.  (The entry is new: it has
  no listeners yet.)
\<close>

fun scan_types :: "caster \<Rightarrow> auto_id \<Rightarrow> CoreObjectDescriptor list \<Rightarrow> MemoEntry \<Rightarrow> bool \<times> MemoEntry" where
  "scan_types cast ty [] m = (False, m)"
| "scan_types cast ty (d # ds) m =
     (case match_type cast ty d m of
        None \<Rightarrow> scan_types cast ty ds m
      | Some m1 \<Rightarrow>
          if pObjTraits m1 \<noteq> None then (True, m1)
          else scan_types cast ty ds (m1\<lparr>pObjTraits := Some d\<rparr>))"

definition ambiguity :: aw_error where
  "ambiguity = autowiring_error ''An attempt was made to resolve a type which has multiple possible clients''"

text \<open>What is kept of a parent's entry.\<close>

definition memoize :: "MemoEntry \<Rightarrow> MemoEntry \<Rightarrow> MemoEntry" where
  "memoize parentEntry m =
     (snd (memo_fire m))\<lparr>m_value := m_value parentEntry, pObjTraits := pObjTraits parentEntry, m_local := False\<rparr>"

text \<open>
  \<open>FindByType\<close> in the context \<open>c\<close>: the context whose entry for the type is returned, or the exception;
  and the store, which keeps the entries made on the way also when an exception is thrown.
\<close>

partial_function (option) FindByType ::
  "caster \<Rightarrow> addr \<Rightarrow> auto_id \<Rightarrow> bool \<Rightarrow> 'a MemberStore_scheme \<Rightarrow> (addr result \<times> 'a MemberStore_scheme) option" where
  "FindByType cast c ty nonrecursive st =
     (if memo_of st c ty \<noteq> None then Some (Inr c, st)
      else
        (case scan_types cast ty (m_concreteTypes (members st c)) (memo_new ty) of
           (ambiguous, m) \<Rightarrow>
             if ambiguous then Some (Inl ambiguity, put_memo c ty m st)
             else if nonrecursive \<or> GetParentContext st c = None \<or> satisfied m then Some (Inr c, put_memo c ty m st)
             else
               Option.bind (FindByType cast (the (GetParentContext st c)) ty nonrecursive (put_memo c ty m st)) (\<lambda>(r, st1).
               case r of
                 Inl e \<Rightarrow> Some (Inl e, st1)
               | Inr p \<Rightarrow>
                   (case memo_of st1 p ty of
                      None \<Rightarrow> Some (Inl Undefined_behaviour, st1)
                    | Some parentEntry \<Rightarrow>
                        if satisfied parentEntry then Some (Inr p, put_memo c ty (memoize parentEntry m) st1)
                        else Some (Inr c, st1)))))"

text \<open>The pointer that a lookup gives, and \<open>Has\<close>.\<close>

definition lookup_type ::
  "caster \<Rightarrow> addr \<Rightarrow> auto_id \<Rightarrow> bool \<Rightarrow> 'a MemberStore_scheme \<Rightarrow> (ptr result \<times> 'a MemberStore_scheme) option" where
  "lookup_type cast c ty nonrecursive st =
     map_option (\<lambda>(r, st1). (bindR r (\<lambda>p. Inr (Option.bind (memo_of st1 p ty) (\<lambda>m. m_ptr (m_value m)))), st1))
       (FindByType cast c ty nonrecursive st)"

definition Has :: "caster \<Rightarrow> addr \<Rightarrow> auto_id \<Rightarrow> 'a MemberStore_scheme \<Rightarrow> (bool result \<times> 'a MemberStore_scheme) option" where
  "Has cast c ty st = map_option (\<lambda>(r, st1). (bindR r (\<lambda>p. Inr (p \<noteq> None)), st1)) (lookup_type cast c ty False st)"

text \<open>\<open>NotifyWhenAutowired\<close> with the listener \<open>f\<close>.\<close>

definition NotifyWhenAutowired ::
  "caster \<Rightarrow> addr \<Rightarrow> auto_id \<Rightarrow> addr \<Rightarrow> 'a MemberStore_scheme \<Rightarrow> (unit result \<times> 'a MemberStore_scheme) option" where
  "NotifyWhenAutowired cast c ty f st =
     map_option (\<lambda>(r, st1). case r of
         Inl e \<Rightarrow> (Inl e, st1)
       | Inr p \<Rightarrow>
           (case memo_of st1 p ty of
              None \<Rightarrow> (Inl Undefined_behaviour, st1)
            | Some m \<Rightarrow> (case once_add f (onSatisfied m) of (called, _, o1) \<Rightarrow>
                (Inr (), memit (map Ev_satisfied called) (put_memo p ty (m\<lparr>onSatisfied := o1\<rparr>) st1)))))
       (FindByType cast c ty False st)"

definition GetAutoTypeId :: "addr \<Rightarrow> AnySharedPointer \<Rightarrow> 'a MemberStore_scheme \<Rightarrow> auto_id result" where
  "GetAutoTypeId c p st =
     (case Option.bind (memo_of st c (m_ti p)) pObjTraits of
        None \<Rightarrow> Inl (autowiring_error
          ''Attempted to obtain the true type of a shared pointer that was not a member of this context'')
      | Some d \<Rightarrow> Inr (od_type d))"

section \<open>Satisfaction of deferred lookups\<close>

text \<open>Whether an object satisfies an entry of a context, and the entry then.\<close>

definition deferred_hit :: "caster \<Rightarrow> CoreObjectDescriptor \<Rightarrow> MemoEntry \<Rightarrow> bool" where
  "deferred_hit cast d m \<longleftrightarrow> \<not> (satisfied m \<and> m_local m) \<and> fst (try_assign cast (pCoreObject d) (m_value m))"

definition deferred_assign :: "caster \<Rightarrow> CoreObjectDescriptor \<Rightarrow> bool \<Rightarrow> MemoEntry \<Rightarrow> MemoEntry" where
  "deferred_assign cast d local m =
     m\<lparr>m_value := snd (try_assign cast (pCoreObject d) (m_value m)), pObjTraits := Some d, m_local := local\<rparr>"

text \<open>All entries are assigned before the first listener is called.\<close>

definition update_memos ::
  "caster \<Rightarrow> CoreObjectDescriptor \<Rightarrow> bool \<Rightarrow> addr \<Rightarrow> 'a MemberStore_scheme \<Rightarrow> 'a MemberStore_scheme" where
  "update_memos cast d local c st =
     (let memos = m_typeMemos (members st c);
          called = concat (map (\<lambda>(ty, m). if deferred_hit cast d m then fst (memo_fire m) else []) memos);
          memos1 = map (\<lambda>(ty, m). (ty, if deferred_hit cast d m then snd (memo_fire (deferred_assign cast d local m)) else m)) memos
      in memit (map Ev_satisfied called) (set_members c ((members st c)\<lparr>m_typeMemos := memos1\<rparr>) st))"

partial_function (option) update_each ::
  "caster \<Rightarrow> CoreObjectDescriptor \<Rightarrow> bool \<Rightarrow> addr list \<Rightarrow> 'a MemberStore_scheme \<Rightarrow> 'a MemberStore_scheme option" where
  "update_each cast d local cs st =
     (case cs of
        [] \<Rightarrow> Some st
      | c # cs' \<Rightarrow>
          Option.bind (update_each cast d False (live_children st c) (update_memos cast d local c st))
            (update_each cast d local cs'))"

definition UpdateDeferredElements ::
  "caster \<Rightarrow> CoreObjectDescriptor \<Rightarrow> bool \<Rightarrow> addr \<Rightarrow> 'a MemberStore_scheme \<Rightarrow> 'a MemberStore_scheme option" where
  "UpdateDeferredElements cast d local c st = update_each cast d local [c] st"

text \<open>\<open>UpdateDeferredElement\<close>: the entry of the context \<open>owner\<close> is signalled once for every context below.\<close>

definition fire_entry :: "addr \<Rightarrow> auto_id \<Rightarrow> 'a MemberStore_scheme \<Rightarrow> 'a MemberStore_scheme" where
  "fire_entry owner ty st =
     (case memo_of st owner ty of None \<Rightarrow> st
      | Some m \<Rightarrow> memit (map Ev_satisfied (fst (memo_fire m))) (put_memo owner ty (snd (memo_fire m)) st))"

partial_function (option) fire_each ::
  "addr \<Rightarrow> auto_id \<Rightarrow> addr list \<Rightarrow> 'a MemberStore_scheme \<Rightarrow> 'a MemberStore_scheme option" where
  "fire_each owner ty cs st =
     (case cs of
        [] \<Rightarrow> Some st
      | c # cs' \<Rightarrow>
          Option.bind (fire_each owner ty (live_children st c) (fire_entry owner ty st)) (fire_each owner ty cs'))"

text \<open>\<open>AddInternal\<close> of a bare pointer (\<open>CoreContext::Add\<close>).\<close>

definition AddPointer ::
  "addr \<Rightarrow> AnySharedPointer \<Rightarrow> 'a MemberStore_scheme \<Rightarrow> (aw_error option \<times> 'a MemberStore_scheme) option" where
  "AddPointer c p st =
     (let entry = (case memo_of st c (m_ti p) of None \<Rightarrow> (memo_new (m_ti p))\<lparr>m_value := \<lparr>m_ti = 0, m_ptr = None\<rparr>\<rparr> | Some m \<Rightarrow> m);
          st1 = put_memo c (m_ti p) entry st
      in if m_local entry \<and> satisfied entry then
           Some (Some (autowiring_error ''This interface is already present in the context''), st1)
         else map_option (Pair None)
                (fire_each c (m_ti p) [c] (put_memo c (m_ti p) (entry\<lparr>m_local := True, m_value := p\<rparr>) st1)))"

section \<open>Adding a member\<close>

text \<open>The check of the entry for the actual type: an exception, or the entry made local.\<close>

definition check_addition :: "CoreObjectDescriptor \<Rightarrow> MemoEntry \<Rightarrow> MemoEntry result" where
  "check_addition d v =
     (if m_local v then
        if pCoreObject d \<noteq> None \<and> m_ptr (m_value v) = pCoreObject d then
          Inl (autowiring_error ''An attempt was made to add the same value to the same context more than once'')
        else if satisfied v then
          Inl (autowiring_error ''An attempt was made to add the same type to the same context more than once'')
        else Inr v
      else Inr (v\<lparr>m_value := od_value d, m_local := True\<rparr>))"

definition opt_list :: "'b option \<Rightarrow> 'b list" where
  "opt_list x = (case x of None \<Rightarrow> [] | Some y \<Rightarrow> [y])"

definition add_member :: "CoreObjectDescriptor \<Rightarrow> Members \<Rightarrow> Members" where
  "add_member d k = k\<lparr>m_concreteTypes := m_concreteTypes k @ [d],
     m_contextMembers := m_contextMembers k @ opt_list (pContextMember d),
     m_filters := m_filters k @ opt_list (pFilter d)\<rparr>"

definition AddInternal ::
  "caster \<Rightarrow> (addr \<Rightarrow> bool) \<Rightarrow> addr \<Rightarrow> CoreObjectDescriptor \<Rightarrow> 'a MemberStore_scheme \<Rightarrow>
     (aw_error option \<times> 'a MemberStore_scheme) option" where
  "AddInternal cast onStart c d st =
     (case (case memo_of st c (actual_type d) of
              None \<Rightarrow> Inr st
            | Some v \<Rightarrow> bindR (check_addition d v) (\<lambda>v1. Inr (put_memo c (actual_type d) v1 st))) of
        Inl e \<Rightarrow> Some (Some e, st)
      | Inr st1 \<Rightarrow>
          Option.bind (UpdateDeferredElements cast d True c (set_members c (add_member d (members st1 c)) st1)) (\<lambda>st2.
          Option.bind (case pBoltBase d of None \<Rightarrow> Some st2 | Some (b, sigils) \<Rightarrow> AddBolt b sigils c st2) (\<lambda>st3.
          let st4 = (case pCoreRunnable d of None \<Rightarrow> st3 | Some r \<Rightarrow> AddCoreRunnable onStart c r st3);
              st5 = (if od_subscriber d then memit [Ev_subscriber (pCoreObject d)] st4 else st4);
              st6 = (case pConfigWatcher d of None \<Rightarrow> st5 | Some w \<Rightarrow> memit [Ev_configWatcher w] st5)
          in Some (None, memit [Ev_newObject (pCoreObject d)] st6))))"

text \<open>
  \<open>Inject\<close> of the type \<open>T\<close>: the descriptor \<open>d\<close> is that of the object its constructor makes (none if the
  constructor throws), and \<open>autoinit_throws\<close> tells of its \<open>AutoInit\<close>.
\<close>

definition finish_inject :: "bool \<Rightarrow> addr \<Rightarrow> ptr \<Rightarrow> 'a MemberStore_scheme \<Rightarrow> (ptr result \<times> 'a MemberStore_scheme) option" where
  "finish_inject autoinit_throws c retVal st =
     (if autoinit_throws then map_option (Pair (Inl (runtime_error ''AutoInit''))) (SignalShutdown False c st)
      else Some (Inr retVal, st))"

definition Inject ::
  "caster \<Rightarrow> (addr \<Rightarrow> bool) \<Rightarrow> addr \<Rightarrow> auto_id \<Rightarrow> auto_id \<Rightarrow> CoreObjectDescriptor option \<Rightarrow> bool \<Rightarrow>
     'a MemberStore_scheme \<Rightarrow> (ptr result \<times> 'a MemberStore_scheme) option" where
  "Inject cast onStart c T TActual d autoinit_throws st =
     Option.bind (FindByType cast c T True st) (\<lambda>(r, st1).
     case r of
       Inl e \<Rightarrow> Some (Inl e, st1)
     | Inr _ \<Rightarrow>
         (case memo_of st1 c T of
            None \<Rightarrow> Some (Inl Undefined_behaviour, st1)
          | Some memo \<Rightarrow>
              if satisfied memo \<and> m_local memo then Some (Inr (m_ptr (m_value memo)), st1)
              else
                Option.bind (FindByType cast c TActual True st1) (\<lambda>(r2, st2).
                case r2 of
                  Inl e \<Rightarrow> Some (Inl e, st2)
                | Inr _ \<Rightarrow>
                    (case d of
                       None \<Rightarrow> Some (Inl (runtime_error ''constructor''), st2)
                     | Some desc \<Rightarrow>
                         Option.bind (AddInternal cast onStart c desc st2) (\<lambda>(exc, st3).
                         finish_inject autoinit_throws c
                           (case exc of None \<Rightarrow> m_ptr (od_value desc)
                            | Some _ \<Rightarrow> Option.bind (memo_of st3 c TActual) (\<lambda>m. m_ptr (m_value m))) st3)))))"

section \<open>Exception filters and snoopers\<close>

text \<open>
  \<open>FilterException\<close>: \<open>handles f\<close> tells whether the filter \<open>f\<close> returns.  The result tells whether the
  exception was handled; if not, it is thrown again.  All filters are called.
\<close>

partial_function (option) FilterException ::
  "(addr \<Rightarrow> bool) \<Rightarrow> addr \<Rightarrow> 'a MemberStore_scheme \<Rightarrow> (bool \<times> addr list) option" where
  "FilterException handles c st =
     (let fs = m_filters (members st c); handled = (\<exists>f \<in> set fs. handles f) in
      (case GetParentContext st c of
         None \<Rightarrow> Some (handled, fs)
       | Some p \<Rightarrow> Option.bind (FilterException handles p st) (\<lambda>(r, called). Some (r \<or> handled, fs @ called))))"

partial_function (option) FilterFiringException :: "addr \<Rightarrow> 'a MemberStore_scheme \<Rightarrow> addr list option" where
  "FilterFiringException c st =
     (case GetParentContext st c of
        None \<Rightarrow> Some (m_filters (members st c))
      | Some p \<Rightarrow> Option.bind (FilterFiringException p st) (\<lambda>fs. Some (m_filters (members st c) @ fs)))"

definition InsertSnooper :: "addr \<Rightarrow> addr \<Rightarrow> 'a MemberStore_scheme \<Rightarrow> 'a MemberStore_scheme" where
  "InsertSnooper c s st = set_members c ((members st c)\<lparr>m_snoopers := List.insert s (m_snoopers (members st c))\<rparr>) st"

definition RemoveSnooper :: "addr \<Rightarrow> addr \<Rightarrow> 'a MemberStore_scheme \<Rightarrow> 'a MemberStore_scheme" where
  "RemoveSnooper c s st = set_members c ((members st c)\<lparr>m_snoopers := removeAll s (m_snoopers (members st c))\<rparr>) st"

definition BuildObjectState :: "addr \<Rightarrow> 'a MemberStore_scheme \<Rightarrow> CoreObjectDescriptor list" where
  "BuildObjectState c st = m_concreteTypes (members st c)"

end
