(* ===== verification/Type_Memo_Props.thy ===== *)
theory Type_Memo_Props
  imports Type_Memo Context_Enumerator_Props
begin

text \<open>
  Lookup of types and injection: the nearest context wins, a member that arrives late satisfies the
  lookups that wait for it, injection makes one object; and where the memos go wrong.
\<close>

section \<open>Memos\<close>

lemma map_of_memo_put [simp]: "map_of (memo_put ty m xs) k = (if k = ty then Some m else map_of xs k)"
  by (induction xs) auto

lemma memo_of_put [simp]:
  "memo_of (put_memo c ty m st) d k = (if d = c \<and> k = ty then Some m else memo_of st d k)"
  by (simp add: memo_of_def put_memo_def set_members_def)

lemma put_memo_frame [simp]:
  "contexts (put_memo c ty m st) = contexts st" "m_concreteTypes (members (put_memo c ty m st) d) = m_concreteTypes (members st d)"
  "m_filters (members (put_memo c ty m st) d) = m_filters (members st d)" "mlog (put_memo c ty m st) = mlog st"
  by (simp_all add: put_memo_def set_members_def)

lemma GetParentContext_cong: "contexts st' = contexts st \<Longrightarrow> GetParentContext st' c = GetParentContext st c"
  by (simp add: GetParentContext_def)

lemma memit_frame [simp]:
  "contexts (memit evs st) = contexts st" "members (memit evs st) = members st" "memo_of (memit evs st) = memo_of st"
  by (simp_all add: memit_def memo_of_def fun_eq_iff)

lemma set_members_frame [simp]:
  "contexts (set_members c k st) = contexts st" "members (set_members c k st) = (members st)(c := k)"
  by (simp_all add: set_members_def)

section \<open>The nearest context wins\<close>

text \<open>What a concrete type offers for the type looked up, and the candidates of one context.\<close>

definition offer :: "caster \<Rightarrow> auto_id \<Rightarrow> CoreObjectDescriptor \<Rightarrow> ptr" where
  "offer cast ty d = (if ty = od_type d then m_ptr (od_value d) else pFromObj cast ty (pCoreObject d))"

definition candidates :: "caster \<Rightarrow> auto_id \<Rightarrow> CoreObjectDescriptor list \<Rightarrow> CoreObjectDescriptor list" where
  "candidates cast ty ds = filter (\<lambda>d. ty = od_type d \<or> pFromObj cast ty (pCoreObject d) \<noteq> None) ds"

text \<open>The specification of a lookup: the only candidate of the nearest context that has any.\<close>

inductive resolves :: "caster \<Rightarrow> auto_id \<Rightarrow> 'a MemberStore_scheme \<Rightarrow> addr \<Rightarrow> ptr \<Rightarrow> bool" for cast ty st where
  here: "candidates cast ty (m_concreteTypes (members st c)) = [d] \<Longrightarrow> offer cast ty d = Some a \<Longrightarrow>
    resolves cast ty st c (Some a)"
| above: "candidates cast ty (m_concreteTypes (members st c)) = [] \<Longrightarrow> GetParentContext st c = Some p \<Longrightarrow>
    resolves cast ty st p r \<Longrightarrow> resolves cast ty st c r"
| nowhere: "candidates cast ty (m_concreteTypes (members st c)) = [] \<Longrightarrow> GetParentContext st c = None \<Longrightarrow>
    resolves cast ty st c None"

lemma match_type_None: "match_type cast ty d m = None \<longleftrightarrow> \<not> (ty = od_type d \<or> pFromObj cast ty (pCoreObject d) \<noteq> None)"
  by (auto simp: match_type_def split: option.splits)

lemma match_type_Some:
  "match_type cast ty d m = Some m1 \<Longrightarrow> m_ptr (m_value m1) = offer cast ty d \<and> pObjTraits m1 = pObjTraits m"
  by (auto simp: match_type_def offer_def memo_fire_def split: if_splits option.splits prod.splits)

lemma candidates_Cons:
  "match_type cast ty d m = None \<Longrightarrow> candidates cast ty (d # ds) = candidates cast ty ds"
  "match_type cast ty d m = Some m1 \<Longrightarrow> candidates cast ty (d # ds) = d # candidates cast ty ds"
  using match_type_None [of cast ty d m] by (auto simp: candidates_def)

lemma scan_types_none: "candidates cast ty ds = [] \<Longrightarrow> scan_types cast ty ds m = (False, m)"
proof (induction ds)
  case (Cons e ds)
  then have "match_type cast ty e m = None" using candidates_Cons(2) [of cast ty e m _ ds] by (cases "match_type cast ty e m") auto
  then show ?case using Cons candidates_Cons(1) [of cast ty e m ds] by simp
qed simp

lemma scan_types_one:
  "candidates cast ty ds = [d] \<Longrightarrow> pObjTraits m = None \<Longrightarrow>
   \<exists>m1. scan_types cast ty ds m = (False, m1) \<and> m_ptr (m_value m1) = offer cast ty d"
proof (induction ds)
  case (Cons e ds)
  show ?case
  proof (cases "match_type cast ty e m")
    case None
    then show ?thesis using Cons candidates_Cons(1) [OF None, of ds] by simp
  next
    case (Some m1)
    then have "e = d" "candidates cast ty ds = []" using Cons.prems(1) candidates_Cons(2) [OF Some, of ds] by auto
    then show ?thesis using Some match_type_Some [OF Some] Cons.prems(2) scan_types_none by simp
  qed
qed (simp add: candidates_def)

lemma scan_types_many:
  "2 \<le> length (candidates cast ty ds) \<or> (candidates cast ty ds \<noteq> [] \<and> pObjTraits m \<noteq> None) \<Longrightarrow>
   \<forall>d \<in> set ds. ty = od_type d \<longrightarrow> m_ptr (od_value d) \<noteq> None \<Longrightarrow>
   \<exists>m1. scan_types cast ty ds m = (True, m1) \<and> satisfied m1"
proof (induction ds arbitrary: m)
  case (Cons e ds)
  show ?case
  proof (cases "match_type cast ty e m")
    case None
    then show ?thesis using Cons candidates_Cons(1) [OF None, of ds] by simp
  next
    case (Some m1)
    then have hit: "ty = od_type e \<or> pFromObj cast ty (pCoreObject e) \<noteq> None"
      using match_type_None [of cast ty e m] by auto
    have m1: "satisfied m1" "pObjTraits m1 = pObjTraits m"
      using match_type_Some [OF Some] hit Cons.prems(2) by (auto simp: satisfied_def offer_def)
    show ?thesis
    proof (cases "pObjTraits m")
      case None
      then have "candidates cast ty ds \<noteq> []" using Cons.prems(1) candidates_Cons(2) [OF Some, of ds] by auto
      then show ?thesis using Cons.IH [of "m1\<lparr>pObjTraits := Some e\<rparr>"] Cons.prems(2) Some m1 None by simp
    qed (use Some m1 in simp)
  qed
qed (simp add: candidates_def)

lemma FindByType_unfold:
  "memo_of st c ty = None \<Longrightarrow> scan_types cast ty (m_concreteTypes (members st c)) (memo_new ty) = (False, m) \<Longrightarrow>
   \<not> nonrecursive \<Longrightarrow> GetParentContext st c = Some q \<Longrightarrow> \<not> satisfied m \<Longrightarrow>
   FindByType cast c ty nonrecursive st =
     Option.bind (FindByType cast q ty nonrecursive (put_memo c ty m st)) (\<lambda>(r, st1).
               case r of
                 Inl e \<Rightarrow> Some (Inl e, st1)
               | Inr p \<Rightarrow>
                   (case memo_of st1 p ty of
                      None \<Rightarrow> Some (Inl Undefined_behaviour, st1)
                    | Some parentEntry \<Rightarrow>
                        if satisfied parentEntry then Some (Inr p, put_memo c ty (memoize parentEntry m) st1)
                        else Some (Inr c, st1)))"
  by (subst FindByType.simps) simp

lemma FindByType_here:
  "memo_of st c ty = None \<Longrightarrow> scan_types cast ty (m_concreteTypes (members st c)) (memo_new ty) = (False, m) \<Longrightarrow>
   nonrecursive \<or> GetParentContext st c = None \<or> satisfied m \<Longrightarrow>
   FindByType cast c ty nonrecursive st = Some (Inr c, put_memo c ty m st)"
  by (subst FindByType.simps) auto

lemma FindByType_known: "memo_of st c ty \<noteq> None \<Longrightarrow> FindByType cast c ty nonrecursive st = Some (Inr c, st)"
  by (subst FindByType.simps) simp

definition memo_ptr :: "'a MemberStore_scheme \<Rightarrow> addr \<Rightarrow> auto_id \<Rightarrow> ptr" where
  "memo_ptr st c ty = Option.bind (memo_of st c ty) (\<lambda>m. m_ptr (m_value m))"

lemma lookup_type_FindByType:
  "FindByType cast c ty nonrecursive st = Some (Inr p, st1) \<Longrightarrow>
   lookup_type cast c ty nonrecursive st = Some (Inr (memo_ptr st1 p ty), st1)"
  by (simp add: lookup_type_def memo_ptr_def)

text \<open>Memos are made for the contexts on the way only, so those that have none keep having none.\<close>

definition same_members :: "'a MemberStore_scheme \<Rightarrow> 'a MemberStore_scheme \<Rightarrow> bool" where
  "same_members st st' \<longleftrightarrow> contexts st' = contexts st \<and>
     (\<forall>c. m_concreteTypes (members st' c) = m_concreteTypes (members st c))"

lemma FindByType_resolves:
  fixes st :: "'a MemberStore_scheme"
  assumes "tree_ok st"
  shows "resolves cast ty st c r \<Longrightarrow> same_members st st1 \<Longrightarrow>
    \<forall>p. level st p \<le> level st c \<longrightarrow> memo_of st1 p ty = None \<Longrightarrow> contexts st c \<noteq> None \<Longrightarrow>
    \<exists>p st2. FindByType cast c ty False st1 = Some (Inr p, st2) \<and> memo_ptr st2 p ty = r \<and> memo_ptr st2 c ty = r \<and>
      memo_of st2 p ty \<noteq> None \<and> memo_of st2 c ty \<noteq> None \<and>
      (\<forall>d. level st c < level st d \<longrightarrow> memo_of st2 d ty = memo_of st1 d ty)"
proof (induction arbitrary: st1 rule: resolves.induct)
  case (here c d a)
  have ds: "m_concreteTypes (members st1 c) = m_concreteTypes (members st c)" using here.prems(1) by (simp add: same_members_def)
  have "pObjTraits (memo_new ty) = None" by (simp add: memo_new_def)
  from scan_types_one [OF here.hyps(1) this] obtain m where
    m: "scan_types cast ty (m_concreteTypes (members st1 c)) (memo_new ty) = (False, m)" "m_ptr (m_value m) = Some a"
    using here.hyps(2) ds by auto
  have "FindByType cast c ty False st1 = Some (Inr c, put_memo c ty m st1)"
  proof (rule FindByType_here [OF _ m(1)])
    show "memo_of st1 c ty = None" using here.prems(2) by blast
    show "False \<or> GetParentContext st1 c = None \<or> satisfied m" using m(2) by (simp add: satisfied_def)
  qed
  moreover have "memo_ptr (put_memo c ty m st1) c ty = Some a" using m(2) by (simp add: memo_ptr_def)
  moreover have "\<forall>d. level st c < level st d \<longrightarrow> memo_of (put_memo c ty m st1) d ty = memo_of st1 d ty" by auto
  ultimately show ?case by auto
next
  case (above c p r)
  have p: "GetParentContext st1 c = Some p"
    using above.hyps(2) above.prems(1) by (simp add: same_members_def GetParentContext_def)
  have e: "edge st p c" using above.hyps(2) above.prems(3) by (simp add: edge_def)
  then have lp: "level st c = Suc (level st p)" by (rule edge_level [OF assms])
  have cp: "contexts st p \<noteq> None"
    using above.hyps(2) above.prems(3) tree_ok_parent [OF assms, of c _ p] by (auto simp: GetParentContext_def)
  let ?m = "memo_new ty"
  have scan: "scan_types cast ty (m_concreteTypes (members st1 c)) ?m = (False, ?m)"
    using above.hyps(1) above.prems(1) scan_types_none by (simp add: same_members_def)
  let ?st = "put_memo c ty ?m st1"
  have "same_members st ?st" using above.prems(1) by (simp add: same_members_def)
  moreover have "\<forall>q. level st q \<le> level st p \<longrightarrow> memo_of ?st q ty = None" using above.prems(2) lp by auto
  ultimately obtain q st2 where q: "FindByType cast p ty False ?st = Some (Inr q, st2)" "memo_ptr st2 q ty = r"
    "memo_of st2 q ty \<noteq> None" "\<forall>d. level st p < level st d \<longrightarrow> memo_of st2 d ty = memo_of ?st d ty"
    using above.IH [OF _ _ cp] by blast
  obtain pe where pe: "memo_of st2 q ty = Some pe" using q(3) by auto
  have c2: "memo_of st2 c ty = Some ?m" using q(4) lp by simp
  have unf: "FindByType cast c ty False st1 = (if satisfied pe then Some (Inr q, put_memo c ty (memoize pe ?m) st2) else Some (Inr c, st2))"
    using FindByType_unfold [OF _ scan _ p, of False] above.prems(2) q(1) pe by (simp add: satisfied_def memo_new_def)
  have keep: "memo_of st2 d ty = memo_of st1 d ty" if "level st c < level st d" for d
    using q(4) lp that by (cases "d = c") auto
  show ?case
  proof (cases "satisfied pe")
    case True
    then have "memo_ptr (put_memo c ty (memoize pe ?m) st2) q ty = r" "memo_ptr (put_memo c ty (memoize pe ?m) st2) c ty = r"
      using q(2) pe by (auto simp: memo_ptr_def memoize_def)
    then show ?thesis using unf True pe keep by auto
  next
    case False
    then have "r = None" using q(2) pe by (simp add: memo_ptr_def satisfied_def)
    then have "memo_ptr st2 c ty = r" using c2 by (simp add: memo_ptr_def memo_new_def)
    then show ?thesis using unf False c2 keep by auto
  qed
next
  case (nowhere c)
  have "scan_types cast ty (m_concreteTypes (members st1 c)) (memo_new ty) = (False, memo_new ty)"
    using nowhere.hyps(1) nowhere.prems(1) scan_types_none by (simp add: same_members_def)
  moreover have "GetParentContext st1 c = None"
    using nowhere.hyps(2) nowhere.prems(1) by (simp add: same_members_def GetParentContext_def)
  ultimately have "FindByType cast c ty False st1 = Some (Inr c, put_memo c ty (memo_new ty) st1)"
    using nowhere.prems(2) by (intro FindByType_here) auto
  then show ?case by (auto simp: memo_ptr_def memo_new_def)
qed

text \<open>
  C14.  In a well-formed tree, looking up a type that has not been looked up before in the context or
  above returns the only candidate of the nearest context that has any, or null if there is none; and
  a second lookup returns the same again and changes nothing.
\<close>

theorem lookup_finds_nearest:
  fixes st :: "'a MemberStore_scheme"
  assumes "tree_ok st" "contexts st c \<noteq> None" "resolves cast ty st c r" "\<forall>p. memo_of st p ty = None"
  shows "\<exists>st'. lookup_type cast c ty False st = Some (Inr r, st') \<and> lookup_type cast c ty False st' = Some (Inr r, st')"
proof -
  obtain p st' where st': "FindByType cast c ty False st = Some (Inr p, st')" "memo_ptr st' p ty = r" "memo_ptr st' c ty = r"
    "memo_of st' c ty \<noteq> None"
    using FindByType_resolves [OF assms(1,3), of st] assms(2,4) by (auto simp: same_members_def)
  have "lookup_type cast c ty False st' = Some (Inr r, st')"
    using lookup_type_FindByType [OF FindByType_known [OF st'(4)], of cast False] st'(3) by simp
  then show ?thesis using lookup_type_FindByType [OF st'(1)] st'(2) by auto
qed

text \<open>The tree of four contexts with an object of type 5 in the context 1.\<close>

definition ex_cast :: caster where
  "ex_cast ty a = (if ty = 5 \<and> (a = 100 \<or> a = 200) then Some a else None)"

definition ex_obj :: "addr \<Rightarrow> CoreObjectDescriptor" where
  "ex_obj a = \<lparr>od_type = 5, actual_type = 5, od_value = \<lparr>m_ti = 5, m_ptr = Some a\<rparr>, pCoreObject = Some a,
     pContextMember = None, pFilter = None, pBoltBase = None, pCoreRunnable = None, od_subscriber = False,
     pConfigWatcher = None\<rparr>"

definition no_members :: Members where
  "no_members = \<lparr>m_concreteTypes = [], m_typeMemos = [], m_contextMembers = [], m_filters = [], m_snoopers = []\<rparr>"

definition ex_store :: "(addr \<Rightarrow> CoreObjectDescriptor list) \<Rightarrow> MemberStore" where
  "ex_store objs = \<lparr>contexts = contexts four, runnables = Map.empty, log = [],
     members = (\<lambda>c. no_members\<lparr>m_concreteTypes := objs c\<rparr>), mlog = []\<rparr>"

lemma ex_store_tree: "tree_ok (ex_store objs)"
proof -
  have "tree_ok four" using ctx_reach_inv [OF four_reach] by (simp add: ctx_inv_def)
  then show ?thesis using tree_ok_contexts_cong [of four "ex_store objs"] by (simp add: ex_store_def)
qed

lemma ex_store_simps [simp]:
  "contexts (ex_store objs) = contexts four" "memo_of (ex_store objs) c ty = None"
  "m_concreteTypes (members (ex_store objs) c) = objs c"
  by (simp_all add: ex_store_def memo_of_def no_members_def)

lemma ex_store_parent:
  "GetParentContext (ex_store objs) 0 = None" "GetParentContext (ex_store objs) 1 = Some 0"
  "GetParentContext (ex_store objs) 3 = Some 1" "contexts four 3 \<noteq> None" "GetParentContext (ex_store objs) (Suc 0) = Some 0"
  by (simp_all add: GetParentContext_def four_contexts context_new_def)

theorem lookup_finds_nearest_witness:
  "\<exists>st'. lookup_type ex_cast 3 5 False (ex_store ((\<lambda>_. [])(0 := [ex_obj 200], 1 := [ex_obj 100]))) = Some (Inr (Some 100), st')"
proof -
  let ?st = "ex_store ((\<lambda>_. [])(0 := [ex_obj 200], 1 := [ex_obj 100]))"
  have "resolves ex_cast 5 ?st 1 (Some 100)"
    by (rule resolves.here [of _ _ _ _ "ex_obj 100"]) (simp_all add: candidates_def offer_def ex_obj_def)
  then have r: "resolves ex_cast 5 ?st 3 (Some 100)"
    by (rule resolves.above [rotated 2]) (simp_all add: candidates_def ex_store_parent)
  from lookup_finds_nearest [OF ex_store_tree _ r] show ?thesis using ex_store_parent(4) by auto
qed

section \<open>Ambiguity\<close>

text \<open>
  Looking up a type for which a context has several candidates throws; but the entry that the lookup
  has begun stays, and from the second lookup on one of the candidates is returned without an exception.
\<close>

lemma ambiguity_is_forgotten:
  assumes "memo_of st c ty = None" "2 \<le> length (candidates cast ty (m_concreteTypes (members st c)))"
    and "\<forall>d \<in> set (m_concreteTypes (members st c)). ty = od_type d \<longrightarrow> m_ptr (od_value d) \<noteq> None"
  shows "\<exists>st' a. lookup_type cast c ty nonrecursive st = Some (Inl ambiguity, st') \<and>
    lookup_type cast c ty nonrecursive st' = Some (Inr (Some a), st')"
proof -
  obtain m where m: "scan_types cast ty (m_concreteTypes (members st c)) (memo_new ty) = (True, m)" "satisfied m"
    using scan_types_many [of cast ty "m_concreteTypes (members st c)" "memo_new ty"] assms(2,3) by auto
  have "FindByType cast c ty nonrecursive st = Some (Inl ambiguity, put_memo c ty m st)"
    using assms(1) m(1) by (subst FindByType.simps) simp
  moreover have "FindByType cast c ty nonrecursive (put_memo c ty m st) = Some (Inr c, put_memo c ty m st)"
    by (rule FindByType_known) simp
  ultimately show ?thesis using m(2) by (auto simp: lookup_type_def satisfied_def)
qed

lemma ambiguity_is_forgotten_witness:
  "\<exists>st' a. lookup_type ex_cast 1 5 False (ex_store (\<lambda>_. [ex_obj 100, ex_obj 200])) = Some (Inl ambiguity, st') \<and>
     lookup_type ex_cast 1 5 False st' = Some (Inr (Some a), st')"
  by (rule ambiguity_is_forgotten) (simp_all add: candidates_def ex_obj_def)

section \<open>Late members\<close>

lemma update_memos_frame [simp]:
  "contexts (update_memos cast d local c st) = contexts st"
  by (simp add: update_memos_def Let_def)

lemma live_children_contexts: "contexts st' = contexts st \<Longrightarrow> live_children st' c = live_children st c"
  using live_children_shape [of st' st] shape_contexts_cong [of st' st] by blast

definition update_all :: "caster \<Rightarrow> CoreObjectDescriptor \<Rightarrow> addr list \<Rightarrow> 'a MemberStore_scheme \<Rightarrow> 'a MemberStore_scheme" where
  "update_all cast d xs st = fold (update_memos cast d False) xs st"

lemma update_all_frame [simp]: "contexts (update_all cast d xs st) = contexts st"
  by (induction xs arbitrary: st) (simp_all add: update_all_def)

lemma update_each_Cons:
  "update_each cast d local (c # cs) st =
     Option.bind (update_each cast d False (live_children st c) (update_memos cast d local c st)) (update_each cast d local cs)"
  by (subst update_each.simps) simp

text \<open>The recursion over the children is one pass over the subtree.\<close>

lemma update_each_visits:
  fixes st :: "'a MemberStore_scheme"
  shows "visits st cs xs \<Longrightarrow> contexts st1 = contexts st \<Longrightarrow> update_each cast d False cs st1 = Some (update_all cast d xs st1)"
proof (induction arbitrary: st1 rule: visits.induct)
  case none
  then show ?case by (subst update_each.simps) (simp add: update_all_def)
next
  case (sub c xs cs ys)
  have "live_children st1 c = live_children st c" using sub.prems by (rule live_children_contexts)
  then have "update_each cast d False (live_children st1 c) (update_memos cast d False c st1) =
      Some (update_all cast d xs (update_memos cast d False c st1))"
    using sub.IH(1) [of "update_memos cast d False c st1"] sub.prems by simp
  moreover have "update_each cast d False cs (update_all cast d xs (update_memos cast d False c st1)) =
      Some (update_all cast d ys (update_all cast d xs (update_memos cast d False c st1)))"
    by (rule sub.IH(2)) (simp add: sub.prems)
  ultimately show ?case by (simp add: update_each_Cons update_all_def)
qed

lemma UpdateDeferredElements_pass:
  fixes st :: "'a MemberStore_scheme"
  assumes "visits st (live_children st c) xs"
  shows "UpdateDeferredElements cast d True c st = Some (update_all cast d xs (update_memos cast d True c st))"
proof -
  have "live_children (update_memos cast d True c st) c = live_children st c" by (rule live_children_contexts) simp
  then show ?thesis
    using update_each_visits [OF assms, of "update_memos cast d True c st" cast d]
    by (simp add: UpdateDeferredElements_def update_each_Cons update_each.simps [of _ _ _ "[]"])
qed

definition updated :: "caster \<Rightarrow> CoreObjectDescriptor \<Rightarrow> bool \<Rightarrow> MemoEntry \<Rightarrow> MemoEntry" where
  "updated cast d local m = (if deferred_hit cast d m then snd (memo_fire (deferred_assign cast d local m)) else m)"

lemma memo_of_update:
  "memo_of (update_memos cast d local c st) x ty =
     (if x = c then map_option (updated cast d local) (memo_of st c ty) else memo_of st x ty)"
proof -
  have "map_of (map (\<lambda>(k, m). (k, f m)) xs) ty = map_option f (map_of xs ty)" for f :: "MemoEntry \<Rightarrow> MemoEntry" and xs
    by (induction xs) auto
  moreover have "updated cast d local =
      (\<lambda>m. if deferred_hit cast d m then snd (memo_fire (deferred_assign cast d local m)) else m)"
    by (simp add: updated_def fun_eq_iff)
  ultimately show ?thesis by (simp add: memo_of_def update_memos_def Let_def)
qed

lemma memo_of_update_all:
  "distinct xs \<Longrightarrow> memo_of (update_all cast d xs st) x ty =
     (if x \<in> set xs then map_option (updated cast d False) (memo_of st x ty) else memo_of st x ty)"
  by (induction xs arbitrary: st) (auto simp: update_all_def memo_of_update)

text \<open>The listeners that an update calls, and that nothing logged is taken back.\<close>

lemma mlog_update:
  "\<exists>evs. mlog (update_memos cast d local c st) = mlog st @ evs \<and>
     (\<forall>ty m f. memo_of st c ty = Some m \<longrightarrow> deferred_hit cast d m \<longrightarrow> f \<in> set (fst (memo_fire m)) \<longrightarrow> Ev_satisfied f \<in> set evs)"
proof -
  let ?memos = "m_typeMemos (members st c)"
  let ?called = "concat (map (\<lambda>(ty, m). if deferred_hit cast d m then fst (memo_fire m) else []) ?memos)"
  have "f \<in> set ?called" if "memo_of st c ty = Some m" "deferred_hit cast d m" "f \<in> set (fst (memo_fire m))" for ty m f
    using map_of_SomeD [of ?memos ty m] that by (force simp: memo_of_def)
  then show ?thesis by (auto simp: update_memos_def Let_def memit_def set_members_def)
qed

lemma mlog_update_all:
  "distinct xs \<Longrightarrow> \<exists>evs. mlog (update_all cast d xs st) = mlog st @ evs \<and>
     (\<forall>x ty m f. x \<in> set xs \<longrightarrow> memo_of st x ty = Some m \<longrightarrow> deferred_hit cast d m \<longrightarrow> f \<in> set (fst (memo_fire m)) \<longrightarrow>
        Ev_satisfied f \<in> set evs)"
proof (induction xs arbitrary: st)
  case (Cons c xs)
  let ?st = "update_memos cast d False c st"
  obtain evs1 where e1: "mlog ?st = mlog st @ evs1" "\<forall>ty m f. memo_of st c ty = Some m \<longrightarrow> deferred_hit cast d m \<longrightarrow>
      f \<in> set (fst (memo_fire m)) \<longrightarrow> Ev_satisfied f \<in> set evs1" using mlog_update by metis
  obtain evs2 where e2: "mlog (update_all cast d xs ?st) = mlog ?st @ evs2"
    "\<forall>x ty m f. x \<in> set xs \<longrightarrow> memo_of ?st x ty = Some m \<longrightarrow> deferred_hit cast d m \<longrightarrow>
      f \<in> set (fst (memo_fire m)) \<longrightarrow> Ev_satisfied f \<in> set evs2" using Cons.IH [of ?st] Cons.prems by auto
  have "memo_of ?st x ty = memo_of st x ty" if "x \<in> set xs" for x ty using that Cons.prems by (auto simp: memo_of_update)
  then have "\<forall>x ty m f. x \<in> set (c # xs) \<longrightarrow> memo_of st x ty = Some m \<longrightarrow> deferred_hit cast d m \<longrightarrow>
      f \<in> set (fst (memo_fire m)) \<longrightarrow> Ev_satisfied f \<in> set (evs1 @ evs2)"
    using e1(2) e2(2) by (metis Un_iff set_ConsD set_append)
  moreover have "mlog (update_all cast d (c # xs) st) = mlog st @ evs1 @ evs2" using e1(1) e2(1) by (simp add: update_all_def)
  ultimately show ?case by blast
qed (simp add: update_all_def)

lemma updated_hit:
  assumes "deferred_hit cast d m" "pFromObj cast (m_ti (m_value m)) (pCoreObject d) = Some a"
  shows "m_ptr (m_value (updated cast d local m)) = Some a" "once_get (onSatisfied (updated cast d local m))"
    "m_local (updated cast d local m) = local" "m_fns (onSatisfied m) = fst (memo_fire m) \<or> once_get (onSatisfied m)"
proof -
  have "once_calls (\<lambda>_. False) fs = (False, fs)" for fs by (rule once_calls_all) simp
  then show "m_ptr (m_value (updated cast d local m)) = Some a" "once_get (onSatisfied (updated cast d local m))"
    "m_local (updated cast d local m) = local" "m_fns (onSatisfied m) = fst (memo_fire m) \<or> once_get (onSatisfied m)"
    using assms by (auto simp: updated_def deferred_assign_def try_assign_def memo_fire_def once_signal_def once_get_def)
qed

lemma mlog_pass:
  assumes "distinct (c # xs)" "x \<in> set (c # xs)" "deferred_hit cast d m" "memo_of st x ty = Some m"
  shows "\<exists>evs. mlog (update_all cast d xs (update_memos cast d True c st)) = mlog st @ evs \<and>
    (\<forall>f \<in> set (fst (memo_fire m)). Ev_satisfied f \<in> set evs)"
proof -
  let ?st = "update_memos cast d True c st"
  obtain e1 where e1: "mlog ?st = mlog st @ e1"
    "\<forall>ty m f. memo_of st c ty = Some m \<longrightarrow> deferred_hit cast d m \<longrightarrow> f \<in> set (fst (memo_fire m)) \<longrightarrow> Ev_satisfied f \<in> set e1"
    using mlog_update by metis
  obtain e2 where e2: "mlog (update_all cast d xs ?st) = mlog ?st @ e2"
    "\<forall>x ty m f. x \<in> set xs \<longrightarrow> memo_of ?st x ty = Some m \<longrightarrow> deferred_hit cast d m \<longrightarrow>
      f \<in> set (fst (memo_fire m)) \<longrightarrow> Ev_satisfied f \<in> set e2"
    using mlog_update_all [of xs cast d ?st] assms(1) by auto
  have "Ev_satisfied f \<in> set (e1 @ e2)" if "f \<in> set (fst (memo_fire m))" for f
  proof (cases "x = c")
    case True
    then show ?thesis using e1(2) assms(3,4) that by auto
  next
    case False
    then have "x \<in> set xs" "memo_of ?st x ty = Some m" using assms(2,4) by (auto simp: memo_of_update)
    then show ?thesis using e2(2) assms(3) that by auto
  qed
  moreover have "mlog (update_all cast d xs ?st) = mlog st @ e1 @ e2" using e1(1) e2(1) by simp
  ultimately show ?thesis by blast
qed

text \<open>A member without any role besides that of an object.\<close>

definition plain :: "CoreObjectDescriptor \<Rightarrow> bool" where
  "plain d \<longleftrightarrow> pBoltBase d = None \<and> pCoreRunnable d = None"

lemma AddInternal_waiting:
  fixes st :: MemberStore
  assumes "tree_ok st" "kids_distinct st" "plain d"
    and "\<And>v. memo_of st c (actual_type d) = Some v \<Longrightarrow> m_local v \<and> \<not> satisfied v"
    and "(edge st)\<^sup>*\<^sup>* c x" "memo_of st x ty = Some m" "\<not> satisfied m" "pFromObj cast (m_ti (m_value m)) (pCoreObject d) = Some a"
  shows "\<exists>st' m'. AddInternal cast onStart c d st = Some (None, st') \<and> memo_of st' x ty = Some m' \<and>
    m_ptr (m_value m') = Some a \<and> m_local m' = (x = c) \<and> once_get (onSatisfied m') \<and>
    (\<not> once_get (onSatisfied m) \<longrightarrow> (\<forall>f \<in> set (m_fns (onSatisfied m)). Ev_satisfied f \<in> set (mlog st')))"
proof -
  obtain xs where xs: "visits st (live_children st c) xs"
    using visits_exist [OF assms(1), of "live_children st c" "height_bound st"] by auto
  then have all: "visits st [c] (c # xs)" using visits.sub [OF xs visits.none] by simp
  have dis: "distinct (c # xs)" by (rule visits_distinct [OF all assms(1,2)]) simp_all
  have x: "x \<in> set (c # xs)" using visits_set [OF all assms(1)] assms(5) by simp
  define st1 where "st1 = (case memo_of st c (actual_type d) of None \<Rightarrow> st | Some v \<Rightarrow> put_memo c (actual_type d) v st)"
  have check: "(case memo_of st c (actual_type d) of None \<Rightarrow> Inr st
      | Some v \<Rightarrow> bindR (check_addition d v) (\<lambda>v1. Inr (put_memo c (actual_type d) v1 st))) = Inr st1"
    using assms(4) by (auto simp: st1_def check_addition_def satisfied_def split: option.splits)
  let ?st2 = "set_members c (add_member d (members st1 c)) st1"
  have memo2: "memo_of ?st2 y k = memo_of st y k" for y k
  proof -
    have "memo_of st1 y k = memo_of st y k" by (auto simp: st1_def split: option.splits)
    then show ?thesis by (auto simp: memo_of_def add_member_def)
  qed
  have cx: "contexts ?st2 = contexts st" by (simp add: st1_def split: option.splits)
  have "visits ?st2 (live_children ?st2 c) xs"
  proof -
    have lc: "live_children ?st2 y = live_children st y" for y using cx by (rule live_children_contexts)
    have "visits st cs ys \<Longrightarrow> visits ?st2 cs ys" for cs ys
      by (induction rule: visits.induct) (auto intro: visits.intros simp: lc [symmetric])
    then show ?thesis using xs lc by simp
  qed
  then have upd: "UpdateDeferredElements cast d True c ?st2 = Some (update_all cast d xs (update_memos cast d True c ?st2))"
    by (rule UpdateDeferredElements_pass)
  define st3 where "st3 = update_all cast d xs (update_memos cast d True c ?st2)"
  have hit: "deferred_hit cast d m" using assms(7,8) by (simp add: deferred_hit_def try_assign_def)
  have memo3: "memo_of st3 x ty = Some (updated cast d (x = c) m)"
    using dis x assms(6) memo2 by (auto simp: st3_def memo_of_update_all memo_of_update)
  obtain evs where evs: "mlog st3 = mlog ?st2 @ evs" "\<forall>f \<in> set (fst (memo_fire m)). Ev_satisfied f \<in> set evs"
    using mlog_pass [OF dis x hit, of ?st2 ty] memo2 assms(6) unfolding st3_def by auto
  obtain evs' where "AddInternal cast onStart c d st = Some (None, memit evs' st3)"
  proof -
    have "\<exists>evs'. AddInternal cast onStart c d st = Some (None, memit evs' st3)"
      unfolding AddInternal_def check using upd assms(3)
      by (auto simp: plain_def st3_def [symmetric] Let_def memit_def split: option.splits)
    then show ?thesis using that by blast
  qed
  moreover have "Ev_satisfied f \<in> set (mlog (memit evs' st3))"
    if "\<not> once_get (onSatisfied m)" "f \<in> set (m_fns (onSatisfied m))" for f
    using that updated_hit(4) [OF hit assms(8)] evs by (auto simp: memit_def)
  ultimately show ?thesis using memo3 updated_hit(1-3) [OF hit assms(8), of "x = c"] by auto
qed

text \<open>
  C15.  Adding a member to a context of a well-formed tree that has no member of its type returns without an
  exception, and every lookup that waits at or below the context for a type the member can be cast to is
  satisfied by it: the entry gets the pointer, is marked local exactly in the context of the member, and
  every listener that has been waiting on it is called.
\<close>

theorem AddInternal_satisfies_waiting:
  fixes st :: MemberStore
  assumes "tree_ok st" "kids_distinct st" "plain d"
    and "\<And>v. memo_of st c (actual_type d) = Some v \<Longrightarrow> m_local v \<and> \<not> satisfied v"
    and "(edge st)\<^sup>*\<^sup>* c x" "memo_of st x ty = Some m" "\<not> satisfied m" "pFromObj cast (m_ti (m_value m)) (pCoreObject d) = Some a"
  shows "\<exists>st' m'. AddInternal cast onStart c d st = Some (None, st') \<and> memo_of st' x ty = Some m' \<and>
    m_ptr (m_value m') = Some a \<and> m_local m' = (x = c) \<and> once_get (onSatisfied m') \<and>
    (\<not> once_get (onSatisfied m) \<longrightarrow> (\<forall>f \<in> set (m_fns (onSatisfied m)). Ev_satisfied f \<in> set (mlog st')))"
  using assms by (rule AddInternal_waiting)

lemma ex_store_kids: "kids_distinct (ex_store objs)"
  by (auto simp: kids_distinct_def four_contexts context_new_def split: if_splits)

lemma tree_ok_put [simp]: "tree_ok (put_memo c ty m st) = tree_ok st" "kids_distinct (put_memo c ty m st) = kids_distinct st"
  by (rule tree_ok_contexts_cong, simp) (simp add: kids_distinct_def)

lemma ex_edges: "edge (put_memo c ty m (ex_store objs)) 1 3"
  using ex_store_parent(3) [of objs] by (simp add: edge_def GetParentContext_def four_contexts)

theorem AddInternal_satisfies_waiting_witness:
  "\<exists>(st :: MemberStore) st'. mlog st = [] \<and> AddInternal ex_cast (\<lambda>_. True) 1 (ex_obj 100) st = Some (None, st') \<and>
     memo_ptr st' 3 5 = Some 100 \<and> Ev_satisfied 9 \<in> set (mlog st')"
proof -
  let ?m = "(memo_new 5)\<lparr>onSatisfied := \<lparr>once_state = unsignalled, m_fns = [9]\<rparr>\<rparr>"
  let ?st = "put_memo 3 5 ?m (ex_store (\<lambda>_. []))"
  have "\<exists>st' m'. AddInternal ex_cast (\<lambda>_. True) 1 (ex_obj 100) ?st = Some (None, st') \<and> memo_of st' 3 5 = Some m' \<and>
    m_ptr (m_value m') = Some 100 \<and> m_local m' = (3 = (1::addr)) \<and> once_get (onSatisfied m') \<and>
    (\<not> once_get (onSatisfied ?m) \<longrightarrow> (\<forall>f \<in> set (m_fns (onSatisfied ?m)). Ev_satisfied f \<in> set (mlog st')))"
  proof (rule AddInternal_satisfies_waiting)
    show "tree_ok ?st" "kids_distinct ?st" by (simp_all add: ex_store_tree ex_store_kids)
    show "(edge ?st)\<^sup>*\<^sup>* 1 3" using ex_edges by blast
  qed (simp_all add: plain_def ex_obj_def memo_new_def satisfied_def pFromObj_def ex_cast_def)
  then obtain st' m' where "AddInternal ex_cast (\<lambda>_. True) 1 (ex_obj 100) ?st = Some (None, st')" "memo_of st' 3 5 = Some m'"
    "m_ptr (m_value m') = Some 100" "Ev_satisfied 9 \<in> set (mlog st')" by (auto simp: once_get_def)
  moreover have "mlog ?st = []" by (simp add: ex_store_def)
  ultimately show ?thesis by (intro exI [of _ ?st] exI [of _ st']) (simp add: memo_ptr_def)
qed

section \<open>Where the memos go wrong\<close>

lemma AddInternal_plain:
  assumes "plain d" "memo_of st c (actual_type d) = None" "visits st (live_children st c) xs"
  shows "\<exists>evs. AddInternal cast onStart c d st = Some (None, memit evs
    (update_all cast d xs (update_memos cast d True c (set_members c (add_member d (members st c)) st))))"
proof -
  let ?st = "set_members c (add_member d (members st c)) st"
  have lc: "live_children ?st y = live_children st y" for y by (rule live_children_contexts) simp
  have "visits st cs ys \<Longrightarrow> visits ?st cs ys" for cs ys
    by (induction rule: visits.induct) (auto intro: visits.intros simp: lc [symmetric])
  from UpdateDeferredElements_pass [OF this, of c xs cast d] have
    "UpdateDeferredElements cast d True c ?st = Some (update_all cast d xs (update_memos cast d True c ?st))"
    using assms(3) lc by simp
  then show ?thesis using assms(1,2) by (auto simp: AddInternal_def plain_def Let_def memit_def split: option.splits)
qed

lemma memo_of_add_member [simp]: "memo_of (set_members c (add_member d (members st c)) st) = memo_of st"
  by (auto simp: memo_of_def add_member_def fun_eq_iff)

lemma ex_visits:
  assumes "contexts st = contexts four"
  shows "visits st (live_children st 0) [1, 3, 2]"
proof -
  have lc: "live_children st 0 = [1, 2]" "live_children st 1 = [3]" "live_children st 2 = []" "live_children st 3 = []"
    using assms by (simp_all add: live_children_def four_contexts context_new_def)
  have leaf: "visits st [x] [x]" if "live_children st x = []" for x
    using visits.sub [of st x "[]" "[]" "[]", OF _ visits.none] that visits.none [of st] by simp
  have "visits st (live_children st 1) [3]" "visits st [2] [2]" using leaf lc by (simp_all del: One_nat_def)
  from visits.sub [OF this] show ?thesis using lc(1) by simp
qed

text \<open>
  A lookup that was satisfied by the nearest context is redirected to a farther one: context 3 finds the
  object of its parent, context 1; when a member of the type is added to context 0, above both, the entry
  of context 3 (not local) is overwritten, while context 1 keeps its own object.
\<close>

lemma far_member_replaces_near:
  "\<exists>st1 st2. lookup_type ex_cast 3 5 False (ex_store ((\<lambda>_. [])(1 := [ex_obj 100]))) = Some (Inr (Some 100), st1) \<and>
     AddInternal ex_cast (\<lambda>_. True) 0 (ex_obj 200) st1 = Some (None, st2) \<and>
     lookup_type ex_cast 3 5 False st2 = Some (Inr (Some 200), st2) \<and>
     lookup_type ex_cast 1 5 False st2 = Some (Inr (Some 100), st2)"
proof -
  let ?st = "ex_store ((\<lambda>_. [])(1 := [ex_obj 100]))"
  let ?m3 = "memo_new 5" and ?m1 = "(memo_new 5)\<lparr>m_value := \<lparr>m_ti = 5, m_ptr = Some 100\<rparr>, pObjTraits := Some (ex_obj 100)\<rparr>"
  let ?sta = "put_memo 3 5 ?m3 ?st"
  have "FindByType ex_cast 1 5 False ?sta = Some (Inr 1, put_memo 1 5 ?m1 ?sta)"
    by (rule FindByType_here) (simp_all add: match_type_def ex_obj_def memo_new_def satisfied_def)
  then have find: "FindByType ex_cast 3 5 False ?st = Some (Inr 1, put_memo 3 5 (memoize ?m1 ?m3) (put_memo 1 5 ?m1 ?sta))"
    using FindByType_unfold [of ?st 3 5 ex_cast ?m3 False 1] by (simp add: ex_store_parent satisfied_def memo_new_def)
  define st1 where "st1 = put_memo 3 5 (memoize ?m1 ?m3) (put_memo 1 5 ?m1 ?sta)"
  have m: "memo_of st1 3 5 = Some (memoize ?m1 ?m3)" "memo_of st1 1 5 = Some ?m1" "memo_of st1 0 5 = None"
    by (simp_all add: st1_def)
  have p: "plain (ex_obj 200)" "actual_type (ex_obj 200) = 5" by (simp_all add: plain_def ex_obj_def)
  have v: "visits st1 (live_children st1 0) [1, 3, 2]" by (rule ex_visits) (simp add: st1_def)
  from AddInternal_plain [OF p(1) _ v, of ex_cast "\<lambda>_. True"] m(3) p(2) obtain evs where
    add: "AddInternal ex_cast (\<lambda>_. True) 0 (ex_obj 200) st1 = Some (None, memit evs (update_all ex_cast (ex_obj 200) [1, 3, 2]
      (update_memos ex_cast (ex_obj 200) True 0 (set_members 0 (add_member (ex_obj 200) (members st1 0)) st1))))" by auto
  define st2 where "st2 = memit evs (update_all ex_cast (ex_obj 200) [1, 3, 2]
      (update_memos ex_cast (ex_obj 200) True 0 (set_members 0 (add_member (ex_obj 200) (members st1 0)) st1)))"
  have "memo_of st2 3 5 = Some (updated ex_cast (ex_obj 200) False (memoize ?m1 ?m3))"
    "memo_of st2 1 5 = Some (updated ex_cast (ex_obj 200) False ?m1)"
    by (simp_all add: st2_def memo_of_update_all memo_of_update m del: One_nat_def)
  then have "memo_ptr st2 3 5 = Some 200" "memo_ptr st2 1 5 = Some 100" "memo_of st2 3 5 \<noteq> None" "memo_of st2 1 5 \<noteq> None"
    by (simp_all add: memo_ptr_def updated_def deferred_hit_def deferred_assign_def try_assign_def memoize_def memo_new_def
      satisfied_def pFromObj_def ex_cast_def ex_obj_def memo_fire_def once_signal_def once_new_def once_get_def)
  then have "lookup_type ex_cast 3 5 False st2 = Some (Inr (Some 200), st2)" "lookup_type ex_cast 1 5 False st2 = Some (Inr (Some 100), st2)"
    using lookup_type_FindByType [OF FindByType_known] by metis+
  moreover have "lookup_type ex_cast 3 5 False ?st = Some (Inr (Some 100), st1)"
    using lookup_type_FindByType [OF find] by (simp add: st1_def memo_ptr_def)
  ultimately show ?thesis using add unfolding st2_def by blast
qed

text \<open>
  A lookup that does not search the ancestors leaves an empty entry, and every later lookup of the type
  in the context returns it: an injection whose constructor throws hides an object of an ancestor.
\<close>

lemma failed_injection_hides_ancestor:
  "\<exists>st1. Inject ex_cast (\<lambda>_. True) 1 5 5 None False (ex_store ((\<lambda>_. [])(0 := [ex_obj 200]))) = Some (Inl (runtime_error ''constructor''), st1) \<and>
     lookup_type ex_cast 1 5 False st1 = Some (Inr None, st1) \<and> m_concreteTypes (members st1 0) = [ex_obj 200] \<and>
     GetParentContext st1 1 = Some 0"
proof -
  let ?st = "ex_store ((\<lambda>_. [])(0 := [ex_obj 200]))"
  let ?st1 = "put_memo 1 5 (memo_new 5) ?st"
  have "FindByType ex_cast 1 5 True ?st = Some (Inr 1, ?st1)" by (rule FindByType_here) simp_all
  moreover have k: "FindByType ex_cast 1 5 nr ?st1 = Some (Inr 1, ?st1)" for nr by (rule FindByType_known) simp
  ultimately have "Inject ex_cast (\<lambda>_. True) 1 5 5 None False ?st = Some (Inl (runtime_error ''constructor''), ?st1)"
    by (simp add: Inject_def satisfied_def memo_new_def)
  moreover have "lookup_type ex_cast 1 5 False ?st1 = Some (Inr None, ?st1)"
    using lookup_type_FindByType [OF k] by (simp add: memo_ptr_def memo_new_def)
  moreover have "GetParentContext ?st1 1 = Some 0" using ex_store_parent(2) GetParentContext_cong [of ?st1 ?st 1] by simp
  ultimately show ?thesis by auto
qed

lemma fire_each_Cons:
  "fire_each owner ty (c # cs) st = Option.bind (fire_each owner ty (live_children st c) (fire_entry owner ty st)) (fire_each owner ty cs)"
  by (subst fire_each.simps) simp

lemma fire_entry_frame [simp]: "contexts (fire_entry owner ty st) = contexts st"
  by (simp add: fire_entry_def split: option.splits)

lemma fire_entry_other: "x \<noteq> owner \<Longrightarrow> memo_of (fire_entry owner ty st) x k = memo_of st x k"
  by (simp add: fire_entry_def split: option.splits)

lemma fire_each_visits:
  fixes st :: "'a MemberStore_scheme"
  shows "visits st cs xs \<Longrightarrow> contexts st1 = contexts st \<Longrightarrow>
    \<exists>st2. fire_each owner ty cs st1 = Some st2 \<and> contexts st2 = contexts st \<and>
      (\<forall>x k. x \<noteq> owner \<longrightarrow> memo_of st2 x k = memo_of st1 x k)"
proof (induction arbitrary: st1 rule: visits.induct)
  case none
  then show ?case by (subst fire_each.simps) simp
next
  case (sub c xs cs ys)
  have lc: "live_children st1 c = live_children st c" using sub.prems by (rule live_children_contexts)
  have c1: "contexts (fire_entry owner ty st1) = contexts st" using sub.prems by simp
  from sub.IH(1) [OF c1] obtain st2 where
    s2: "fire_each owner ty (live_children st c) (fire_entry owner ty st1) = Some st2" "contexts st2 = contexts st"
      "\<forall>x k. x \<noteq> owner \<longrightarrow> memo_of st2 x k = memo_of (fire_entry owner ty st1) x k"
    by blast
  from sub.IH(2) [OF s2(2)] obtain st3 where
    s3: "fire_each owner ty cs st2 = Some st3" "contexts st3 = contexts st"
      "\<forall>x k. x \<noteq> owner \<longrightarrow> memo_of st3 x k = memo_of st2 x k"
    by blast
  show ?case
    using s2 s3 lc fire_entry_other [of _ owner ty st1] by (auto simp: fire_each_Cons)
qed

text \<open>
  \<open>Add\<close> of a pointer to a context does not reach the lookups that wait for its type in the contexts below:
  only the entry of the context itself is signalled, again and again, and the entry of the child stays
  empty.
\<close>

lemma Add_misses_children:
  "\<exists>st1 st2. lookup_type ex_cast 1 5 False (ex_store (\<lambda>_. [])) = Some (Inr None, st1) \<and>
     AddPointer 0 \<lparr>m_ti = 5, m_ptr = Some 100\<rparr> st1 = Some (None, st2) \<and> lookup_type ex_cast 1 5 False st2 = Some (Inr None, st2)"
proof -
  let ?st = "ex_store (\<lambda>_. [])" and ?m = "memo_new 5"
  have "FindByType ex_cast 0 5 False (put_memo 1 5 ?m ?st) = Some (Inr 0, put_memo 0 5 ?m (put_memo 1 5 ?m ?st))"
    using GetParentContext_cong [of "put_memo 1 5 ?m ?st" ?st 0] by (intro FindByType_here) (simp_all add: ex_store_parent)
  then have f: "FindByType ex_cast 1 5 False ?st = Some (Inr 1, put_memo 0 5 ?m (put_memo 1 5 ?m ?st))"
    using FindByType_unfold [of ?st 1 5 ex_cast ?m False 0] by (simp add: ex_store_parent satisfied_def memo_new_def)
  define st1 where "st1 = put_memo 0 5 ?m (put_memo 1 5 ?m ?st)"
  let ?p = "\<lparr>m_ti = 5, m_ptr = Some 100\<rparr>"
  let ?sta = "put_memo 0 5 (?m\<lparr>m_local := True, m_value := ?p\<rparr>) (put_memo 0 5 ?m st1)"
  have cx: "contexts ?sta = contexts four" by (simp add: st1_def)
  have "visits ?sta [0] (0 # [1, 3, 2] @ [])" by (rule visits.sub [OF ex_visits [OF cx] visits.none])
  from fire_each_visits [OF this refl, of 0 5] obtain st2 where st2: "fire_each 0 5 [0] ?sta = Some st2"
    "memo_of st2 1 5 = memo_of ?sta 1 5" by auto
  have m0: "memo_of st1 0 5 = Some ?m" by (simp add: st1_def)
  have "AddPointer 0 ?p st1 = Some (None, st2)"
    using st2(1) m0 by (simp add: AddPointer_def Let_def satisfied_def memo_new_def)
  moreover have "memo_of st2 1 5 = Some ?m" using st2(2) by (simp add: st1_def)
  then have "lookup_type ex_cast 1 5 False st2 = Some (Inr None, st2)"
    using lookup_type_FindByType [OF FindByType_known [of st2 1 5], of ex_cast False] by (simp add: memo_ptr_def memo_new_def)
  moreover have "lookup_type ex_cast 1 5 False ?st = Some (Inr None, st1)"
    using lookup_type_FindByType [OF f] by (simp add: st1_def memo_ptr_def memo_new_def)
  ultimately show ?thesis by blast
qed

section \<open>Exceptions\<close>

text \<open>
  C29.  In a well-formed tree, an exception that reaches a context is handled, and not thrown again, exactly
  if some filter of the context or of one above handles it.
\<close>

theorem FilterException_handled:
  fixes st :: "'a MemberStore_scheme"
  assumes "tree_ok st" "contexts st c \<noteq> None"
  shows "\<exists>called. FilterException handles c st =
    Some (\<exists>p f. (edge st)\<^sup>*\<^sup>* p c \<and> f \<in> set (m_filters (members st p)) \<and> handles f, called)"
  using assms(2)
proof (induction "level st c" arbitrary: c rule: less_induct)
  case less
  show ?case
  proof (cases "GetParentContext st c")
    case None
    then have "(edge st)\<^sup>*\<^sup>* p c \<longleftrightarrow> p = c" for p
      by (metis edge_def option.distinct(1) rtranclp.cases rtranclp.rtrancl_refl)
    then show ?thesis using None by (subst FilterException.simps) (auto simp: Let_def)
  next
    case (Some p)
    then have e: "edge st p c" using less.prems by (simp add: edge_def)
    have up: "(edge st)\<^sup>*\<^sup>* q c \<longleftrightarrow> q = c \<or> (edge st)\<^sup>*\<^sup>* q p" for q
      using e Some by (metis edge_def option.inject rtranclp.simps)
    have "contexts st p \<noteq> None" using Some less.prems tree_ok_parent [OF assms(1), of c _ p] by (auto simp: GetParentContext_def)
    moreover have "level st p < level st c" using edge_level [OF assms(1) e] by simp
    ultimately obtain called where "FilterException handles p st =
      Some (\<exists>q f. (edge st)\<^sup>*\<^sup>* q p \<and> f \<in> set (m_filters (members st q)) \<and> handles f, called)" using less.hyps by blast
    then show ?thesis using Some up by (subst FilterException.simps) (auto simp: Let_def)
  qed
qed

theorem FilterException_handled_witness:
  "\<exists>(st :: MemberStore) called. FilterException (\<lambda>f. f = 7) 3 st = Some (True, called)"
proof -
  let ?st = "set_members 1 (no_members\<lparr>m_filters := [7]\<rparr>) (ex_store (\<lambda>_. []))"
  have tr: "tree_ok ?st" using ex_store_tree [of "\<lambda>_. []"] tree_ok_contexts_cong [of ?st "ex_store (\<lambda>_. [])"] by simp
  have "edge ?st 1 3" using ex_edges [of 0 0 "memo_new 0" "\<lambda>_. []"] by (simp add: edge_def GetParentContext_def)
  then have "(\<exists>p f. (edge ?st)\<^sup>*\<^sup>* p 3 \<and> f \<in> set (m_filters (members ?st p)) \<and> f = 7) = True"
    by (intro eqTrueI exI [of _ 1] exI [of _ 7]) auto
  note yes = this
  have "contexts ?st 3 \<noteq> None" using ex_store_parent(4) by simp
  from FilterException_handled [OF tr this, of "\<lambda>f. f = 7", unfolded yes] show ?thesis by blast
qed

lemma update_memos_types [simp]:
  "m_concreteTypes (members (update_memos cast d local c st) x) = m_concreteTypes (members st x)"
  by (simp add: update_memos_def Let_def)

lemma update_each_types:
  "update_each cast d local cs st = Some st' \<Longrightarrow> m_concreteTypes (members st' x) = m_concreteTypes (members st x)"
proof (induction rule: update_each.raw_induct [rotated, consumes 1])
  case (1 rec cast d local cs st st')
  then show ?case by (cases cs) (fastforce simp: bind_eq_Some_conv)+
qed

lemma AddInternal_member:
  assumes "plain d" "AddInternal cast onStart c d st = Some (None, st')"
  shows "d \<in> set (m_concreteTypes (members st' c))"
proof -
  obtain st1 st2 evs where "UpdateDeferredElements cast d True c (set_members c (add_member d (members st1 c)) st1) = Some st2"
    "st' = memit evs st2"
    using assms by (auto simp: AddInternal_def plain_def Let_def memit_def bind_eq_Some_conv
      split: sum.splits option.splits if_splits)
  then show ?thesis
    using update_each_types [of cast d True "[c]" "set_members c (add_member d (members st1 c)) st1" st2 c]
    by (simp add: UpdateDeferredElements_def add_member_def)
qed

section \<open>Injection\<close>

text \<open>
  C16.  Injecting a type into a context that has no object for it adds the constructed object and returns it;
  from then on injecting the type into the context again, whatever the constructor would do, returns the
  same object and changes nothing.
\<close>

theorem Inject_makes_one_object:
  fixes st :: MemberStore
  assumes "tree_ok st" "kids_distinct st" "plain d" "actual_type d = T" "m_ptr (od_value d) = Some a"
    and "pFromObj cast T (pCoreObject d) = Some a" "memo_of st c T = None"
    and "candidates cast T (m_concreteTypes (members st c)) = []"
  shows "\<exists>st'. Inject cast onStart c T T (Some d) False st = Some (Inr (Some a), st') \<and>
    d \<in> set (m_concreteTypes (members st' c)) \<and>
    (\<forall>d2 throws. Inject cast onStart c T T d2 throws st' = Some (Inr (Some a), st'))"
proof -
  let ?st1 = "put_memo c T (memo_new T) st"
  have find: "FindByType cast c T True st = Some (Inr c, ?st1)"
    by (rule FindByType_here [OF assms(7) scan_types_none [OF assms(8)]]) simp
  have again: "FindByType cast c T True ?st1 = Some (Inr c, ?st1)" by (rule FindByType_known) simp
  have "\<exists>st' m'. AddInternal cast onStart c d ?st1 = Some (None, st') \<and> memo_of st' c T = Some m' \<and>
      m_ptr (m_value m') = Some a \<and> m_local m' = (c = c) \<and> once_get (onSatisfied m') \<and>
      (\<not> once_get (onSatisfied (memo_new T)) \<longrightarrow>
        (\<forall>f \<in> set (m_fns (onSatisfied (memo_new T))). Ev_satisfied f \<in> set (mlog st')))"
    by (rule AddInternal_waiting) (use assms in \<open>simp_all add: memo_new_def satisfied_def\<close>)
  then obtain st' m' where st': "AddInternal cast onStart c d ?st1 = Some (None, st')" "memo_of st' c T = Some m'"
    "m_ptr (m_value m') = Some a" "m_local m'" by auto
  have "Inject cast onStart c T T (Some d) False st = Some (Inr (Some a), st')"
    using find again st'(1) assms(5) by (simp add: Inject_def satisfied_def memo_new_def finish_inject_def)
  moreover have "FindByType cast c T True st' = Some (Inr c, st')" by (rule FindByType_known) (simp add: st'(2))
  then have "Inject cast onStart c T T d2 throws st' = Some (Inr (Some a), st')" for d2 throws
    using st'(2-4) by (simp add: Inject_def satisfied_def)
  moreover have "d \<in> set (m_concreteTypes (members st' c))" by (rule AddInternal_member [OF assms(3) st'(1)])
  ultimately show ?thesis by blast
qed

theorem Inject_makes_one_object_witness:
  "\<exists>st'. Inject ex_cast (\<lambda>_. True) 1 5 5 (Some (ex_obj 100)) False (ex_store (\<lambda>_. [])) = Some (Inr (Some 100), st') \<and>
     Inject ex_cast (\<lambda>_. True) 1 5 5 (Some (ex_obj 200)) False st' = Some (Inr (Some 100), st')"
proof -
  have "\<exists>st'. Inject ex_cast (\<lambda>_. True) 1 5 5 (Some (ex_obj 100)) False (ex_store (\<lambda>_. [])) = Some (Inr (Some 100), st') \<and>
    ex_obj 100 \<in> set (m_concreteTypes (members st' 1)) \<and>
    (\<forall>d2 throws. Inject ex_cast (\<lambda>_. True) 1 5 5 d2 throws st' = Some (Inr (Some 100), st'))"
    by (rule Inject_makes_one_object [OF ex_store_tree ex_store_kids])
      (simp_all add: plain_def ex_obj_def pFromObj_def ex_cast_def candidates_def)
  then show ?thesis by blast
qed

end
