(* ===== verification/Config_Manager.thy ===== *)
theory Config_Manager
  imports Prelude
begin

text \<open>
  The configuration managers of a context tree (\<open>ConfigManager.h\<close>, \<open>ConfigManager.cpp\<close>,
  \<open>config_descriptor.h\<close>, \<open>config_event.h\<close>) and the double-buffered field (\<open>config.h\<close>).

  Managers are numbers.  An entry of a manager keeps its value, the registration with the entry of the
  same name in the parent, and the handlers of its signal \<open>onChanged\<close> in the order in which they are called:
  handlers of configured fields, and links to the entries of child managers.  \<open>asserting\<close> is set when an
  exception has left \<open>signal::invoke\<close> before \<open>leave\<close>: the state of the signal then never becomes free again,
  what is invoked on it is put on the list of delayed calls for ever, and \<open>lock\<close> spins for ever.  An
  unmarshaller is a function from texts to values that may throw.  The result \<open>None\<close> is a call
  that does not return.
\<close>

section \<open>Data\<close>

datatype 'v change_handler = FieldHandler "string \<Rightarrow> 'v result" nat | LinkHandler nat

fun is_link :: "nat \<Rightarrow> 'v change_handler \<Rightarrow> bool" where
  "is_link c (LinkHandler d) \<longleftrightarrow> c = d"
| "is_link c (FieldHandler um f) \<longleftrightarrow> False"

record 'v ConfigEntry =
  onChanged :: "'v change_handler list"
  asserting :: bool
  attached :: "nat list"
  evalue :: string
  reg :: "nat option"

definition entry_new :: "'v ConfigEntry" where
  "entry_new = \<lparr>onChanged = [], asserting = False, attached = [], evalue = '''', reg = None\<rparr>"

text \<open>A field of a descriptor together with its address in the registered object, and the identifiers of its metadata.\<close>

record 'v config_field =
  fname :: string
  pField :: nat
  funmarshal :: "string \<Rightarrow> 'v result"
  fmetadata :: "nat list"

text \<open>A \<open>config_event\<close> is the field and the metadata; watchers are numbers, and their calls are kept.\<close>

type_synonym config_event = "nat \<times> nat"

record 'v ConfigManager =
  m_pParent :: "nat option"
  m_config :: "string \<rightharpoonup> 'v ConfigEntry"
  metadata_collection :: "(nat \<times> config_event) list"
  watchers :: "(nat \<times> nat) list"
  metadata_calls :: "(nat \<times> config_event) list"

record 'v ConfigSystem =
  managers :: "nat \<Rightarrow> 'v ConfigManager"
  manager_count :: nat
  cells :: "nat \<rightharpoonup> 'v"

definition find_entry :: "'v ConfigSystem \<Rightarrow> nat \<Rightarrow> string \<Rightarrow> 'v ConfigEntry option" where
  "find_entry st m n = m_config (managers st m) n"

definition entry_of :: "'v ConfigSystem \<Rightarrow> nat \<Rightarrow> string \<Rightarrow> 'v ConfigEntry" where
  "entry_of st m n = (case find_entry st m n of Some e \<Rightarrow> e | None \<Rightarrow> entry_new)"

definition put_entry :: "nat \<Rightarrow> string \<Rightarrow> 'v ConfigEntry \<Rightarrow> 'v ConfigSystem \<Rightarrow> 'v ConfigSystem" where
  "put_entry m n e st =
     st\<lparr>managers := (managers st)(m := (managers st m)\<lparr>m_config := (m_config (managers st m))(n \<mapsto> e)\<rparr>)\<rparr>"

definition set_value :: "nat \<Rightarrow> string \<Rightarrow> string \<Rightarrow> 'v ConfigSystem \<Rightarrow> 'v ConfigSystem" where
  "set_value m n v st = put_entry m n ((entry_of st m n)\<lparr>evalue := v\<rparr>) st"

definition set_cell :: "nat \<Rightarrow> 'v \<Rightarrow> 'v ConfigSystem \<Rightarrow> 'v ConfigSystem" where
  "set_cell f x st = st\<lparr>cells := (cells st)(f \<mapsto> x)\<rparr>"

section \<open>Construction\<close>

text \<open>
  \<open>registry\<close> is the traversal of \<open>config_registry\<close>: the names of all fields of all descriptors, with the
  default value as text where there is one.
\<close>

fun prepopulate :: "(string \<times> string option) list \<Rightarrow> (string \<rightharpoonup> 'v ConfigEntry) \<Rightarrow> string \<rightharpoonup> 'v ConfigEntry" where
  "prepopulate [] cfg = cfg"
| "prepopulate ((n, d) # r) cfg =
     (let e = (case cfg n of Some e \<Rightarrow> e | None \<Rightarrow> entry_new) in
      prepopulate r (cfg(n \<mapsto> (case d of Some v \<Rightarrow> e\<lparr>evalue := v\<rparr> | None \<Rightarrow> e))))"

definition manager_new :: "(string \<times> string option) list \<Rightarrow> nat option \<Rightarrow> 'v ConfigManager" where
  "manager_new registry pParent =
     \<lparr>m_pParent = pParent,
      m_config = (if pParent \<noteq> None then Map.empty else prepopulate registry Map.empty),
      metadata_collection = [], watchers = [], metadata_calls = []\<rparr>"

definition add_manager ::
  "(string \<times> string option) list \<Rightarrow> nat option \<Rightarrow> 'v ConfigSystem \<Rightarrow> 'v ConfigSystem" where
  "add_manager registry pParent st =
     st\<lparr>managers := (managers st)(manager_count st := manager_new registry pParent),
        manager_count := Suc (manager_count st)\<rparr>"

section \<open>Change notification\<close>

text \<open>
  The handlers of the entry \<open>n\<close> of manager \<open>m\<close>, called in order by \<open>SignalUnsafe\<close>; an exception of a handler
  ends the loop and is dropped by \<open>signal::operator()\<close>.  The handler of a link takes the value of the
  parent and raises the signal of the child.
\<close>

partial_function (option) notify_handlers ::
  "string \<Rightarrow> nat \<Rightarrow> 'v change_handler list \<Rightarrow> 'v ConfigSystem \<Rightarrow> 'v ConfigSystem option" where
  "notify_handlers n m hs st =
     (case hs of
        [] \<Rightarrow> Some st
      | h # r \<Rightarrow>
          (case h of
             FieldHandler um f \<Rightarrow>
               (case um (evalue (entry_of st m n)) of
                  Inl x \<Rightarrow> Some st
                | Inr v \<Rightarrow> notify_handlers n m r (set_cell f v st))
           | LinkHandler c \<Rightarrow>
               if reg (entry_of st c n) = None \<or> asserting (entry_of st c n) then notify_handlers n m r st
               else Option.bind
                 (notify_handlers n c (onChanged (entry_of st c n)) (set_value c n (evalue (entry_of st m n)) st))
                 (notify_handlers n m r)))"

text \<open>\<open>onChanged.invoke\<close> with the assignment of the value, then \<open>onChanged()\<close>.\<close>

definition change_value :: "string \<Rightarrow> nat \<Rightarrow> string \<Rightarrow> 'v ConfigSystem \<Rightarrow> 'v ConfigSystem option" where
  "change_value n m v st =
     (if asserting (entry_of st m n) then Some st
      else notify_handlers n m (onChanged (entry_of st m n)) (set_value m n v st))"

section \<open>Registration with the parent\<close>

definition drop_link :: "nat \<Rightarrow> 'v ConfigEntry \<Rightarrow> 'v ConfigEntry" where
  "drop_link c e = (if asserting e then e else e\<lparr>onChanged := filter (\<lambda>h. \<not> is_link c h) (onChanged e)\<rparr>)"

definition reg_clear :: "nat \<Rightarrow> string \<Rightarrow> 'v ConfigSystem \<Rightarrow> 'v ConfigSystem" where
  "reg_clear m n st =
     (case reg (entry_of st m n) of
        None \<Rightarrow> st
      | Some p \<Rightarrow>
          let st' = put_entry m n ((entry_of st m n)\<lparr>reg := None\<rparr>) st
          in put_entry p n (drop_link m (entry_of st' p n)) st')"

definition link_entry :: "nat \<Rightarrow> nat \<Rightarrow> string \<Rightarrow> 'v ConfigSystem \<Rightarrow> 'v ConfigSystem" where
  "link_entry m p n st =
     (if asserting (entry_of st p n) then st
      else
        let pe = entry_of st p n;
            st' = put_entry p n (pe\<lparr>onChanged := onChanged pe @ [LinkHandler m]\<rparr>) st
        in put_entry m n ((entry_of st' m n)\<lparr>reg := Some p, evalue := evalue pe\<rparr>) st')"

partial_function (option) GetEntry :: "nat \<Rightarrow> string \<Rightarrow> 'v ConfigSystem \<Rightarrow> 'v ConfigSystem option" where
  "GetEntry m n st =
     (case find_entry st m n of
        Some e \<Rightarrow> Some st
      | None \<Rightarrow>
          let st' = put_entry m n entry_new st in
          (case m_pParent (managers st m) of
             None \<Rightarrow> Some st'
           | Some p \<Rightarrow> Option.bind (GetEntry p n st') (\<lambda>st''. Some (link_entry m p n st''))))"

section \<open>Operations\<close>

definition ConfigClear :: "nat \<Rightarrow> 'v ConfigSystem \<Rightarrow> 'v ConfigSystem" where
  "ConfigClear m st =
     st\<lparr>managers := (\<lambda>k.
          if k = m then
            (managers st m)\<lparr>m_pParent := None,
               m_config := (\<lambda>n. map_option (\<lambda>e. e\<lparr>reg := None\<rparr>) (m_config (managers st m) n))\<rparr>
          else
            (managers st k)\<lparr>m_config := (\<lambda>n. map_option
               (\<lambda>e. if reg (entry_of st m n) = Some k then drop_link m e else e) (m_config (managers st k) n))\<rparr>)\<rparr>"

partial_function (option) ConfigGet :: "'v ConfigSystem \<Rightarrow> nat \<Rightarrow> string \<Rightarrow> string option" where
  "ConfigGet st m n =
     (case find_entry st m n of
        None \<Rightarrow> (case m_pParent (managers st m) of None \<Rightarrow> Some '''' | Some p \<Rightarrow> ConfigGet st p n)
      | Some e \<Rightarrow> if asserting e then None else Some (evalue e))"

definition ensure_entry :: "nat \<Rightarrow> string \<Rightarrow> 'v ConfigSystem \<Rightarrow> 'v ConfigSystem" where
  "ensure_entry m n st = (if find_entry st m n = None then put_entry m n entry_new st else st)"

definition ConfigSet :: "nat \<Rightarrow> string \<Rightarrow> string \<Rightarrow> 'v ConfigSystem \<Rightarrow> 'v ConfigSystem option" where
  "ConfigSet m n v st = change_value n m v (reg_clear m n (ensure_entry m n st))"

text \<open>
  Registration of one field: the entry, the change handler (whose link is a delayed call that is made when the
  signal is left), the value of the entry, and the metadata.  \<open>Inl\<close> is the exception of the unmarshaller.
\<close>

definition attach_field :: "nat \<Rightarrow> 'v config_field \<Rightarrow> 'v ConfigSystem \<Rightarrow> 'v ConfigSystem \<times> unit result" where
  "attach_field m fd st =
     (let n = fname fd; e = (entry_of st m n)\<lparr>attached := attached (entry_of st m n) @ [pField fd]\<rparr> in
      if asserting e then (put_entry m n e st, Inr ())
      else
        case funmarshal fd (evalue e) of
          Inl x \<Rightarrow> (put_entry m n (e\<lparr>asserting := True\<rparr>) st, Inl x)
        | Inr v \<Rightarrow>
            (set_cell (pField fd) v
               (put_entry m n (e\<lparr>onChanged := onChanged e @ [FieldHandler (funmarshal fd) (pField fd)]\<rparr>) st), Inr ()))"

definition matching :: "nat \<Rightarrow> (nat \<times> 'b) list \<Rightarrow> 'b list" where
  "matching i xs = map snd (filter (\<lambda>x. fst x = i) xs)"

fun collect_metadata ::
  "nat \<Rightarrow> nat list \<Rightarrow> 'v ConfigManager \<Rightarrow> (nat \<times> config_event) list \<Rightarrow> 'v ConfigManager \<times> (nat \<times> config_event) list" where
  "collect_metadata f [] mgr deferred = (mgr, deferred)"
| "collect_metadata f (i # r) mgr deferred =
     collect_metadata f r
       (mgr\<lparr>metadata_collection := metadata_collection mgr @ [(i, (f, i))]\<rparr>)
       (deferred @ map (\<lambda>w. (w, (f, i))) (matching i (watchers mgr)))"

definition with_manager :: "nat \<Rightarrow> ('v ConfigManager \<Rightarrow> 'v ConfigManager) \<Rightarrow> 'v ConfigSystem \<Rightarrow> 'v ConfigSystem" where
  "with_manager m g st = st\<lparr>managers := (managers st)(m := g (managers st m))\<rparr>"

definition call_watchers :: "(nat \<times> config_event) list \<Rightarrow> 'v ConfigManager \<Rightarrow> 'v ConfigManager" where
  "call_watchers cs mgr = mgr\<lparr>metadata_calls := metadata_calls mgr @ cs\<rparr>"

fun register_fields ::
  "nat \<Rightarrow> 'v config_field list \<Rightarrow> (nat \<times> config_event) list \<Rightarrow> 'v ConfigSystem \<Rightarrow> ('v ConfigSystem \<times> unit result) option" where
  "register_fields m [] deferred st = Some (with_manager m (call_watchers deferred) st, Inr ())"
| "register_fields m (fd # r) deferred st =
     Option.bind (GetEntry m (fname fd) st) (\<lambda>st1.
       case attach_field m fd st1 of
         (st2, Inl x) \<Rightarrow> Some (st2, Inl x)
       | (st2, Inr _) \<Rightarrow>
           (case collect_metadata (pField fd) (fmetadata fd) (managers st2 m) deferred of
              (mgr, deferred') \<Rightarrow> register_fields m r deferred' (with_manager m (\<lambda>_. mgr) st2)))"

definition Register :: "nat \<Rightarrow> 'v config_field list \<Rightarrow> 'v ConfigSystem \<Rightarrow> ('v ConfigSystem \<times> unit result) option" where
  "Register m fds st = register_fields m fds [] st"

definition WhenInternal :: "nat \<Rightarrow> nat \<Rightarrow> nat \<Rightarrow> 'v ConfigSystem \<Rightarrow> 'v ConfigSystem" where
  "WhenInternal m i w st =
     with_manager m (\<lambda>mgr. call_watchers (map (\<lambda>ev. (w, ev)) (matching i (metadata_collection mgr)))
       (mgr\<lparr>watchers := watchers mgr @ [(i, w)]\<rparr>)) st"

section \<open>Double-buffered fields\<close>

record 'a config =
  dirty :: bool
  valueIndex :: bool
  buffer0 :: 'a
  buffer1 :: 'a

text \<open>\<open>junk\<close> is the value of the buffer that the constructor does not initialize.\<close>

definition config_new :: "'a \<Rightarrow> 'a \<Rightarrow> 'a config" where
  "config_new junk v = \<lparr>dirty = True, valueIndex = False, buffer0 = v, buffer1 = junk\<rparr>"

definition config_get :: "'a config \<Rightarrow> 'a" where
  "config_get c = (if valueIndex c then buffer1 c else buffer0 c)"

definition config_assign :: "'a \<Rightarrow> 'a config \<Rightarrow> 'a config" where
  "config_assign v c =
     (if valueIndex c then c\<lparr>buffer0 := v, dirty := True\<rparr> else c\<lparr>buffer1 := v, dirty := True\<rparr>)"

definition clear_dirty :: "'a config \<Rightarrow> 'a config \<times> bool" where
  "clear_dirty c = (if \<not> dirty c then (c, False) else (c\<lparr>valueIndex := \<not> valueIndex c, dirty := False\<rparr>, True))"

definition marshal_config :: "('a \<Rightarrow> string) \<Rightarrow> 'a config \<Rightarrow> string" where
  "marshal_config interior c = interior (config_get c)"

definition unmarshal_config :: "(string \<Rightarrow> 'a result) \<Rightarrow> 'a config \<Rightarrow> string \<Rightarrow> 'a config result" where
  "unmarshal_config interior c s = bindR (interior s) (\<lambda>v. Inr (config_assign v c))"

end
