(* ===== verification/Config_Manager_Inv.thy ===== *)
theory Config_Manager_Inv
  imports Config_Manager
begin

text \<open>
  The invariant of the configuration managers, and that announcing a change keeps it.  \<open>cfg_core\<close> is the structure of entries and links, \<open>synced\<close> says
  that a handler has seen the value of its entry.  While a change is announced, the handlers that are
  still to be called may be out of date (the set \<open>W\<close> of \<open>cfg_sync\<close>).
\<close>

section \<open>Invariant\<close>

abbreviation handles :: "'v ConfigSystem \<Rightarrow> nat \<Rightarrow> string \<Rightarrow> 'v change_handler \<Rightarrow> bool" where
  "handles st m n h \<equiv> h \<in> set (onChanged (entry_of st m n))"

definition synced :: "'v ConfigSystem \<Rightarrow> nat \<Rightarrow> string \<Rightarrow> 'v change_handler \<Rightarrow> bool" where
  "synced st m n h \<longleftrightarrow>
     (case h of
        FieldHandler um f \<Rightarrow> \<exists>v. um (evalue (entry_of st m n)) = Inr v \<and> cells st f = Some v
      | LinkHandler c \<Rightarrow> evalue (entry_of st c n) = evalue (entry_of st m n))"

definition cfg_core :: "(string \<Rightarrow> string \<Rightarrow> bool) \<Rightarrow> 'v ConfigSystem \<Rightarrow> bool" where
  "cfg_core ok st \<longleftrightarrow>
     (\<forall>m p. m_pParent (managers st m) = Some p \<longrightarrow> p < m \<and> m < manager_count st) \<and>
     (\<forall>m n. \<not> asserting (entry_of st m n)) \<and>
     (\<forall>m n p. reg (entry_of st m n) = Some p \<longrightarrow>
        m_pParent (managers st m) = Some p \<and> find_entry st p n \<noteq> None \<and> handles st p n (LinkHandler m)) \<and>
     (\<forall>m n c. handles st m n (LinkHandler c) \<longrightarrow> reg (entry_of st c n) = Some m) \<and>
     (\<forall>m n um f s. handles st m n (FieldHandler um f) \<longrightarrow> ok n s \<longrightarrow> (\<exists>v. um s = Inr v)) \<and>
     (\<forall>m n um f m' n' um'. handles st m n (FieldHandler um f) \<longrightarrow> handles st m' n' (FieldHandler um' f) \<longrightarrow>
        m = m' \<and> n = n' \<and> um = um')"

definition cfg_sync :: "(nat \<times> string \<times> 'v change_handler) set \<Rightarrow> 'v ConfigSystem \<Rightarrow> bool" where
  "cfg_sync W st \<longleftrightarrow> (\<forall>m n h. handles st m n h \<longrightarrow> (m, n, h) \<notin> W \<longrightarrow> synced st m n h)"

lemma cfg_coreD:
  assumes "cfg_core ok st"
  shows "\<And>m p. m_pParent (managers st m) = Some p \<Longrightarrow> p < m \<and> m < manager_count st"
    and "\<And>m n. \<not> asserting (entry_of st m n)"
    and "\<And>m n p. reg (entry_of st m n) = Some p \<Longrightarrow> m_pParent (managers st m) = Some p"
    and "\<And>m n p. reg (entry_of st m n) = Some p \<Longrightarrow> find_entry st p n \<noteq> None"
    and "\<And>m n p. reg (entry_of st m n) = Some p \<Longrightarrow> handles st p n (LinkHandler m)"
    and "\<And>m n c. handles st m n (LinkHandler c) \<Longrightarrow> reg (entry_of st c n) = Some m"
    and "\<And>m n um f s. handles st m n (FieldHandler um f) \<Longrightarrow> ok n s \<Longrightarrow> \<exists>v. um s = Inr v"
    and "\<And>m n um f m' n' um'. handles st m n (FieldHandler um f) \<Longrightarrow> handles st m' n' (FieldHandler um' f) \<Longrightarrow>
        m = m' \<and> n = n' \<and> um = um'"
proof -
  note c = assms [unfolded cfg_core_def]
  show "p < m \<and> m < manager_count st" if "m_pParent (managers st m) = Some p" for m p using c [THEN conjunct1] that by blast
  note c = c [THEN conjunct2]
  show "\<not> asserting (entry_of st m n)" for m n using c [THEN conjunct1] by blast
  note c = c [THEN conjunct2]
  show "m_pParent (managers st m) = Some p" "find_entry st p n \<noteq> None" "handles st p n (LinkHandler m)"
    if "reg (entry_of st m n) = Some p" for m n p
    using c [THEN conjunct1] that by (blast, blast, blast)
  note c = c [THEN conjunct2]
  show "reg (entry_of st c n) = Some m" if "handles st m n (LinkHandler c)" for m n c using c [THEN conjunct1] that by blast
  note c = c [THEN conjunct2]
  show "\<exists>v. um s = Inr v" if "handles st m n (FieldHandler um f)" "ok n s" for m n um f s
    using c [THEN conjunct1] that by blast
  show "m = m' \<and> n = n' \<and> um = um'" if "handles st m n (FieldHandler um f)" "handles st m' n' (FieldHandler um' f)" for m n um f m' n' um'
    using c [THEN conjunct2] that by blast
qed

section \<open>Entries after an update\<close>

lemma find_entry_put [simp]:
  "find_entry (put_entry m n e st) k j = (if k = m \<and> j = n then Some e else find_entry st k j)"
  by (simp add: find_entry_def put_entry_def)

lemma entry_of_put [simp]:
  "entry_of (put_entry m n e st) k j = (if k = m \<and> j = n then e else entry_of st k j)"
  by (simp add: entry_of_def)

lemma entry_of_set_cell [simp]: "entry_of (set_cell f v st) m n = entry_of st m n"
  "find_entry (set_cell f v st) m n = find_entry st m n"
  by (simp_all add: entry_of_def find_entry_def set_cell_def)

lemma reg_entry: "reg (entry_of st m n) = Some p \<Longrightarrow> find_entry st m n \<noteq> None"
  by (cases "find_entry st m n") (simp_all add: entry_of_def entry_new_def)

lemma put_entry_frame [simp]: "cells (put_entry m n e st) = cells st" "manager_count (put_entry m n e st) = manager_count st"
  "m_pParent (managers (put_entry m n e st) k) = m_pParent (managers st k)"
  "cells (set_cell f v st) = (cells st)(f \<mapsto> v)" "managers (set_cell f v st) = managers st"
  by (simp_all add: put_entry_def set_cell_def)

lemma entry_of_set_value [simp]:
  "entry_of (set_value m n v st) k j = (if k = m \<and> j = n then (entry_of st m n)\<lparr>evalue := v\<rparr> else entry_of st k j)"
  "cells (set_value m n v st) = cells st" "m_pParent (managers (set_value m n v st) k) = m_pParent (managers st k)"
  "find_entry (set_value m n v st) k j = (if k = m \<and> j = n then Some ((entry_of st m n)\<lparr>evalue := v\<rparr>) else find_entry st k j)"
  by (simp_all add: set_value_def)

definition metadata_state :: "'v ConfigManager \<Rightarrow> _" where
  "metadata_state mgr = (metadata_collection mgr, watchers mgr, metadata_calls mgr)"

lemma metadata_state_frame [simp]:
  "metadata_state (managers (put_entry m n e st) k) = metadata_state (managers st k)"
  "metadata_state (managers (set_value m n v st) k) = metadata_state (managers st k)"
  by (simp_all add: put_entry_def set_value_def metadata_state_def)

text \<open>
  \<open>same_shape\<close>: the entries of two states differ in their values only.  \<open>announced\<close>: in addition, the values
  differ at most for the name \<open>n\<close>, in linked entries of managers above \<open>m\<close>.
\<close>

definition same_shape :: "'v ConfigSystem \<Rightarrow> 'v ConfigSystem \<Rightarrow> bool" where
  "same_shape st st' \<longleftrightarrow>
     (\<forall>k j. onChanged (entry_of st' k j) = onChanged (entry_of st k j) \<and>
        asserting (entry_of st' k j) = asserting (entry_of st k j) \<and>
        reg (entry_of st' k j) = reg (entry_of st k j) \<and>
        (find_entry st' k j = None) = (find_entry st k j = None)) \<and>
     (\<forall>k. m_pParent (managers st' k) = m_pParent (managers st k)) \<and>
     manager_count st' = manager_count st \<and>
     (\<forall>k. metadata_state (managers st' k) = metadata_state (managers st k))"

definition announced :: "string \<Rightarrow> nat \<Rightarrow> 'v ConfigSystem \<Rightarrow> 'v ConfigSystem \<Rightarrow> bool" where
  "announced n m st st' \<longleftrightarrow>
     same_shape st st' \<and>
     (\<forall>k j. evalue (entry_of st' k j) \<noteq> evalue (entry_of st k j) \<longrightarrow> j = n \<and> m < k \<and> reg (entry_of st k j) \<noteq> None)"

lemma same_shapeD:
  assumes "same_shape st st'"
  shows "\<And>k j. onChanged (entry_of st' k j) = onChanged (entry_of st k j)"
    and "\<And>k j. asserting (entry_of st' k j) = asserting (entry_of st k j)"
    and "\<And>k j. reg (entry_of st' k j) = reg (entry_of st k j)"
    and "\<And>k j. (find_entry st' k j = None) = (find_entry st k j = None)"
    and "\<And>k. m_pParent (managers st' k) = m_pParent (managers st k)"
    and "manager_count st' = manager_count st"
    and "\<And>k. metadata_state (managers st' k) = metadata_state (managers st k)"
  by (insert assms) (simp only: same_shape_def)+

lemma same_shape_refl [simp, intro]: "same_shape st st"
  by (simp add: same_shape_def)

lemma same_shape_trans: "same_shape a b \<Longrightarrow> same_shape b c \<Longrightarrow> same_shape a c"
  by (simp add: same_shape_def)

lemma same_shape_core:
  assumes "same_shape st st'" "cfg_core ok st"
  shows "cfg_core ok st'"
  using assms(2) unfolding cfg_core_def same_shapeD [OF assms(1)] .

lemma same_shape_set_cell: "same_shape st (set_cell f v st)"
  by (simp add: same_shape_def) (simp add: set_cell_def)

lemma same_shape_set_value: "find_entry st m n \<noteq> None \<Longrightarrow> same_shape st (set_value m n v st)"
  by (auto simp: same_shape_def) (simp add: set_value_def put_entry_def)

lemma announced_refl [simp]: "announced n m st st"
  by (simp add: announced_def)

lemma announced_trans: "announced n m a b \<Longrightarrow> announced n m b c \<Longrightarrow> announced n m a c"
  unfolding announced_def by (metis same_shapeD(3) same_shape_trans)

lemma announced_set_cell: "announced n m st (set_cell f v st)"
  by (simp add: announced_def same_shape_set_cell)

lemma announced_child:
  assumes "announced n c (set_value c n v st) st'" "m < c" "reg (entry_of st c n) \<noteq> None" "find_entry st c n \<noteq> None"
  shows "announced n m st st'"
proof -
  have "announced n m (set_value c n v st) st'"
    using assms(1,2) unfolding announced_def by (meson order.strict_trans)
  moreover have "announced n m st (set_value c n v st)"
    using assms(2-4) by (auto simp: announced_def same_shape_set_value)
  ultimately show ?thesis by (blast intro: announced_trans)
qed

section \<open>Announcing a change\<close>

lemma field_step:
  assumes "cfg_core ok st" "handles st m n (FieldHandler um f)" "um (evalue (entry_of st m n)) = Inr v"
    "cfg_sync (insert (m, n, FieldHandler um f) W) st"
  shows "cfg_sync W (set_cell f v st)"
  unfolding cfg_sync_def
proof (intro allI impI)
  fix k j h
  assume h: "handles (set_cell f v st) k j h" "(k, j, h) \<notin> W"
  show "synced (set_cell f v st) k j h"
  proof (cases "(k, j, h) = (m, n, FieldHandler um f)")
    case True
    then show ?thesis using assms(3) by (simp add: synced_def)
  next
    case False
    then have s: "synced st k j h" using assms(4) h by (auto simp: cfg_sync_def)
    have "f' \<noteq> f" if hf: "h = FieldHandler um' f'" for um' f'
    proof
      assume f: "f' = f"
      then have "handles st k j (FieldHandler um' f)" using h(1) hf by simp
      from cfg_coreD(8) [OF assms(1,2) this] show False using False hf f by simp
    qed
    then show ?thesis using s by (cases h) (auto simp: synced_def)
  qed
qed

lemma link_step:
  assumes "cfg_core ok st" "handles st m n (LinkHandler c)" "cfg_sync (insert (m, n, LinkHandler c) W) st"
  shows "cfg_sync (W \<union> (\<lambda>h. (c, n, h)) ` set (onChanged (entry_of st c n))) (set_value c n (evalue (entry_of st m n)) st)"
  unfolding cfg_sync_def
proof (intro allI impI)
  fix k j h
  let ?st = "set_value c n (evalue (entry_of st m n)) st"
  assume h: "handles ?st k j h" "(k, j, h) \<notin> W \<union> (\<lambda>h. (c, n, h)) ` set (onChanged (entry_of st c n))"
  have reg: "reg (entry_of st c n) = Some m" using cfg_coreD(6) [OF assms(1,2)] .
  then have "m \<noteq> c" using cfg_coreD(1) [OF assms(1) cfg_coreD(3) [OF assms(1) reg]] by simp
  have hk: "handles st k j h" using h(1) by (auto split: if_splits)
  with h(2) have kj: "\<not> (k = c \<and> j = n)" "(k, j, h) \<notin> W" by auto
  show "synced ?st k j h"
  proof (cases "(k, j, h) = (m, n, LinkHandler c)")
    case True
    then show ?thesis using \<open>m \<noteq> c\<close> by (simp add: synced_def)
  next
    case False
    then have s: "synced st k j h" using assms(3) hk kj by (auto simp: cfg_sync_def)
    have "\<not> (d = c \<and> j = n)" if hd: "h = LinkHandler d" for d
    proof
      assume d: "d = c \<and> j = n"
      then have "handles st k n (LinkHandler c)" using hk hd by simp
      from cfg_coreD(6) [OF assms(1) this] show False using False hd d reg by simp
    qed
    then show ?thesis using s kj(1) by (cases h) (auto simp: synced_def)
  qed
qed

lemma announced_value: "announced n m st st' \<Longrightarrow> k \<le> m \<Longrightarrow> evalue (entry_of st' k j) = evalue (entry_of st k j)"
  unfolding announced_def by (meson leD)

lemma notify_handlers_sync:
  assumes "manager_count st = N" "cfg_core ok st" "ok n (evalue (entry_of st m n))"
    "\<forall>h \<in> set hs. handles st m n h" "cfg_sync (W \<union> (\<lambda>h. (m, n, h)) ` set hs) st"
  shows "\<exists>st'. notify_handlers n m hs st = Some st' \<and> announced n m st st' \<and> cfg_sync W st'"
  using assms
proof (induction "N - m" arbitrary: m hs st W rule: less_induct)
  case less
  note outer = less.hyps
  from less.prems show ?case
  proof (induction hs arbitrary: st W)
    case Nil
    then show ?case by (simp add: notify_handlers.simps)
  next
    case (Cons h r)
    note core = Cons.prems(2)
    have step: "\<exists>st2. notify_handlers n m r st1 = Some st2 \<and> announced n m st st2 \<and> cfg_sync W st2"
      if a: "announced n m st st1" and w: "cfg_sync (W \<union> (\<lambda>h. (m, n, h)) ` set r) st1" for st1
    proof -
      have sh: "same_shape st st1" using a by (simp add: announced_def)
      have "\<exists>st2. notify_handlers n m r st1 = Some st2 \<and> announced n m st1 st2 \<and> cfg_sync W st2"
        using Cons.prems(1,3,4) announced_value [OF a, of m n]
        by (intro Cons.IH same_shape_core [OF sh core] w) (simp_all add: same_shapeD [OF sh])
      then show ?thesis using announced_trans [OF a] by blast
    qed
    show ?case
    proof (cases h)
      case (FieldHandler um f)
      then have "handles st m n (FieldHandler um f)" using Cons.prems(4) by simp
      moreover obtain v where v: "um (evalue (entry_of st m n)) = Inr v"
        using cfg_coreD(7) [OF core \<open>handles st m n (FieldHandler um f)\<close> Cons.prems(3)] by blast
      ultimately have "cfg_sync (W \<union> (\<lambda>h. (m, n, h)) ` set r) (set_cell f v st)"
        using Cons.prems(5) FieldHandler by (intro field_step [OF core]) simp_all
      then show ?thesis using step [OF announced_set_cell] v FieldHandler by (simp add: notify_handlers.simps [of n m "FieldHandler um f # r"])
    next
      case (LinkHandler c)
      let ?W = "W \<union> (\<lambda>h. (m, n, h)) ` set r"
      let ?st = "set_value c n (evalue (entry_of st m n)) st"
      have hc: "handles st m n (LinkHandler c)" using Cons.prems(4) LinkHandler by simp
      then have reg: "reg (entry_of st c n) = Some m" by (rule cfg_coreD(6) [OF core])
      then have c: "m < c" "c < manager_count st" "find_entry st c n \<noteq> None"
        using cfg_coreD(1) [OF core cfg_coreD(3) [OF core reg]] reg_entry [OF reg] by simp_all
      have shape: "same_shape st ?st" using c(3) by (rule same_shape_set_value)
      have "\<exists>st1. notify_handlers n c (onChanged (entry_of st c n)) ?st = Some st1 \<and> announced n c ?st st1 \<and> cfg_sync ?W st1"
        using c Cons.prems(1,3) same_shapeD(6) [OF shape] hc Cons.prems(5) LinkHandler
        by (intro outer same_shape_core [OF shape core] link_step [OF core hc]) auto
      then obtain st1 where st1: "notify_handlers n c (onChanged (entry_of st c n)) ?st = Some st1"
          "announced n c ?st st1" "cfg_sync ?W st1" by blast
      have "announced n m st st1" using announced_child [OF st1(2) c(1)] reg c(3) by simp
      from step [OF this st1(3)] show ?thesis
        using LinkHandler reg st1(1) cfg_coreD(2) [OF core] by (simp add: notify_handlers.simps [of n m "LinkHandler c # r"])
    qed
  qed
qed

section \<open>Overrides\<close>

text \<open>
  The abstract view: a manager overrides a name if it has an entry for it that is not registered with the
  parent.  \<open>configured\<close> is the value of the nearest override on the way to the root.
\<close>

definition overrides :: "'v ConfigSystem \<Rightarrow> nat \<Rightarrow> string \<rightharpoonup> string" where
  "overrides st m n =
     (if find_entry st m n \<noteq> None \<and> reg (entry_of st m n) = None then Some (evalue (entry_of st m n)) else None)"

inductive configured :: "'v ConfigSystem \<Rightarrow> nat \<Rightarrow> string \<Rightarrow> string \<Rightarrow> bool" for st where
  configured_here: "overrides st m n = Some v \<Longrightarrow> configured st m n v"
| configured_above: "overrides st m n = None \<Longrightarrow> m_pParent (managers st m) = Some p \<Longrightarrow> configured st p n v \<Longrightarrow> configured st m n v"
| configured_nowhere: "overrides st m n = None \<Longrightarrow> m_pParent (managers st m) = None \<Longrightarrow> configured st m n ''''"

definition cfg_inv :: "(string \<Rightarrow> string \<Rightarrow> bool) \<Rightarrow> 'v ConfigSystem \<Rightarrow> bool" where
  "cfg_inv ok st \<longleftrightarrow> cfg_core ok st \<and> cfg_sync {} st"

lemma cfg_invD: "cfg_inv ok st \<Longrightarrow> cfg_core ok st" "cfg_inv ok st \<Longrightarrow> cfg_sync {} st"
  by (simp_all add: cfg_inv_def)

lemma linked_value:
  assumes "cfg_inv ok st" "reg (entry_of st m n) = Some p"
  shows "evalue (entry_of st m n) = evalue (entry_of st p n)"
  using cfg_coreD(5) [OF cfg_invD(1) [OF assms(1)] assms(2)] cfg_invD(2) [OF assms(1)]
  by (fastforce simp: cfg_sync_def synced_def)

lemma entry_of_find: "find_entry st m n = Some e \<Longrightarrow> entry_of st m n = e"
  by (simp add: entry_of_def)

text \<open>The value that a manager reports is the one of the nearest override.\<close>

lemma ConfigGet_configured:
  assumes "cfg_inv ok st"
  shows "\<exists>v. ConfigGet st m n = Some v \<and> configured st m n v \<and> (find_entry st m n \<noteq> None \<longrightarrow> v = evalue (entry_of st m n))"
proof (induction m rule: less_induct)
  case (less m)
  note core = cfg_invD(1) [OF assms]
  have up: "\<exists>v. ConfigGet st p n = Some v \<and> configured st p n v \<and> (find_entry st p n \<noteq> None \<longrightarrow> v = evalue (entry_of st p n))"
    if "m_pParent (managers st m) = Some p" for p
    using less cfg_coreD(1) [OF core that] by blast
  show ?case
  proof (cases "find_entry st m n")
    case None
    then have o: "overrides st m n = None" by (simp add: overrides_def)
    show ?thesis
    proof (cases "m_pParent (managers st m)")
      case None
      with \<open>find_entry st m n = None\<close> show ?thesis
        using configured_nowhere [OF o] by (simp add: ConfigGet.simps [of st m])
    next
      case (Some p)
      with up [OF Some] \<open>find_entry st m n = None\<close> show ?thesis
        using configured_above [OF o Some] by (auto simp: ConfigGet.simps [of st m])
    qed
  next
    case (Some e)
    note e = entry_of_find [OF Some]
    have get: "ConfigGet st m n = Some (evalue e)" using Some cfg_coreD(2) [OF core, of m n] e by (simp add: ConfigGet.simps [of st m])
    have "configured st m n (evalue e)"
    proof (cases "reg e")
      case None
      then show ?thesis using Some e by (intro configured_here) (simp add: overrides_def)
    next
      case (Some p)
      then have r: "reg (entry_of st m n) = Some p" using e by simp
      have "configured st p n (evalue (entry_of st p n))"
        using up [OF cfg_coreD(3) [OF core r]] cfg_coreD(4) [OF core r] by blast
      then show ?thesis
        using configured_above [OF _ cfg_coreD(3) [OF core r]] linked_value [OF assms r] r e by (simp add: overrides_def)
    qed
    then show ?thesis using get e by simp
  qed
qed

lemma configured_unique:
  assumes "configured st m n v" "configured st m n w"
  shows "w = v"
  using assms(1,2)
proof (induction arbitrary: w rule: configured.induct)
  case (configured_here m n v)
  from configured_here(2,1) show ?case by (cases rule: configured.cases) simp_all
next
  case (configured_above m n p v)
  from configured_above(5,1,2,4) show ?case by (cases rule: configured.cases) simp_all
next
  case (configured_nowhere m n)
  from configured_nowhere(3,1,2) show ?case by (cases rule: configured.cases) simp_all
qed

lemma ConfigGet_iff:
  assumes "cfg_inv ok st"
  shows "ConfigGet st m n = Some v \<longleftrightarrow> configured st m n v"
  using ConfigGet_configured [OF assms, of m n] configured_unique by (metis option.inject)

section \<open>Introducing the invariant\<close>

lemma cfg_coreI:
  assumes "\<And>m p. m_pParent (managers st m) = Some p \<Longrightarrow> p < m \<and> m < manager_count st"
    and "\<And>m n. \<not> asserting (entry_of st m n)"
    and "\<And>m n p. reg (entry_of st m n) = Some p \<Longrightarrow>
        m_pParent (managers st m) = Some p \<and> find_entry st p n \<noteq> None \<and> handles st p n (LinkHandler m)"
    and "\<And>m n c. handles st m n (LinkHandler c) \<Longrightarrow> reg (entry_of st c n) = Some m"
    and "\<And>m n um f s. handles st m n (FieldHandler um f) \<Longrightarrow> ok n s \<Longrightarrow> \<exists>v. um s = Inr v"
    and "\<And>m n um f m' n' um'. handles st m n (FieldHandler um f) \<Longrightarrow> handles st m' n' (FieldHandler um' f) \<Longrightarrow>
        m = m' \<and> n = n' \<and> um = um'"
  shows "cfg_core ok st"
  unfolding cfg_core_def
  by (intro conjI [where P = "\<forall>m p. _ m p"] conjI [where P = "\<forall>m. _ m"] allI impI) (fact assms(1) | fact assms(2) | fact assms(3) | fact assms(4) | fact assms(5) | fact assms(6))+

lemma cfg_syncI: "(\<And>m n h. handles st m n h \<Longrightarrow> (m, n, h) \<notin> W \<Longrightarrow> synced st m n h) \<Longrightarrow> cfg_sync W st"
  by (simp add: cfg_sync_def)

lemma cfg_syncD: "cfg_inv ok st \<Longrightarrow> handles st m n h \<Longrightarrow> synced st m n h"
  by (simp add: cfg_inv_def cfg_sync_def)

text \<open>The invariant only looks at entries, parents and fields.\<close>

lemma cfg_inv_cong:
  assumes "cfg_inv ok st" "\<And>k j. entry_of st' k j = entry_of st k j"
    "\<And>k j. find_entry st k j \<noteq> None \<Longrightarrow> find_entry st' k j \<noteq> None"
    "\<And>k. m_pParent (managers st' k) = m_pParent (managers st k)" "manager_count st' = manager_count st" "cells st' = cells st"
  shows "cfg_inv ok st'"
proof -
  note c = cfg_coreD [OF cfg_invD(1) [OF assms(1)]]
  have "cfg_core ok st'"
    by (rule cfg_coreI; (unfold assms(2,4,5))?) (fact c(1) | fact c(2) | intro conjI; (erule c(3) | erule c(5) | rule assms(3), erule c(4)) | fact c(6) | fact c(7) | fact c(8))+
  moreover have "cfg_sync {} st'"
    using cfg_invD(2) [OF assms(1)] unfolding cfg_sync_def synced_def assms(2,6) .
  ultimately show ?thesis by (simp add: cfg_inv_def)
qed

end
