(* ===== verification/Config_Manager_Steps.thy ===== *)
theory Config_Manager_Steps
  imports Config_Manager_Inv "HOL-Library.Multiset"
begin

text \<open>
  Every operation of the configuration managers keeps the invariant, and what it changes of the overrides and
  of the fields.
\<close>

section \<open>Unregistering\<close>

lemma is_link_iff [simp]: "is_link c h \<longleftrightarrow> h = LinkHandler c"
  by (cases h) auto

lemma unlink_inv:
  assumes inv: "cfg_inv ok st"
    and h: "\<And>k j h. handles st' k j h \<longleftrightarrow> handles st k j h \<and> \<not> (j \<in> N \<and> h = LinkHandler m)"
    and r: "\<And>k j. reg (entry_of st' k j) = (if k = m \<and> j \<in> N then None else reg (entry_of st k j))"
    and e: "\<And>k j. evalue (entry_of st' k j) = evalue (entry_of st k j)" "\<And>k j. asserting (entry_of st' k j) = asserting (entry_of st k j)"
    and f: "\<And>k j. find_entry st' k j = None \<longleftrightarrow> find_entry st k j = None"
    and p: "\<And>k. m_pParent (managers st' k) = m_pParent (managers st k) \<or> k = m \<and> N = UNIV \<and> m_pParent (managers st' k) = None"
    and rest: "manager_count st' = manager_count st" "cells st' = cells st"
  shows "cfg_inv ok st'"
proof -
  note c = cfg_coreD [OF cfg_invD(1) [OF inv]]
  have "cfg_core ok st'"
  proof (rule cfg_coreI)
    show "p < k \<and> k < manager_count st'" if "m_pParent (managers st' k) = Some p" for k p
      using c(1) [of k p] p [of k] that rest by auto
    show "\<not> asserting (entry_of st' k j)" for k j using c(2) e by simp
    show "m_pParent (managers st' k) = Some q \<and> find_entry st' q j \<noteq> None \<and> handles st' q j (LinkHandler k)"
      if "reg (entry_of st' k j) = Some q" for k j q
    proof -
      have km: "\<not> (k = m \<and> j \<in> N)" and rk: "reg (entry_of st k j) = Some q" using that r [of k j] by (auto split: if_splits)
      have "m_pParent (managers st' k) = m_pParent (managers st k)" using p [of k] km by auto
      then show ?thesis using c(3) [OF rk] c(4) [OF rk] c(5) [OF rk] km h f by auto
    qed
    show "reg (entry_of st' d j) = Some k" if "handles st' k j (LinkHandler d)" for k j d
      using c(6) [of d k j] that h r [of d j] by auto
    show "\<exists>v. um s = Inr v" if "handles st' k j (FieldHandler um f)" "ok j s" for k j um f s
      using c(7) [of um f k j s] that h by blast
    show "k = k' \<and> j = j' \<and> um = um'" if "handles st' k j (FieldHandler um f)" "handles st' k' j' (FieldHandler um' f)" for k j um f k' j' um'
      using c(8) [of um f k j um' k' j'] that h by blast
  qed
  moreover have "cfg_sync {} st'"
    using cfg_invD(2) [OF inv] by (auto simp: cfg_sync_def synced_def h e rest split: change_handler.splits)
  ultimately show ?thesis by (simp add: cfg_inv_def)
qed

lemma ensure_entry_entries [simp]:
  "entry_of (ensure_entry m n st) k j = entry_of st k j" "cells (ensure_entry m n st) = cells st"
  "m_pParent (managers (ensure_entry m n st) k) = m_pParent (managers st k)" "manager_count (ensure_entry m n st) = manager_count st"
  "find_entry (ensure_entry m n st) k j = (if k = m \<and> j = n then Some (entry_of st m n) else find_entry st k j)"
  by (auto simp: ensure_entry_def entry_of_def)

lemma ensure_entry_inv: "cfg_inv ok st \<Longrightarrow> cfg_inv ok (ensure_entry m n st)"
  by (rule cfg_inv_cong) auto

lemma reg_clear_entries:
  assumes "cfg_inv ok st"
  shows "handles (reg_clear m n st) k j h \<longleftrightarrow> handles st k j h \<and> \<not> (j \<in> {n} \<and> h = LinkHandler m)"
    and "reg (entry_of (reg_clear m n st) k j) = (if k = m \<and> j \<in> {n} then None else reg (entry_of st k j))"
    and "evalue (entry_of (reg_clear m n st) k j) = evalue (entry_of st k j)"
    and "asserting (entry_of (reg_clear m n st) k j) = asserting (entry_of st k j)"
    and "find_entry (reg_clear m n st) k j = None \<longleftrightarrow> find_entry st k j = None"
    and "m_pParent (managers (reg_clear m n st) k) = m_pParent (managers st k)"
    and "manager_count (reg_clear m n st) = manager_count st" "cells (reg_clear m n st) = cells st"
proof -
  note c = cfg_coreD [OF cfg_invD(1) [OF assms]]
  have links: "handles st k n (LinkHandler m) \<Longrightarrow> reg (entry_of st m n) = Some k" for k by (rule c(6))
  show "handles (reg_clear m n st) k j h \<longleftrightarrow> handles st k j h \<and> \<not> (j \<in> {n} \<and> h = LinkHandler m)"
    using links [of k] c(2) by (auto simp: reg_clear_def drop_link_def Let_def split: option.splits)
  show "reg (entry_of (reg_clear m n st) k j) = (if k = m \<and> j \<in> {n} then None else reg (entry_of st k j))"
    by (auto simp: reg_clear_def drop_link_def Let_def split: option.splits)
  show "evalue (entry_of (reg_clear m n st) k j) = evalue (entry_of st k j)"
    "asserting (entry_of (reg_clear m n st) k j) = asserting (entry_of st k j)"
    by (auto simp: reg_clear_def drop_link_def Let_def split: option.splits)
  show "find_entry (reg_clear m n st) k j = None \<longleftrightarrow> find_entry st k j = None"
    using reg_entry [of st m n] c(4) [of m n] by (auto simp: reg_clear_def Let_def split: option.splits)
  show "m_pParent (managers (reg_clear m n st) k) = m_pParent (managers st k)"
    "manager_count (reg_clear m n st) = manager_count st" "cells (reg_clear m n st) = cells st"
    by (auto simp: reg_clear_def Let_def split: option.splits)
qed

lemma reg_clear_inv: "cfg_inv ok st \<Longrightarrow> cfg_inv ok (reg_clear m n st)"
  by (rule unlink_inv [where N = "{n}" and m = m]) (simp_all only: reg_clear_entries disj_not1 simp_thms)

section \<open>Set\<close>

lemma reg_clear_metadata [simp]: "metadata_state (managers (reg_clear m n st) k) = metadata_state (managers st k)"
  by (simp add: reg_clear_def Let_def split: option.splits)

lemma ensure_entry_metadata [simp]: "metadata_state (managers (ensure_entry m n st) k) = metadata_state (managers st k)"
  by (simp add: ensure_entry_def)

lemma override_step:
  assumes "cfg_inv ok st" "reg (entry_of st m n) = None"
  shows "cfg_sync ({} \<union> (\<lambda>h. (m, n, h)) ` set (onChanged (entry_of st m n))) (set_value m n v st)"
proof (rule cfg_syncI)
  fix k j h
  assume h: "handles (set_value m n v st) k j h" "(k, j, h) \<notin> {} \<union> (\<lambda>h. (m, n, h)) ` set (onChanged (entry_of st m n))"
  have hk: "handles st k j h" using h(1) by (auto split: if_splits)
  with h(2) have kj: "\<not> (k = m \<and> j = n)" by auto
  have "\<not> (d = m \<and> j = n)" if hd: "h = LinkHandler d" for d
  proof
    assume "d = m \<and> j = n"
    then have "handles st k n (LinkHandler m)" using hk hd by simp
    from cfg_coreD(6) [OF cfg_invD(1) [OF assms(1)] this] show False using assms(2) by simp
  qed
  then show "synced (set_value m n v st) k j h"
    using cfg_syncD [OF assms(1) hk] kj by (cases h) (auto simp: synced_def)
qed

lemma change_value_inv:
  assumes "cfg_inv ok st" "reg (entry_of st m n) = None" "find_entry st m n \<noteq> None" "ok n v"
  shows "\<exists>st'. change_value n m v st = Some st' \<and> cfg_inv ok st' \<and> announced n m (set_value m n v st) st'"
proof -
  let ?st = "set_value m n v st"
  note core = cfg_invD(1) [OF assms(1)]
  have core': "cfg_core ok ?st" using same_shape_core [OF same_shape_set_value [OF assms(3)] core] .
  have "\<exists>st'. notify_handlers n m (onChanged (entry_of st m n)) ?st = Some st' \<and> announced n m ?st st' \<and> cfg_sync {} st'"
    using assms(4) by (intro notify_handlers_sync [OF refl core'] override_step [OF assms(1,2)]) simp_all
  then obtain st' where st': "notify_handlers n m (onChanged (entry_of st m n)) ?st = Some st'" "announced n m ?st st'" "cfg_sync {} st'"
    by blast
  moreover have "cfg_core ok st'" using st'(2) by (intro same_shape_core [OF _ core']) (simp add: announced_def)
  ultimately show ?thesis using cfg_coreD(2) [OF core] by (simp add: change_value_def cfg_inv_def)
qed

lemma announced_overrides: "announced n m st st' \<Longrightarrow> overrides st' k j = overrides st k j"
  unfolding announced_def overrides_def by (metis same_shapeD(3,4))

lemma ConfigSet_inv:
  assumes "cfg_inv ok st" "ok n v"
  shows "\<exists>st'. ConfigSet m n v st = Some st' \<and> cfg_inv ok st' \<and> manager_count st' = manager_count st \<and>
    (\<forall>k. m_pParent (managers st' k) = m_pParent (managers st k)) \<and>
    (\<forall>k. metadata_state (managers st' k) = metadata_state (managers st k)) \<and>
    (\<forall>k j. find_entry st' k j = None \<longleftrightarrow> find_entry st k j = None \<and> \<not> (k = m \<and> j = n)) \<and>
    (\<forall>k j. onChanged (entry_of st' k j) = onChanged (entry_of (reg_clear m n st) k j)) \<and>
    (\<forall>k j. overrides st' k j = (if k = m \<and> j = n then Some v else overrides st k j))"
proof -
  let ?e = "ensure_entry m n st"
  let ?r = "reg_clear m n ?e"
  note e = ensure_entry_inv [OF assms(1), of m n]
  note r = reg_clear_entries [OF e, where m = m and n = n]
  have "find_entry ?r m n \<noteq> None" "reg (entry_of ?r m n) = None" by (simp_all add: r)
  then obtain st' where st': "change_value n m v ?r = Some st'" "cfg_inv ok st'" "announced n m (set_value m n v ?r) st'"
    using change_value_inv [OF reg_clear_inv [OF e] _ _ assms(2), of m n] by blast
  note sh = same_shapeD [OF same_shape_trans [OF same_shape_set_value [of ?r m n v]], of st']
  have "same_shape (set_value m n v ?r) st'" using st'(3) by (simp add: announced_def)
  note sh = sh [OF \<open>find_entry ?r m n \<noteq> None\<close> this]
  have "onChanged (entry_of ?r k j) = onChanged (entry_of (reg_clear m n st) k j)" for k j
    by (simp add: reg_clear_def Let_def split: option.splits)
  moreover have "overrides st' k j = (if k = m \<and> j = n then Some v else overrides st k j)" for k j
    unfolding announced_overrides [OF st'(3)]
    by (simp add: overrides_def r \<open>reg (entry_of ?r m n) = None\<close> del: not_None_eq)
  ultimately show ?thesis using st' sh r by (simp add: ConfigSet_def)
qed

section \<open>Entries made on demand\<close>

lemma link_entry_entries:
  assumes "\<not> asserting (entry_of st p n)" "entry_of st m n = entry_new" "p \<noteq> m"
  shows "handles (link_entry m p n st) k j h \<longleftrightarrow> handles st k j h \<or> k = p \<and> j = n \<and> h = LinkHandler m"
    and "reg (entry_of (link_entry m p n st) k j) = (if k = m \<and> j = n then Some p else reg (entry_of st k j))"
    and "evalue (entry_of (link_entry m p n st) k j) = evalue (entry_of st (if k = m \<and> j = n then p else k) j)"
    and "asserting (entry_of (link_entry m p n st) k j) = asserting (entry_of st k j)"
    and "k \<noteq> m \<Longrightarrow> k \<noteq> p \<or> j \<noteq> n \<Longrightarrow> find_entry (link_entry m p n st) k j = find_entry st k j"
    and "j \<noteq> n \<Longrightarrow> find_entry (link_entry m p n st) k j = find_entry st k j"
    and "find_entry (link_entry m p n st) m n \<noteq> None" "find_entry (link_entry m p n st) p n \<noteq> None"
    and "cells (link_entry m p n st) = cells st" "manager_count (link_entry m p n st) = manager_count st"
    and "m_pParent (managers (link_entry m p n st) k) = m_pParent (managers st k)"
  using assms by (auto simp: link_entry_def Let_def entry_new_def)

lemma link_entry_inv:
  assumes inv: "cfg_inv ok st" and "m_pParent (managers st m) = Some p" "entry_of st m n = entry_new"
  shows "cfg_inv ok (link_entry m p n st)"
proof -
  note c = cfg_coreD [OF cfg_invD(1) [OF inv]]
  have "p \<noteq> m" using c(1) [OF assms(2)] by simp
  note l = link_entry_entries [OF c(2) assms(3) this]
  have new: "\<not> handles st m n h" "reg (entry_of st m n) = None" for h using assms(3) by (simp_all add: entry_new_def)
  have nolink: "\<not> handles st k n (LinkHandler m)" for k using c(6) [of m k n] new(2) by auto
  have "cfg_core ok (link_entry m p n st)"
  proof (rule cfg_coreI)
    show "q < k \<and> k < manager_count (link_entry m p n st)" if "m_pParent (managers (link_entry m p n st) k) = Some q" for k q
      using c(1) that by (simp add: l)
    show "\<not> asserting (entry_of (link_entry m p n st) k j)" for k j using c(2) by (simp add: l)
    show "m_pParent (managers (link_entry m p n st) k) = Some q \<and> find_entry (link_entry m p n st) q j \<noteq> None \<and>
        handles (link_entry m p n st) q j (LinkHandler k)"
      if "reg (entry_of (link_entry m p n st) k j) = Some q" for k j q
    proof (cases "k = m \<and> j = n")
      case True
      then have "q = p" using that by (simp add: l)
      then show ?thesis using True assms(2) l(8) by (simp add: l)
    next
      case False
      then have r: "reg (entry_of st k j) = Some q" using that by (auto simp: l split: if_splits)
      then have "find_entry (link_entry m p n st) q j \<noteq> None"
        using c(4) [OF r] l(5) [of q j] l(6) [of j q] l(7,8) by (cases "j = n"; cases "q = m"; cases "q = p") simp_all
      then show ?thesis using c(3) [OF r] c(5) [OF r] by (simp add: l)
    qed
    show "reg (entry_of (link_entry m p n st) d j) = Some k" if "handles (link_entry m p n st) k j (LinkHandler d)" for k j d
      using that c(6) [of d k j] nolink [of k] by (auto simp: l)
    show "\<exists>v. um s = Inr v" if "handles (link_entry m p n st) k j (FieldHandler um f)" "ok j s" for k j um f s
      using c(7) [of um f k j s] that by (simp add: l)
    show "k = k' \<and> j = j' \<and> um = um'"
      if "handles (link_entry m p n st) k j (FieldHandler um f)" "handles (link_entry m p n st) k' j' (FieldHandler um' f)" for k j um f k' j' um'
      using c(8) [of um f k j um' k' j'] that by (simp add: l)
  qed
  moreover have "cfg_sync {} (link_entry m p n st)"
  proof (rule cfg_syncI)
    fix k j h
    assume h: "handles (link_entry m p n st) k j h"
    show "synced (link_entry m p n st) k j h"
    proof (cases "k = p \<and> j = n \<and> h = LinkHandler m")
      case True
      then show ?thesis using \<open>p \<noteq> m\<close> by (simp add: synced_def l)
    next
      case False
      then have hk: "handles st k j h" using h by (auto simp: l)
      then have "\<not> (k = m \<and> j = n)" "\<And>d. h = LinkHandler d \<Longrightarrow> \<not> (d = m \<and> j = n)" using new(1) nolink by auto
      then show ?thesis using cfg_syncD [OF inv hk] by (cases h) (auto simp: synced_def l)
    qed
  qed
  ultimately show ?thesis by (simp add: cfg_inv_def)
qed

text \<open>Making entries on demand changes the overrides only by an empty entry of a root.\<close>

definition overrides_ext :: "'v ConfigSystem \<Rightarrow> 'v ConfigSystem \<Rightarrow> bool" where
  "overrides_ext st st' \<longleftrightarrow>
     (\<forall>k. m_pParent (managers st' k) = m_pParent (managers st k)) \<and>
     (\<forall>k j. overrides st' k j = overrides st k j \<or>
        m_pParent (managers st k) = None \<and> overrides st k j = None \<and> overrides st' k j = Some '''')"

lemma overrides_ext_refl: "overrides_ext st st"
  by (simp add: overrides_ext_def)

lemma overrides_ext_trans: "overrides_ext a b \<Longrightarrow> overrides_ext b c \<Longrightarrow> overrides_ext a c"
  unfolding overrides_ext_def by (metis option.distinct(1))

lemma configured_ext:
  assumes ext: "overrides_ext st st'" and "configured st k j v"
  shows "configured st' k j v"
  using assms(2)
proof (induction rule: configured.induct)
  case (configured_here m n v)
  have "overrides st' m n = Some v" using ext configured_here unfolding overrides_ext_def by (metis option.distinct(1))
  then show ?case by (rule configured.configured_here)
next
  case (configured_above m n p v)
  have "overrides st' m n = None" "m_pParent (managers st' m) = Some p"
    using ext configured_above(1,2) unfolding overrides_ext_def by (metis option.distinct(1))+
  then show ?case using configured_above.IH by (rule configured.configured_above)
next
  case (configured_nowhere m n)
  then have p: "m_pParent (managers st' m) = None" using ext by (simp add: overrides_ext_def)
  have "overrides st' m n = None \<or> overrides st' m n = Some ''''" using ext configured_nowhere(1) unfolding overrides_ext_def by metis
  then show ?case using configured.configured_nowhere [OF _ p] configured.configured_here by blast
qed

lemma ConfigGet_ext:
  assumes "cfg_inv ok st" "cfg_inv ok st'" "overrides_ext st st'"
  shows "ConfigGet st' m n = ConfigGet st m n"
proof -
  obtain v where "ConfigGet st m n = Some v" "configured st m n v" using ConfigGet_configured [OF assms(1)] by blast
  then show ?thesis using configured_ext [OF assms(3)] ConfigGet_iff [OF assms(2)] by simp
qed

text \<open>What \<open>GetEntry\<close> keeps: other names, managers below, the fields and the metadata.\<close>

definition entry_frame :: "nat \<Rightarrow> string \<Rightarrow> 'v ConfigSystem \<Rightarrow> 'v ConfigSystem \<Rightarrow> bool" where
  "entry_frame m n st st' \<longleftrightarrow>
     (\<forall>k j. j \<noteq> n \<or> m < k \<longrightarrow> find_entry st' k j = find_entry st k j) \<and>
     (\<forall>k j um f. handles st' k j (FieldHandler um f) = handles st k j (FieldHandler um f)) \<and>
     cells st' = cells st \<and> manager_count st' = manager_count st \<and>
     (\<forall>k. metadata_state (managers st' k) = metadata_state (managers st k))"

lemma link_entry_metadata [simp]: "metadata_state (managers (link_entry m p n st) k) = metadata_state (managers st k)"
  by (simp add: link_entry_def Let_def)

lemma overrides_put: "overrides (put_entry m n e st) k j =
    (if k = m \<and> j = n then if reg e = None then Some (evalue e) else None else overrides st k j)"
  by (auto simp: overrides_def)

lemma GetEntry_inv:
  assumes "cfg_inv ok st"
  shows "\<exists>st'. GetEntry m n st = Some st' \<and> cfg_inv ok st' \<and> find_entry st' m n \<noteq> None \<and> overrides_ext st st' \<and> entry_frame m n st st'"
  using assms
proof (induction m arbitrary: st rule: less_induct)
  case (less m)
  note c = cfg_coreD [OF cfg_invD(1) [OF less.prems]]
  show ?case
  proof (cases "find_entry st m n")
    case (Some e)
    then show ?thesis using less.prems by (simp add: GetEntry.simps [of m] overrides_ext_refl entry_frame_def)
  next
    case None
    let ?new = "put_entry m n entry_new st"
    have en: "entry_of st m n = entry_new" using None by (simp add: entry_of_def)
    have new: "entry_of ?new k j = entry_of st k j" for k j using en by simp
    have inv: "cfg_inv ok ?new" by (rule cfg_inv_cong [OF less.prems new]) simp_all
    show ?thesis
    proof (cases "m_pParent (managers st m)")
      case root: None
      have "overrides st m n = None" using None by (simp add: overrides_def)
      then have "overrides_ext st ?new" using root by (simp add: overrides_ext_def overrides_put) (simp add: entry_new_def)
      moreover have "entry_frame m n st ?new" using new by (simp add: entry_frame_def)
      ultimately show ?thesis using None root inv by (simp add: GetEntry.simps [of m])
    next
      case (Some p)
      then have pm: "p < m" using c(1) by blast
      then obtain st1 where st1: "GetEntry p n ?new = Some st1" "cfg_inv ok st1" "find_entry st1 p n \<noteq> None"
          "overrides_ext ?new st1" "entry_frame p n ?new st1"
        using less.IH [OF pm inv] by blast
      have par: "m_pParent (managers st1 k) = m_pParent (managers st k)" for k using st1(4) by (simp add: overrides_ext_def)
      have e1: "entry_of st1 m n = entry_new" using st1(5) pm by (simp add: entry_frame_def entry_of_def)
      note l = link_entry_entries [OF cfg_coreD(2) [OF cfg_invD(1) [OF st1(2)]] e1, of p]
      let ?l = "link_entry m p n st1"
      have ov: "overrides ?l k j = (if k = m \<and> j = n then None else overrides st1 k j)" for k j
        using pm l(5) [of k j] l(6) [of j k] l(8) st1(3)
        by (cases "j = n"; cases "k = m"; cases "k = p") (simp_all add: overrides_def l)
      have "overrides ?l k j = overrides st k j \<or>
          m_pParent (managers st k) = None \<and> overrides st k j = None \<and> overrides ?l k j = Some ''''" for k j
      proof (cases "k = m \<and> j = n")
        case True
        then show ?thesis using None ov [of k j] by (simp add: overrides_def [of st])
      next
        case False
        moreover have "overrides st1 k j = overrides ?new k j \<or>
            m_pParent (managers st k) = None \<and> overrides ?new k j = None \<and> overrides st1 k j = Some ''''"
          using st1(4) by (simp add: overrides_ext_def)
        ultimately show ?thesis using ov [of k j] by (simp only: overrides_put if_False)
      qed
      then have "overrides_ext st ?l" using par pm by (simp add: overrides_ext_def l)
      moreover have "entry_frame m n st ?l"
        using st1(5) pm new l(5) l(6) by (auto simp: entry_frame_def l)
      moreover have "cfg_inv ok ?l" using link_entry_inv [OF st1(2) _ e1] par Some by simp
      ultimately show ?thesis using None Some st1(1) l(7) pm by (simp add: GetEntry.simps [of m])
    qed
  qed
qed

section \<open>Register\<close>

text \<open>The fields that may be registered: at a fresh address, with an unmarshaller that accepts the value of the entry and every acceptable text.\<close>

definition field_ok :: "(string \<Rightarrow> string \<Rightarrow> bool) \<Rightarrow> 'v ConfigSystem \<Rightarrow> nat \<Rightarrow> 'v config_field \<Rightarrow> bool" where
  "field_ok ok st m fd \<longleftrightarrow>
     (\<forall>s. ok (fname fd) s \<longrightarrow> (\<exists>v. funmarshal fd s = Inr v)) \<and>
     (\<forall>v. ConfigGet st m (fname fd) = Some v \<longrightarrow> ok (fname fd) v) \<and>
     (\<forall>k j um. \<not> handles st k j (FieldHandler um (pField fd)))"

definition attached_state :: "nat \<Rightarrow> 'v config_field \<Rightarrow> 'v \<Rightarrow> 'v ConfigSystem \<Rightarrow> 'v ConfigSystem" where
  "attached_state m fd v st =
     (let e = entry_of st m (fname fd) in
      set_cell (pField fd) v (put_entry m (fname fd)
        (e\<lparr>attached := attached e @ [pField fd], onChanged := onChanged e @ [FieldHandler (funmarshal fd) (pField fd)]\<rparr>) st))"

lemma attached_state_entries:
  "handles (attached_state m fd v st) k j h \<longleftrightarrow>
     handles st k j h \<or> k = m \<and> j = fname fd \<and> h = FieldHandler (funmarshal fd) (pField fd)"
  "reg (entry_of (attached_state m fd v st) k j) = reg (entry_of st k j)"
  "evalue (entry_of (attached_state m fd v st) k j) = evalue (entry_of st k j)"
  "asserting (entry_of (attached_state m fd v st) k j) = asserting (entry_of st k j)"
  "find_entry (attached_state m fd v st) k j = None \<longleftrightarrow> find_entry st k j = None \<and> \<not> (k = m \<and> j = fname fd)"
  "m_pParent (managers (attached_state m fd v st) k) = m_pParent (managers st k)"
  "manager_count (attached_state m fd v st) = manager_count st"
  "cells (attached_state m fd v st) = (cells st)(pField fd \<mapsto> v)"
  "metadata_state (managers (attached_state m fd v st) k) = metadata_state (managers st k)"
  by (auto simp: attached_state_def Let_def) (simp add: set_cell_def)

lemma attached_state_inv:
  assumes inv: "cfg_inv ok st" and fd: "field_ok ok st m fd" and v: "funmarshal fd (evalue (entry_of st m (fname fd))) = Inr v"
  shows "cfg_inv ok (attached_state m fd v st)"
proof -
  note c = cfg_coreD [OF cfg_invD(1) [OF inv]]
  note a = attached_state_entries
  have fresh: "\<not> handles st k j (FieldHandler um (pField fd))" for k j um using fd by (simp add: field_ok_def)
  have "cfg_core ok (attached_state m fd v st)"
  proof (rule cfg_coreI)
    show "q < k \<and> k < manager_count (attached_state m fd v st)" if "m_pParent (managers (attached_state m fd v st) k) = Some q" for k q
      using c(1) that by (simp add: a)
    show "\<not> asserting (entry_of (attached_state m fd v st) k j)" for k j using c(2) by (simp add: a)
    show "m_pParent (managers (attached_state m fd v st) k) = Some q \<and> find_entry (attached_state m fd v st) q j \<noteq> None \<and>
        handles (attached_state m fd v st) q j (LinkHandler k)"
      if "reg (entry_of (attached_state m fd v st) k j) = Some q" for k j q
    proof -
      have r: "reg (entry_of st k j) = Some q" using that by (simp add: a)
      then show ?thesis using c(3) [OF r] c(4) [OF r] c(5) [OF r] by (simp add: a del: not_None_eq)
    qed
    show "reg (entry_of (attached_state m fd v st) d j) = Some k" if "handles (attached_state m fd v st) k j (LinkHandler d)" for k j d
      using that c(6) [of d k j] by (simp add: a)
    show "\<exists>v. um s = Inr v" if "handles (attached_state m fd v st) k j (FieldHandler um f)" "ok j s" for k j um f s
      using c(7) [of um f k j s] that fd by (auto simp: a field_ok_def)
    show "k = k' \<and> j = j' \<and> um = um'"
      if "handles (attached_state m fd v st) k j (FieldHandler um f)" "handles (attached_state m fd v st) k' j' (FieldHandler um' f)" for k j um f k' j' um'
      using c(8) [of um f k j um' k' j'] that fresh by (auto simp: a)
  qed
  moreover have "cfg_sync {} (attached_state m fd v st)"
  proof (rule cfg_syncI)
    fix k j h
    assume h: "handles (attached_state m fd v st) k j h"
    show "synced (attached_state m fd v st) k j h"
    proof (cases "handles st k j h")
      case True
      then have "f \<noteq> pField fd" if "h = FieldHandler um f" for um f using fresh that by auto
      then show ?thesis using cfg_syncD [OF inv True] by (cases h) (auto simp: synced_def a)
    next
      case False
      then show ?thesis using h v by (simp add: a synced_def)
    qed
  qed
  ultimately show ?thesis by (simp add: cfg_inv_def)
qed

text \<open>Changes of metadata and watchers leave the entries alone.\<close>

lemma with_manager_entries:
  assumes "m_config (g (managers st m)) = m_config (managers st m)" "m_pParent (g (managers st m)) = m_pParent (managers st m)"
  shows "find_entry (with_manager m g st) k j = find_entry st k j" "entry_of (with_manager m g st) k j = entry_of st k j"
    "m_pParent (managers (with_manager m g st) k) = m_pParent (managers st k)"
    "cells (with_manager m g st) = cells st" "manager_count (with_manager m g st) = manager_count st"
    "overrides (with_manager m g st) k j = overrides st k j"
  using assms by (simp_all add: with_manager_def find_entry_def entry_of_def overrides_def)

lemma with_manager_inv:
  assumes "cfg_inv ok st" "m_config (g (managers st m)) = m_config (managers st m)" "m_pParent (g (managers st m)) = m_pParent (managers st m)"
  shows "cfg_inv ok (with_manager m g st) \<and> overrides_ext st (with_manager m g st)"
  using cfg_inv_cong [OF assms(1)] by (simp add: with_manager_entries [of g st m, OF assms(2,3)] overrides_ext_def)

lemma collect_metadata_frame:
  "collect_metadata f is mgr d = (mgr', d') \<Longrightarrow>
     m_config mgr' = m_config mgr \<and> m_pParent mgr' = m_pParent mgr \<and> watchers mgr' = watchers mgr \<and> metadata_calls mgr' = metadata_calls mgr"
  by (induction f "is" mgr d rule: collect_metadata.induct) auto

lemma ConfigGet_entry:
  assumes "cfg_inv ok st" "find_entry st m n \<noteq> None"
  shows "ConfigGet st m n = Some (evalue (entry_of st m n))"
  using ConfigGet_configured [OF assms(1), of m n] assms(2) by blast

lemma attach_field_ok:
  assumes "cfg_inv ok st" "find_entry st m (fname fd) \<noteq> None" "field_ok ok st m fd"
  shows "\<exists>v. attach_field m fd st = (attached_state m fd v st, Inr ()) \<and> cfg_inv ok (attached_state m fd v st) \<and>
    overrides_ext st (attached_state m fd v st)"
proof -
  obtain v where v: "funmarshal fd (evalue (entry_of st m (fname fd))) = Inr v"
    using assms(3) ConfigGet_entry [OF assms(1,2)] by (auto simp: field_ok_def)
  have "attach_field m fd st = (attached_state m fd v st, Inr ())"
    using v cfg_coreD(2) [OF cfg_invD(1) [OF assms(1)]] by (simp add: attach_field_def attached_state_def Let_def)
  moreover have "overrides_ext st (attached_state m fd v st)"
    using assms(2) by (auto simp: overrides_ext_def overrides_def attached_state_entries)
  ultimately show ?thesis using attached_state_inv [OF assms(1,3) v] by blast
qed

text \<open>One field of \<open>Register\<close>: the entry, the field and the metadata.\<close>

lemma register_field_step:
  assumes "cfg_inv ok st" "field_ok ok st m fd"
  shows "\<exists>st1 v mgr d'. GetEntry m (fname fd) st = Some st1 \<and> attach_field m fd st1 = (attached_state m fd v st1, Inr ()) \<and>
     collect_metadata (pField fd) (fmetadata fd) (managers (attached_state m fd v st1) m) d = (mgr, d') \<and>
     metadata_state (managers (attached_state m fd v st1) m) = metadata_state (managers st m) \<and>
     cfg_inv ok (with_manager m (\<lambda>_. mgr) (attached_state m fd v st1)) \<and>
     overrides_ext st (with_manager m (\<lambda>_. mgr) (attached_state m fd v st1)) \<and>
     manager_count (with_manager m (\<lambda>_. mgr) (attached_state m fd v st1)) = manager_count st \<and>
     (\<forall>k j. m < k \<longrightarrow> (find_entry (with_manager m (\<lambda>_. mgr) (attached_state m fd v st1)) k j = None) = (find_entry st k j = None)) \<and>
     (\<forall>k. k \<noteq> m \<longrightarrow> metadata_state (managers (with_manager m (\<lambda>_. mgr) (attached_state m fd v st1)) k) = metadata_state (managers st k)) \<and>
     (\<forall>k j um f. handles (with_manager m (\<lambda>_. mgr) (attached_state m fd v st1)) k j (FieldHandler um f) \<longleftrightarrow>
        handles st k j (FieldHandler um f) \<or> k = m \<and> j = fname fd \<and> um = funmarshal fd \<and> f = pField fd)"
proof -
  obtain st1 where st1: "GetEntry m (fname fd) st = Some st1" "cfg_inv ok st1" "find_entry st1 m (fname fd) \<noteq> None"
      "overrides_ext st st1" "entry_frame m (fname fd) st st1"
    using GetEntry_inv [OF assms(1)] by blast
  have "field_ok ok st1 m fd"
    using assms(2) st1(5) ConfigGet_ext [OF assms(1) st1(2,4)] by (simp add: field_ok_def entry_frame_def)
  then obtain v where v: "attach_field m fd st1 = (attached_state m fd v st1, Inr ())" "cfg_inv ok (attached_state m fd v st1)"
      "overrides_ext st1 (attached_state m fd v st1)"
    using attach_field_ok [OF st1(2,3)] by blast
  obtain mgr d' where mgr: "collect_metadata (pField fd) (fmetadata fd) (managers (attached_state m fd v st1) m) d = (mgr, d')"
    by fastforce
  let ?a = "attached_state m fd v st1"
  note same = collect_metadata_frame [OF mgr, THEN conjunct1] collect_metadata_frame [OF mgr, THEN conjunct2, THEN conjunct1]
  note w = with_manager_entries [of "\<lambda>_. mgr" ?a m, OF same]
  have inv: "cfg_inv ok (with_manager m (\<lambda>_. mgr) ?a)" "overrides_ext ?a (with_manager m (\<lambda>_. mgr) ?a)"
    using with_manager_inv [OF v(2), of "\<lambda>_. mgr" m] same by simp_all
  have "overrides_ext st (with_manager m (\<lambda>_. mgr) ?a)"
    using overrides_ext_trans [OF overrides_ext_trans [OF st1(4) v(3)] inv(2)] .
  moreover have "\<forall>k. k \<noteq> m \<longrightarrow> metadata_state (managers (with_manager m (\<lambda>_. mgr) ?a) k) = metadata_state (managers st k)"
    using st1(5) by (simp add: with_manager_def attached_state_entries entry_frame_def)
  moreover have "metadata_state (managers ?a m) = metadata_state (managers st m)" "manager_count ?a = manager_count st"
    using st1(5) by (simp_all add: attached_state_entries entry_frame_def)
  moreover have "handles ?a k j (FieldHandler um f) \<longleftrightarrow>
      handles st k j (FieldHandler um f) \<or> k = m \<and> j = fname fd \<and> um = funmarshal fd \<and> f = pField fd" for k j um f
    using st1(5) by (simp add: attached_state_entries entry_frame_def)
  moreover have "\<forall>k j. m < k \<longrightarrow> (find_entry ?a k j = None) = (find_entry st k j = None)"
    using st1(5) by (simp add: attached_state_entries entry_frame_def)
  ultimately show ?thesis using st1(1) v(1) mgr inv(1) w by metis
qed

text \<open>The calls that the watchers should have had: one for each watcher and each piece of metadata with its identifier.\<close>

definition told_pairs :: "(nat \<times> nat) list \<Rightarrow> (nat \<times> config_event) list \<Rightarrow> (nat \<times> config_event) multiset" where
  "told_pairs ws ms = mset (concat (map (\<lambda>(i, w). map (Pair w) (matching i ms)) ws))"

definition pending_calls :: "(nat \<times> config_event) list \<Rightarrow> 'v ConfigManager \<Rightarrow> bool" where
  "pending_calls d mgr \<longleftrightarrow> mset (metadata_calls mgr) + mset d = told_pairs (watchers mgr) (metadata_collection mgr)"

lemma told_pairs_metadata:
  "told_pairs ws (ms @ [(i, ev)]) = told_pairs ws ms + mset (map (\<lambda>w. (w, ev)) (matching i ws))"
  by (induction ws) (auto simp: told_pairs_def matching_def)

lemma told_pairs_watcher: "told_pairs (ws @ [(i, w)]) ms = told_pairs ws ms + mset (map (Pair w) (matching i ms))"
  by (simp add: told_pairs_def)

lemma collect_metadata_pending:
  "collect_metadata f is mgr d = (mgr', d') \<Longrightarrow> pending_calls d mgr \<Longrightarrow> pending_calls d' mgr'"
proof (induction f "is" mgr d rule: collect_metadata.induct)
  case (2 f i r mgr d)
  from 2(3) have "pending_calls (d @ map (\<lambda>w. (w, f, i)) (matching i (watchers mgr)))
      (mgr\<lparr>metadata_collection := metadata_collection mgr @ [(i, f, i)]\<rparr>)"
    unfolding pending_calls_def by (simp add: told_pairs_metadata)
  with 2(1,2) show ?case by simp
qed simp

lemma pending_calls_cong: "metadata_state mgr' = metadata_state mgr \<Longrightarrow> pending_calls d mgr' = pending_calls d mgr"
  by (simp add: pending_calls_def metadata_state_def)

lemma register_fields_inv:
  assumes "cfg_inv ok st" "\<forall>fd \<in> set fds. field_ok ok st m fd" "distinct (map pField fds)" "pending_calls d (managers st m)"
  shows "\<exists>st'. register_fields m fds d st = Some (st', Inr ()) \<and> cfg_inv ok st' \<and> overrides_ext st st' \<and>
    manager_count st' = manager_count st \<and> pending_calls [] (managers st' m) \<and>
    (\<forall>k. k \<noteq> m \<longrightarrow> metadata_state (managers st' k) = metadata_state (managers st k)) \<and>
    (\<forall>k j. m < k \<longrightarrow> (find_entry st' k j = None) = (find_entry st k j = None)) \<and>
    (\<forall>fd \<in> set fds. handles st' m (fname fd) (FieldHandler (funmarshal fd) (pField fd))) \<and>
    (\<forall>k j um f. handles st k j (FieldHandler um f) \<longrightarrow> handles st' k j (FieldHandler um f))"
  using assms
proof (induction fds arbitrary: d st)
  case Nil
  have f: "m_config (call_watchers d (managers st m)) = m_config (managers st m)"
    "m_pParent (call_watchers d (managers st m)) = m_pParent (managers st m)" by (simp_all add: call_watchers_def)
  have "pending_calls [] (managers (with_manager m (call_watchers d) st) m)"
    using Nil(4) by (simp add: pending_calls_def call_watchers_def with_manager_def)
  moreover have "metadata_state (managers (with_manager m (call_watchers d) st) k) = metadata_state (managers st k)" if "k \<noteq> m" for k
    using that by (simp add: with_manager_def)
  ultimately show ?case
    using with_manager_inv [of ok st "call_watchers d" m, OF Nil(1) f] with_manager_entries [of "call_watchers d" st m, OF f] by simp
next
  case (Cons fd r)
  have ok: "field_ok ok st m fd" using Cons.prems(2) by simp
  obtain st1 v mgr d' where s: "GetEntry m (fname fd) st = Some st1" "attach_field m fd st1 = (attached_state m fd v st1, Inr ())"
      "collect_metadata (pField fd) (fmetadata fd) (managers (attached_state m fd v st1) m) d = (mgr, d')"
      "metadata_state (managers (attached_state m fd v st1) m) = metadata_state (managers st m)"
    and st2: "cfg_inv ok (with_manager m (\<lambda>_. mgr) (attached_state m fd v st1))"
      "overrides_ext st (with_manager m (\<lambda>_. mgr) (attached_state m fd v st1))"
      "manager_count (with_manager m (\<lambda>_. mgr) (attached_state m fd v st1)) = manager_count st"
      "\<forall>k j. m < k \<longrightarrow> (find_entry (with_manager m (\<lambda>_. mgr) (attached_state m fd v st1)) k j = None) = (find_entry st k j = None)"
      "\<forall>k. k \<noteq> m \<longrightarrow> metadata_state (managers (with_manager m (\<lambda>_. mgr) (attached_state m fd v st1)) k) = metadata_state (managers st k)"
    and fh: "\<forall>k j um f. handles (with_manager m (\<lambda>_. mgr) (attached_state m fd v st1)) k j (FieldHandler um f) \<longleftrightarrow>
        handles st k j (FieldHandler um f) \<or> k = m \<and> j = fname fd \<and> um = funmarshal fd \<and> f = pField fd"
    using register_field_step [OF Cons.prems(1) ok, of d] by blast
  let ?st2 = "with_manager m (\<lambda>_. mgr) (attached_state m fd v st1)"
  have "pending_calls d (managers (attached_state m fd v st1) m)" using Cons.prems(4) pending_calls_cong [OF s(4)] by simp
  then have pend: "pending_calls d' (managers ?st2 m)" using collect_metadata_pending [OF s(3)] by (simp add: with_manager_def)
  have "\<forall>fd' \<in> set r. field_ok ok ?st2 m fd'"
  proof
    fix fd'
    assume "fd' \<in> set r"
    then have "field_ok ok st m fd'" "pField fd' \<in> pField ` set r" using Cons.prems(2) by simp_all
    moreover from this(2) have "pField fd' \<noteq> pField fd" using Cons.prems(3) by auto
    ultimately have "field_ok ok st m fd'" "pField fd' \<noteq> pField fd" by simp_all
    then show "field_ok ok ?st2 m fd'"
      unfolding field_ok_def ConfigGet_ext [OF Cons.prems(1) st2(1,2)] fh [rule_format] by blast
  qed
  then obtain st' where st': "register_fields m r d' ?st2 = Some (st', Inr ())" "cfg_inv ok st'" "overrides_ext ?st2 st'"
      "manager_count st' = manager_count ?st2" "pending_calls [] (managers st' m)"
      "\<forall>k. k \<noteq> m \<longrightarrow> metadata_state (managers st' k) = metadata_state (managers ?st2 k)"
      "\<forall>fd \<in> set r. handles st' m (fname fd) (FieldHandler (funmarshal fd) (pField fd))"
      "\<forall>k j um f. handles ?st2 k j (FieldHandler um f) \<longrightarrow> handles st' k j (FieldHandler um f)"
      "\<forall>k j. m < k \<longrightarrow> (find_entry st' k j = None) = (find_entry ?st2 k j = None)"
    using Cons.IH [OF st2(1) _ _ pend] Cons.prems(3) by auto
  have "register_fields m (fd # r) d st = Some (st', Inr ())" using s st'(1) by simp
  moreover have "overrides_ext st st'" using overrides_ext_trans [OF st2(2) st'(3)] .
  moreover have "\<forall>fd' \<in> set (fd # r). handles st' m (fname fd') (FieldHandler (funmarshal fd') (pField fd'))"
    using st'(7,8) fh by simp
  moreover have "\<forall>k j um f. handles st k j (FieldHandler um f) \<longrightarrow> handles st' k j (FieldHandler um f)"
    using st'(8) fh by simp
  moreover have "\<forall>k j. m < k \<longrightarrow> (find_entry st' k j = None) = (find_entry st k j = None)" using st'(9) st2(4) by simp
  ultimately show ?case using st'(2,4-6) st2(3,5) by simp
qed

section \<open>Watchers, Clear and construction\<close>

lemma WhenInternal_inv:
  assumes "cfg_inv ok st" "pending_calls [] (managers st m)"
  shows "cfg_inv ok (WhenInternal m i w st) \<and> overrides_ext st (WhenInternal m i w st) \<and> pending_calls [] (managers (WhenInternal m i w st) m) \<and>
    (\<forall>k j. entry_of (WhenInternal m i w st) k j = entry_of st k j)"
proof -
  let ?g = "\<lambda>mgr. call_watchers (map (\<lambda>ev. (w, ev)) (matching i (metadata_collection mgr))) (mgr\<lparr>watchers := watchers mgr @ [(i, w)]\<rparr>)"
  have g: "m_config (?g (managers st m)) = m_config (managers st m)" "m_pParent (?g (managers st m)) = m_pParent (managers st m)"
    by (simp_all add: call_watchers_def)
  show ?thesis
    unfolding WhenInternal_def
    using with_manager_inv [of ok st ?g m, OF assms(1) g] with_manager_entries(2) [of ?g st m, OF g] assms(2)
    by (simp add: pending_calls_def told_pairs_watcher with_manager_def call_watchers_def)
qed

lemma ConfigClear_entries:
  assumes "cfg_inv ok st"
  shows "handles (ConfigClear m st) k j h \<longleftrightarrow> handles st k j h \<and> \<not> (j \<in> UNIV \<and> h = LinkHandler m)"
    and "reg (entry_of (ConfigClear m st) k j) = (if k = m \<and> j \<in> UNIV then None else reg (entry_of st k j))"
    and "evalue (entry_of (ConfigClear m st) k j) = evalue (entry_of st k j)"
    and "asserting (entry_of (ConfigClear m st) k j) = asserting (entry_of st k j)"
    and "find_entry (ConfigClear m st) k j = None \<longleftrightarrow> find_entry st k j = None"
    and "m_pParent (managers (ConfigClear m st) k) = (if k = m then None else m_pParent (managers st k))"
    and "manager_count (ConfigClear m st) = manager_count st" "cells (ConfigClear m st) = cells st"
    and "metadata_state (managers (ConfigClear m st) k) = metadata_state (managers st k)"
proof -
  note c = cfg_coreD [OF cfg_invD(1) [OF assms]]
  have e: "entry_of (ConfigClear m st) k j = (if k = m then (entry_of st k j)\<lparr>reg := None\<rparr>
      else if reg (entry_of st m j) = Some k then drop_link m (entry_of st k j) else entry_of st k j)" for k j
    by (cases "find_entry st k j") (auto simp: ConfigClear_def entry_of_def find_entry_def entry_new_def drop_link_def)
  have links: "handles st k j (LinkHandler m) \<Longrightarrow> reg (entry_of st m j) = Some k \<and> k \<noteq> m" for k j
    using c(6) [of m k j] c(3) [of m j k] c(1) [of m k] by simp
  show "handles (ConfigClear m st) k j h \<longleftrightarrow> handles st k j h \<and> \<not> (j \<in> UNIV \<and> h = LinkHandler m)"
    using links [of k j] c(2) by (auto simp: e drop_link_def)
  show "reg (entry_of (ConfigClear m st) k j) = (if k = m \<and> j \<in> UNIV then None else reg (entry_of st k j))"
    "evalue (entry_of (ConfigClear m st) k j) = evalue (entry_of st k j)"
    "asserting (entry_of (ConfigClear m st) k j) = asserting (entry_of st k j)"
    by (simp_all add: e drop_link_def)
qed (simp_all add: ConfigClear_def find_entry_def metadata_state_def)

lemma ConfigClear_inv: "cfg_inv ok st \<Longrightarrow> cfg_inv ok (ConfigClear m st)"
  by (rule unlink_inv [where N = UNIV and m = m]) (simp_all add: ConfigClear_entries)

lemma prepopulate_plain:
  "\<forall>e \<in> ran cfg. onChanged e = [] \<and> \<not> asserting e \<and> reg e = None \<Longrightarrow>
   \<forall>e \<in> ran (prepopulate fs cfg). onChanged e = [] \<and> \<not> asserting e \<and> reg e = None"
proof (induction fs cfg rule: prepopulate.induct)
  case (2 n d r cfg)
  show ?case
    unfolding prepopulate.simps Let_def
    by (rule 2(1) [OF refl]) (use 2(2) in \<open>auto simp: ran_def entry_new_def split: option.splits\<close>)
qed simp

lemma manager_new_entries:
  "m_config (manager_new fs q) n = Some e \<Longrightarrow> onChanged e = [] \<and> \<not> asserting e \<and> reg e = None"
  using prepopulate_plain [of Map.empty fs] by (auto simp: manager_new_def ran_def split: if_splits)

text \<open>The numbers that are not yet managers.\<close>

definition fresh_slots :: "'v ConfigSystem \<Rightarrow> bool" where
  "fresh_slots st \<longleftrightarrow> (\<forall>m \<ge> manager_count st. m_pParent (managers st m) = None \<and> (\<forall>n. find_entry st m n = None))"

lemma add_manager_inv:
  assumes inv: "cfg_inv ok st" and fresh: "fresh_slots st" and q: "\<And>p. q = Some p \<Longrightarrow> p < manager_count st"
  shows "cfg_inv ok (add_manager fs q st)" and "fresh_slots (add_manager fs q st)"
proof -
  let ?c = "manager_count st" and ?st = "add_manager fs q st"
  note c = cfg_coreD [OF cfg_invD(1) [OF inv]]
  have m: "managers ?st k = (if k = ?c then manager_new fs q else managers st k)" "manager_count ?st = Suc ?c" "cells ?st = cells st" for k
    by (simp_all add: add_manager_def)
  have par: "m_pParent (managers ?st k) = (if k = ?c then q else m_pParent (managers st k))" for k
    by (simp add: m manager_new_def)
  have none: "find_entry st ?c j = None" for j using fresh by (simp add: fresh_slots_def)
  then have old: "entry_of st ?c j = entry_new" for j by (simp add: entry_of_def)
  have find: "k \<noteq> ?c \<Longrightarrow> find_entry ?st k j = find_entry st k j" for k j by (simp add: m find_entry_def)
  then have ent: "k \<noteq> ?c \<Longrightarrow> entry_of ?st k j = entry_of st k j" for k j by (simp add: entry_of_def)
  have new: "onChanged (entry_of ?st ?c j) = [] \<and> \<not> asserting (entry_of ?st ?c j) \<and> reg (entry_of ?st ?c j) = None" for j
    using manager_new_entries [of fs q j] by (cases "find_entry ?st ?c j") (auto simp: entry_of_def entry_new_def find_entry_def m)
  have hs: "handles ?st k j h \<longleftrightarrow> handles st k j h" for k j h
    using new [of j] old [of j] ent [of k j] by (cases "k = ?c") (simp_all add: entry_new_def)
  have rg: "reg (entry_of ?st k j) = reg (entry_of st k j)" for k j
    using new [of j] old [of j] ent [of k j] by (cases "k = ?c") (simp_all add: entry_new_def)
  have "cfg_core ok ?st"
  proof (rule cfg_coreI)
    show "p < k \<and> k < manager_count ?st" if "m_pParent (managers ?st k) = Some p" for k p
      using c(1) [of k p] q [of p] that by (auto simp: par m(2) split: if_splits)
    show "\<not> asserting (entry_of ?st k j)" for k j using new [of j] ent [of k j] c(2) by (cases "k = ?c") simp_all
    show "m_pParent (managers ?st k) = Some p \<and> find_entry ?st p j \<noteq> None \<and> handles ?st p j (LinkHandler k)"
      if "reg (entry_of ?st k j) = Some p" for k j p
    proof -
      have r: "reg (entry_of st k j) = Some p" using that rg by simp
      then have "k \<noteq> ?c" "p \<noteq> ?c" using old [of j] c(4) [OF r] none [of j] by (auto simp: entry_new_def)
      then show ?thesis using c(3) [OF r] c(4) [OF r] c(5) [OF r] find [of p j] by (simp add: par hs)
    qed
    show "reg (entry_of ?st d j) = Some k" if "handles ?st k j (LinkHandler d)" for k j d
      using c(6) [of d k j] that by (simp add: hs rg)
    show "\<exists>v. um s = Inr v" if "handles ?st k j (FieldHandler um f)" "ok j s" for k j um f s
      using c(7) [of um f k j s] that by (simp add: hs)
    show "k = k' \<and> j = j' \<and> um = um'"
      if "handles ?st k j (FieldHandler um f)" "handles ?st k' j' (FieldHandler um' f)" for k j um f k' j' um'
      using c(8) [of um f k j um' k' j'] that by (simp add: hs)
  qed
  moreover have "cfg_sync {} ?st"
  proof (rule cfg_syncI)
    fix k j h
    assume "handles ?st k j h"
    then have h: "handles st k j h" by (simp add: hs)
    then have "k \<noteq> ?c" using old [of j] by (auto simp: entry_new_def)
    moreover have "d \<noteq> ?c" if "h = LinkHandler d" for d
      using c(6) [of d k j] h that old [of j] by (auto simp: entry_new_def)
    ultimately show "synced ?st k j h" using cfg_syncD [OF inv h] ent by (cases h) (auto simp: synced_def m(3))
  qed
  ultimately show "cfg_inv ok ?st" by (simp add: cfg_inv_def)
  show "fresh_slots ?st" using fresh by (simp add: fresh_slots_def par find m(2))
qed

end
