(* ===== verification/Marshaller.thy ===== *)
theory Marshaller
  imports Prelude "HOL-Library.Word"
begin

text \<open>
  The built-in marshallers of configuration values (\<open>marshaller.h\<close>) for booleans, integral types and
  strings, with what they use of the C and C++ libraries: \<open>strtoll\<close>, \<open>strtoull\<close>, \<open>isspace\<close> and
  \<open>std::to_string\<close>.  A \<open>w\<close>-bit integral type is a word of length \<open>w\<close>, read with or without sign.
  Floating-point values are not modelled.
\<close>

section \<open>Decimal numerals\<close>

definition digit_char :: "nat \<Rightarrow> char" where
  "digit_char d = char_of (48 + d)"

definition digit_value :: "char \<Rightarrow> nat" where
  "digit_value c = of_char c - 48"

definition is_digit :: "char \<Rightarrow> bool" where
  "is_digit c \<longleftrightarrow> (48::nat) \<le> of_char c \<and> of_char c \<le> (57::nat)"

definition isspace :: "char \<Rightarrow> bool" where
  "isspace c \<longleftrightarrow> of_char c = (32::nat) \<or> (9::nat) \<le> of_char c \<and> of_char c \<le> (13::nat)"

fun decimal :: "nat \<Rightarrow> string" where
  "decimal n = (if n < 10 then [digit_char n] else decimal (n div 10) @ [digit_char (n mod 10)])"

declare decimal.simps [simp del]

definition parse_digits :: "string \<Rightarrow> nat" where
  "parse_digits s = fold (\<lambda>c n. n * 10 + digit_value c) s 0"

definition to_string_int :: "int \<Rightarrow> string" where
  "to_string_int i = (if i < 0 then CHR ''-'' # decimal (nat (- i)) else decimal (nat i))"

text \<open>The sign and the digits after it; the value is 0 if there are none.\<close>

definition read_number :: "string \<Rightarrow> bool \<times> nat" where
  "read_number s =
     (case dropWhile isspace s of
        [] \<Rightarrow> (False, 0)
      | c # r \<Rightarrow>
          if c = CHR ''-'' then (True, parse_digits (takeWhile is_digit r))
          else if c = CHR ''+'' then (False, parse_digits (takeWhile is_digit r))
          else (False, parse_digits (takeWhile is_digit (c # r))))"

text \<open>\<open>strtoll\<close> and \<open>strtoull\<close> saturate; \<open>strtoull\<close> negates modulo the range.\<close>

definition strtoll :: "string \<Rightarrow> int" where
  "strtoll s = (case read_number s of (neg, n) \<Rightarrow>
     if neg then max (- (2 ^ 63)) (- int n) else min (2 ^ 63 - 1) (int n))"

definition strtoull :: "string \<Rightarrow> int" where
  "strtoull s = (case read_number s of (neg, n) \<Rightarrow>
     if int n \<ge> 2 ^ 64 then 2 ^ 64 - 1 else if neg then (- int n) mod 2 ^ 64 else int n)"

section \<open>Booleans\<close>

definition marshal_bool :: "bool \<Rightarrow> string" where
  "marshal_bool b = (if b then ''true'' else ''false'')"

definition unmarshal_bool :: "string \<Rightarrow> bool result" where
  "unmarshal_bool s =
     (if s = ''true'' then Inr True
      else if s = ''false'' then Inr False
      else Inl (invalid_argument ''Boolean unmarshaller expects true or false keyword''))"

section \<open>Integral types\<close>

text \<open>\<open>integral_converter\<close>: the \<open>static_cast\<close> keeps the low bits.\<close>

definition convert_signed :: "string \<Rightarrow> 'w::len word" where
  "convert_signed s = word_of_int (strtoll s)"

definition convert_unsigned :: "string \<Rightarrow> 'w::len word result" where
  "convert_unsigned s =
     (let p = dropWhile isspace s in
      if p \<noteq> [] \<and> hd p = CHR ''-'' then
        Inl (range_error ''Underflow error, attempted to set a signed value in an unsigned field'')
      else Inr (word_of_int (strtoull p)))"

definition overflow_error :: aw_error where
  "overflow_error = range_error ''Overflow error, value is outside the range representable by this type.''"

definition marshal_signed :: "'w::len word \<Rightarrow> string" where
  "marshal_signed v = to_string_int (sint v)"

definition marshal_unsigned :: "'w::len word \<Rightarrow> string" where
  "marshal_unsigned v = to_string_int (uint v)"

text \<open>The range check compares the converted value, which already has the type of the field.\<close>

definition unmarshal_signed :: "string \<Rightarrow> 'w::len word result" where
  "unmarshal_signed s =
     (let value = convert_signed s :: 'w word in
      if sint value > 2 ^ (LENGTH('w) - 1) - 1 \<or> sint value < - (2 ^ (LENGTH('w) - 1)) then Inl overflow_error
      else Inr value)"

definition unmarshal_unsigned :: "string \<Rightarrow> 'w::len word result" where
  "unmarshal_unsigned s =
     bindR (convert_unsigned s :: 'w word result) (\<lambda>value.
       if uint value > 2 ^ LENGTH('w) - 1 \<or> uint value < 0 then Inl overflow_error else Inr value)"

section \<open>Strings\<close>

text \<open>\<open>unmarshal\<close> takes a C string, which ends at the first null character.\<close>

definition marshal_string :: "string \<Rightarrow> string" where
  "marshal_string s = s"

definition c_str :: "string \<Rightarrow> string" where
  "c_str s = takeWhile (\<lambda>c. c \<noteq> CHR 0x00) s"

definition unmarshal_string :: "string \<Rightarrow> string result" where
  "unmarshal_string s = Inr (c_str s)"

section \<open>Printing and parsing\<close>

lemma digit_roundtrip: "d < 10 \<Longrightarrow> is_digit (digit_char d) \<and> digit_value (digit_char d) = d \<and> \<not> isspace (digit_char d)"
  by (simp add: is_digit_def digit_char_def digit_value_def isspace_def of_char_of)

lemma parse_digits_snoc: "parse_digits (s @ [c]) = parse_digits s * 10 + digit_value c"
  by (simp add: parse_digits_def)

lemma parse_decimal: "parse_digits (decimal n) = n \<and> (\<forall>c \<in> set (decimal n). is_digit c)"
proof (induction n rule: decimal.induct)
  case (1 n)
  show ?case
  proof (cases "n < 10")
    case True
    then show ?thesis using digit_roundtrip [of n] by (simp add: decimal.simps [of n] parse_digits_def)
  next
    case False
    then show ?thesis using 1 digit_roundtrip [of "n mod 10"] by (simp add: decimal.simps [of n] parse_digits_snoc)
  qed
qed

lemma decimal_Cons: "\<exists>c r. decimal n = c # r \<and> is_digit c"
proof -
  have "decimal n \<noteq> []" by (simp add: decimal.simps [of n])
  then show ?thesis using parse_decimal [of n] by (cases "decimal n") auto
qed

lemma is_digit_plain: "is_digit c \<Longrightarrow> \<not> isspace c \<and> c \<noteq> CHR ''-'' \<and> c \<noteq> CHR ''+''"
  by (auto simp: is_digit_def isspace_def)

lemma takeWhile_decimal: "takeWhile is_digit (decimal n) = decimal n"
  using parse_decimal [of n] by simp

lemma read_to_string: "read_number (to_string_int i) = (i < 0, nat \<bar>i\<bar>)"
proof (cases "i < 0")
  case True
  have "\<not> isspace CHR ''-''" by (simp add: isspace_def)
  then show ?thesis using True parse_decimal [of "nat (- i)"] by (simp add: read_number_def to_string_int_def takeWhile_decimal)
next
  case False
  obtain c r where c: "decimal (nat i) = c # r" "is_digit c" using decimal_Cons by blast
  then have "\<forall>x \<in> set r. is_digit x" using parse_decimal [of "nat i"] by simp
  then have "takeWhile is_digit r = r" by (simp only: takeWhile_eq_all_conv)
  moreover have "parse_digits (c # r) = nat i" using c parse_decimal [of "nat i"] by simp
  ultimately have "parse_digits (takeWhile is_digit (c # r)) = nat i" using c(2) by (simp del: takeWhile_eq_all_conv)
  then show ?thesis using False c is_digit_plain [OF c(2)]
    by (simp add: read_number_def to_string_int_def del: takeWhile_eq_all_conv takeWhile.simps)
qed

lemma strtoll_to_string: "- (2 ^ 63) \<le> i \<Longrightarrow> i < 2 ^ 63 \<Longrightarrow> strtoll (to_string_int i) = i"
  by (auto simp: strtoll_def read_to_string)

lemma strtoull_to_string: "0 \<le> i \<Longrightarrow> i < 2 ^ 64 \<Longrightarrow> strtoull (to_string_int i) = i"
  by (auto simp: strtoull_def read_to_string)

lemma range_check_dead:
  fixes v :: "'w::len word"
  shows "\<not> (sint v > 2 ^ (LENGTH('w) - 1) - 1 \<or> sint v < - (2 ^ (LENGTH('w) - 1)))" "\<not> (uint v > 2 ^ LENGTH('w) - 1 \<or> uint v < 0)"
proof -
  show "\<not> (sint v > 2 ^ (LENGTH('w) - 1) - 1 \<or> sint v < - (2 ^ (LENGTH('w) - 1)))"
    using sint_lt [of v] sint_ge [of v] by linarith
  have "uint v < 2 ^ LENGTH('w)" by (rule uint_lt2p)
  then show "\<not> (uint v > 2 ^ LENGTH('w) - 1 \<or> uint v < 0)" using uint_nonnegative [of v] by linarith
qed

section \<open>The contract of a marshaller\<close>

text \<open>What \<open>marshaller_base\<close> promises to the configuration system: \<open>unmarshal\<close> reads back what \<open>marshal\<close> writes.\<close>

locale marshalling =
  fixes marshal :: "'v \<Rightarrow> string" and unmarshal :: "string \<Rightarrow> 'v result"
  assumes unmarshal_marshal: "unmarshal (marshal v) = Inr v"
begin

lemma marshal_eq_iff: "marshal v = marshal w \<longleftrightarrow> v = w"
  using unmarshal_marshal by (metis sum.inject(2))

end

lemma signed_marshalling:
  assumes "LENGTH('w::len) \<le> 64"
  shows "marshalling (marshal_signed :: 'w word \<Rightarrow> string) unmarshal_signed"
proof
  fix v :: "'w word"
  have "(2::int) ^ (LENGTH('w) - 1) \<le> 2 ^ 63" using assms by (intro power_increasing) auto
  then have "strtoll (marshal_signed v) = sint v"
    using sint_lt [of v] sint_ge [of v] unfolding marshal_signed_def by (intro strtoll_to_string) auto
  then show "unmarshal_signed (marshal_signed v) = Inr v"
    using range_check_dead(1) [of v] by (simp add: unmarshal_signed_def convert_signed_def Let_def)
qed

lemma unsigned_marshalling:
  assumes "LENGTH('w::len) \<le> 64"
  shows "marshalling (marshal_unsigned :: 'w word \<Rightarrow> string) unmarshal_unsigned"
proof
  fix v :: "'w word"
  have "(2::int) ^ LENGTH('w) \<le> 2 ^ 64" using assms by (intro power_increasing) auto
  with uint_lt2p [of v] have "uint v < 2 ^ 64" by (rule order_less_le_trans)
  then have "strtoull (marshal_unsigned v) = uint v"
    unfolding marshal_unsigned_def by (intro strtoull_to_string) simp_all
  moreover obtain c r where c: "marshal_unsigned v = c # r" "is_digit c"
    using decimal_Cons [of "nat (uint v)"] by (auto simp: marshal_unsigned_def to_string_int_def)
  then have "dropWhile isspace (marshal_unsigned v) = marshal_unsigned v" "hd (marshal_unsigned v) \<noteq> CHR ''-''"
    using is_digit_plain [OF c(2)] by simp_all
  ultimately show "unmarshal_unsigned (marshal_unsigned v) = Inr v"
    using range_check_dead(2) [of v] by (simp add: unmarshal_unsigned_def convert_unsigned_def Let_def)
qed

interpretation bool_m: marshalling marshal_bool unmarshal_bool
  by unfold_locales (simp add: marshal_bool_def unmarshal_bool_def)

interpretation int32_m: marshalling "marshal_signed :: 32 word \<Rightarrow> string" unmarshal_signed
  by (rule signed_marshalling) simp

interpretation uint64_m: marshalling "marshal_unsigned :: 64 word \<Rightarrow> string" unmarshal_unsigned
  by (rule unsigned_marshalling) simp

text \<open>
  C39.  Round trips: every boolean, every value of a signed or unsigned integral type of at most 64 bits, and
  every string without null characters is read back from what it is written as.
\<close>

theorem marshal_roundtrip:
  fixes v :: "'w::len word"
  assumes "LENGTH('w) \<le> 64" "CHR 0x00 \<notin> set s"
  shows "unmarshal_bool (marshal_bool b) = Inr b \<and> unmarshal_signed (marshal_signed v) = Inr v \<and>
    unmarshal_unsigned (marshal_unsigned v) = Inr v \<and> unmarshal_string (marshal_string s) = Inr s"
proof -
  have "takeWhile (\<lambda>c. c \<noteq> CHR 0x00) s = s" using assms(2) by (induction s) auto
  then show ?thesis
    using bool_m.unmarshal_marshal marshalling.unmarshal_marshal [OF signed_marshalling [OF assms(1)]]
      marshalling.unmarshal_marshal [OF unsigned_marshalling [OF assms(1)]]
    by (simp add: unmarshal_string_def marshal_string_def c_str_def)
qed

theorem marshal_roundtrip_witness:
  "unmarshal_signed (marshal_signed (- 100 :: 8 word)) = Inr (- 100 :: 8 word) \<and>
   unmarshal_string (marshal_string ''abc'') = Inr ''abc''"
  using marshal_roundtrip [of "''abc''" True "- 100 :: 8 word"] by simp


end
