(* ===== verification/Config_Manager_Props.thy ===== *)
theory Config_Manager_Props
  imports Config_Manager_Steps Marshaller
begin

text \<open>
  Properties of the configuration managers in every state that the operations reach: managers report the
  nearest override, registered fields hold the reported values, and watchers are told of every piece of
  metadata once.  Without the condition on unmarshallers an exception cuts a change short or leaves an
  entry locked.
\<close>

section \<open>Reachable states\<close>

definition no_managers :: "'v ConfigSystem" where
  "no_managers = \<lparr>managers = (\<lambda>_. manager_new [] None), manager_count = 0, cells = Map.empty\<rparr>"

text \<open>\<open>ok n\<close> are the texts that are acceptable for the name \<open>n\<close>: what is set is acceptable, and registered fields accept it.\<close>

inductive config_reach :: "(string \<Rightarrow> string \<Rightarrow> bool) \<Rightarrow> 'v ConfigSystem \<Rightarrow> bool" for ok where
  reach_none: "config_reach ok no_managers"
| reach_new: "config_reach ok st \<Longrightarrow> (\<And>p. q = Some p \<Longrightarrow> p < manager_count st) \<Longrightarrow> config_reach ok (add_manager fs q st)"
| reach_set: "config_reach ok st \<Longrightarrow> m < manager_count st \<Longrightarrow> ok n v \<Longrightarrow> ConfigSet m n v st = Some st' \<Longrightarrow> config_reach ok st'"
| reach_register: "config_reach ok st \<Longrightarrow> m < manager_count st \<Longrightarrow> \<forall>fd \<in> set fds. field_ok ok st m fd \<Longrightarrow> distinct (map pField fds) \<Longrightarrow>
    Register m fds st = Some (st', r) \<Longrightarrow> config_reach ok st'"
| reach_when: "config_reach ok st \<Longrightarrow> m < manager_count st \<Longrightarrow> config_reach ok (WhenInternal m i w st)"
| reach_clear: "config_reach ok st \<Longrightarrow> m < manager_count st \<Longrightarrow> config_reach ok (ConfigClear m st)"

lemma no_managers_inv: "cfg_inv ok (no_managers :: 'v ConfigSystem) \<and> fresh_slots (no_managers :: 'v ConfigSystem) \<and> pending_calls [] (managers (no_managers :: 'v ConfigSystem) m)"
proof -
  have "entry_of (no_managers :: 'v ConfigSystem) m n = entry_new" "find_entry (no_managers :: 'v ConfigSystem) m n = None" "m_pParent (managers (no_managers :: 'v ConfigSystem) m) = None" for m n
    by (simp_all add: no_managers_def entry_of_def find_entry_def manager_new_def)
  moreover have "pending_calls [] (managers (no_managers :: 'v ConfigSystem) m)"
    by (simp add: pending_calls_def told_pairs_def no_managers_def manager_new_def)
  ultimately show ?thesis
    by (simp add: cfg_inv_def cfg_core_def cfg_sync_def fresh_slots_def entry_new_def)
qed

lemma config_reach_inv:
  assumes "config_reach ok st"
  shows "cfg_inv ok st \<and> fresh_slots st \<and> (\<forall>m. pending_calls [] (managers st m))"
  using assms
proof (induction rule: config_reach.induct)
  case reach_none
  then show ?case using no_managers_inv by blast
next
  case (reach_new st q fs)
  have "pending_calls [] (managers (add_manager fs q st) k)" for k
    using reach_new.IH by (simp add: add_manager_def pending_calls_def told_pairs_def manager_new_def)
  then show ?case using add_manager_inv [of ok st q] reach_new by blast
next
  case (reach_set st m n v st')
  have inv: "cfg_inv ok st" using reach_set.IH by blast
  from ConfigSet_inv [where ok = ok, OF inv reach_set(3), where m = m] reach_set(4)
  have s: "cfg_inv ok st'" "manager_count st' = manager_count st" "\<And>k. m_pParent (managers st' k) = m_pParent (managers st k)"
      "\<And>k. metadata_state (managers st' k) = metadata_state (managers st k)"
      "\<And>k j. find_entry st' k j = None \<longleftrightarrow> find_entry st k j = None \<and> \<not> (k = m \<and> j = n)"
    by simp_all
  then show ?case
    using reach_set.IH reach_set(2) by (simp add: fresh_slots_def pending_calls_cong [OF s(4)])
next
  case (reach_register st m fds st' r)
  from register_fields_inv [OF _ reach_register(3,4), of "[]"] reach_register obtain st2
    where s: "Register m fds st = Some (st2, Inr ())" "cfg_inv ok st2" "overrides_ext st st2" "manager_count st2 = manager_count st"
      "pending_calls [] (managers st2 m)" "\<forall>k. k \<noteq> m \<longrightarrow> metadata_state (managers st2 k) = metadata_state (managers st k)"
      "\<forall>k j. m < k \<longrightarrow> (find_entry st2 k j = None) = (find_entry st k j = None)"
    unfolding Register_def by blast
  have "pending_calls [] (managers st2 k)" for k using s(5,6) reach_register.IH pending_calls_cong [of "managers st2 k" "managers st k"] by (cases "k = m") auto
  moreover have "fresh_slots st2"
    using reach_register.IH reach_register(2) s(3,4,7) by (simp add: fresh_slots_def overrides_ext_def)
  ultimately show ?case using s(1,2) reach_register(5) by simp
next
  case (reach_when st m i w)
  have w: "cfg_inv ok (WhenInternal m i w st) \<and> pending_calls [] (managers (WhenInternal m i w st) m)"
    using WhenInternal_inv reach_when.IH by blast
  have "fresh_slots (WhenInternal m i w st)" "k \<noteq> m \<Longrightarrow> managers (WhenInternal m i w st) k = managers st k" for k
    using reach_when.IH by (simp_all add: fresh_slots_def WhenInternal_def with_manager_def find_entry_def call_watchers_def)
  with w reach_when.IH show ?case by (metis)
next
  case (reach_clear st m)
  then have inv: "cfg_inv ok st" by blast
  have "fresh_slots (ConfigClear m st)" using reach_clear.IH by (simp add: fresh_slots_def ConfigClear_entries [OF inv])
  then show ?case
    using reach_clear.IH ConfigClear_inv [OF inv] by (simp add: pending_calls_cong [OF ConfigClear_entries(9) [OF inv]])
qed

lemmas config_reach_invD = config_reach_inv [THEN conjunct1]

text \<open>
  C11.  In every reachable state, every manager reports, for every name, the value of the nearest override on the
  way to the root, and every registered field holds the reported value of its manager, unmarshalled.
\<close>

theorem config_in_sync:
  assumes "config_reach ok st"
  shows "(\<exists>s. ConfigGet st m n = Some s \<and> configured st m n s) \<and>
    (\<forall>um f. handles st m n (FieldHandler um f) \<longrightarrow>
       (\<exists>s v. ConfigGet st m n = Some s \<and> um s = Inr v \<and> cells st f = Some v))"
proof -
  note inv = config_reach_invD [OF assms]
  have "\<exists>s v. ConfigGet st m n = Some s \<and> um s = Inr v \<and> cells st f = Some v" if h: "handles st m n (FieldHandler um f)" for um f
  proof -
    have "find_entry st m n \<noteq> None" using h by (cases "find_entry st m n") (simp_all add: entry_of_def entry_new_def)
    then show ?thesis using ConfigGet_entry [OF inv] cfg_syncD [OF inv h] by (simp add: synced_def)
  qed
  then show ?thesis using ConfigGet_configured [OF inv, of m n] by blast
qed

lemma Register_inv:
  assumes "cfg_inv ok st" "\<forall>m. pending_calls [] (managers st m)" "\<forall>fd \<in> set fds. field_ok ok st m fd" "distinct (map pField fds)"
  shows "\<exists>st'. Register m fds st = Some (st', Inr ()) \<and> cfg_inv ok st' \<and> overrides_ext st st' \<and>
    (\<forall>fd \<in> set fds. handles st' m (fname fd) (FieldHandler (funmarshal fd) (pField fd)))"
  using register_fields_inv [OF assms(1,3,4)] assms(2) unfolding Register_def by blast

text \<open>A manager with one boolean field, for examples.\<close>

definition demo_ok :: "string \<Rightarrow> string \<Rightarrow> bool" where
  "demo_ok n s \<longleftrightarrow> s \<in> {''true'', ''false''}"

definition demo_field :: "bool config_field" where
  "demo_field = \<lparr>fname = ''flag'', pField = 7, funmarshal = unmarshal_bool, fmetadata = [3]\<rparr>"

definition demo_root :: "bool ConfigSystem" where
  "demo_root = add_manager [(''flag'', Some ''true'')] None no_managers"

lemma demo_root_facts:
  "config_reach demo_ok demo_root" "manager_count demo_root = Suc 0" "ConfigGet demo_root 0 ''flag'' = Some ''true''"
  "field_ok demo_ok demo_root 0 demo_field"
proof -
  show r: "config_reach demo_ok demo_root" unfolding demo_root_def by (intro reach_new reach_none) simp
  show "manager_count demo_root = Suc 0" by (simp add: demo_root_def add_manager_def no_managers_def)
  have e: "find_entry demo_root k j = (if k = 0 \<and> j = ''flag'' then Some (entry_new\<lparr>evalue := ''true''\<rparr>) else None)" for k j
    by (simp add: demo_root_def add_manager_def no_managers_def find_entry_def manager_new_def)
  then show g: "ConfigGet demo_root 0 ''flag'' = Some ''true''"
    by (simp add: ConfigGet.simps [of demo_root] entry_new_def)
  have "\<not> handles demo_root k j h" for k j h using e [of k j] by (simp add: entry_of_def entry_new_def)
  then show "field_ok demo_ok demo_root 0 demo_field"
    using g by (auto simp: field_ok_def demo_field_def demo_ok_def unmarshal_bool_def)
qed

lemma demo_registered:
  "\<exists>st. Register 0 [demo_field] demo_root = Some (st, Inr ()) \<and> config_reach demo_ok st \<and>
     ConfigGet st 0 ''flag'' = Some ''true'' \<and> handles st 0 ''flag'' (FieldHandler unmarshal_bool 7)"
proof -
  note r = config_reach_inv [OF demo_root_facts(1)]
  obtain st where st: "Register 0 [demo_field] demo_root = Some (st, Inr ())" "cfg_inv demo_ok st" "overrides_ext demo_root st"
      "handles st 0 ''flag'' (FieldHandler unmarshal_bool 7)"
    using Register_inv [of demo_ok demo_root "[demo_field]" 0] r demo_root_facts(4) by (auto simp: demo_field_def)
  moreover have "config_reach demo_ok st"
    using reach_register [OF demo_root_facts(1), of 0 "[demo_field]"] demo_root_facts(2,4) st(1) by simp
  moreover have "ConfigGet st 0 ''flag'' = Some ''true''" using ConfigGet_ext [OF _ st(2,3)] r demo_root_facts(3) by simp
  ultimately show ?thesis by blast
qed

theorem config_in_sync_witness:
  "\<exists>st. Register 0 [demo_field] demo_root = Some (st, Inr ()) \<and> cells st 7 = Some True"
proof -
  obtain st where st: "Register 0 [demo_field] demo_root = Some (st, Inr ())" "config_reach demo_ok st"
      "ConfigGet st 0 ''flag'' = Some ''true''" "handles st 0 ''flag'' (FieldHandler unmarshal_bool 7)"
    using demo_registered by blast
  have "\<exists>s v. ConfigGet st 0 ''flag'' = Some s \<and> unmarshal_bool s = Inr v \<and> cells st 7 = Some v"
    using config_in_sync [OF st(2), of 0 "''flag''"] st(4) by blast
  then show ?thesis using st(1,3) by (auto simp: unmarshal_bool_def)
qed

section \<open>Set and Register against overrides\<close>

text \<open>
  C12.  In a reachable state \<open>Set\<close> returns, and refines an update of the overrides: the manager overrides the
  name with the value and reports it, and nothing else of the overrides or the tree changes.
  \<open>Register\<close> returns without an exception and attaches the fields, and no manager reports another
  value for any name than before.
\<close>

theorem config_operations_refine:
  assumes "config_reach ok st" "ok n v" "\<forall>fd \<in> set fds. field_ok ok st m fd" "distinct (map pField fds)"
  shows "(\<exists>st'. ConfigSet m n v st = Some st' \<and> overrides st' = (overrides st)(m := (overrides st m)(n \<mapsto> v)) \<and>
      ConfigGet st' m n = Some v \<and> (\<forall>k. m_pParent (managers st' k) = m_pParent (managers st k))) \<and>
    (\<exists>st'. Register m fds st = Some (st', Inr ()) \<and> (\<forall>k j. ConfigGet st' k j = ConfigGet st k j) \<and>
      (\<forall>fd \<in> set fds. handles st' m (fname fd) (FieldHandler (funmarshal fd) (pField fd))))"
proof (intro conjI)
  note r = config_reach_inv [OF assms(1)]
  then have inv: "cfg_inv ok st" by blast
  obtain st' where st': "ConfigSet m n v st = Some st'" "cfg_inv ok st'" "\<forall>k. m_pParent (managers st' k) = m_pParent (managers st k)"
      "\<forall>k j. overrides st' k j = (if k = m \<and> j = n then Some v else overrides st k j)"
    using ConfigSet_inv [where ok = ok, OF inv assms(2), of m] by blast
  have "configured st' m n v" using st'(4) by (intro configured_here) simp
  then have "ConfigGet st' m n = Some v" using ConfigGet_iff [OF st'(2)] by simp
  moreover have "overrides st' = (overrides st)(m := (overrides st m)(n \<mapsto> v))" using st'(4) by (auto simp: fun_eq_iff)
  ultimately show "\<exists>st'. ConfigSet m n v st = Some st' \<and> overrides st' = (overrides st)(m := (overrides st m)(n \<mapsto> v)) \<and>
      ConfigGet st' m n = Some v \<and> (\<forall>k. m_pParent (managers st' k) = m_pParent (managers st k))"
    using st'(1,3) by blast
  show "\<exists>st'. Register m fds st = Some (st', Inr ()) \<and> (\<forall>k j. ConfigGet st' k j = ConfigGet st k j) \<and>
      (\<forall>fd \<in> set fds. handles st' m (fname fd) (FieldHandler (funmarshal fd) (pField fd)))"
    using Register_inv [OF inv _ assms(3,4)] r ConfigGet_ext [OF inv] by blast
qed

theorem config_operations_refine_witness:
  "(\<exists>st'. ConfigSet 0 ''flag'' ''false'' demo_root = Some st' \<and> ConfigGet st' 0 ''flag'' = Some ''false'') \<and>
   (\<exists>st'. Register 0 [demo_field] demo_root = Some (st', Inr ()) \<and> ConfigGet st' 0 ''flag'' = Some ''true'')"
  using config_operations_refine [OF demo_root_facts(1), of "''flag''" "''false''" "[demo_field]" 0] demo_root_facts(3,4)
  by (auto simp: demo_ok_def)

text \<open>
  C31.  In every reachable state, each watcher of a manager has been called exactly once for each piece of metadata
  with its identifier that was registered with the manager, whichever of the two came first.
\<close>

theorem watchers_told_once:
  assumes "config_reach ok st"
  shows "mset (metadata_calls (managers st m)) =
    mset [(w, ev). (i, w) \<leftarrow> watchers (managers st m), (i', ev) \<leftarrow> metadata_collection (managers st m), i' = i]"
proof -
  have "map (Pair w) (matching i ms) = [(w, ev). (i', ev) \<leftarrow> ms, i' = i]" for w i :: nat and ms :: "(nat \<times> config_event) list"
    by (induction ms) (auto simp: matching_def)
  moreover have "pending_calls [] (managers st m)" using config_reach_inv [OF assms] by blast
  ultimately show ?thesis by (simp add: pending_calls_def told_pairs_def)
qed

lemma demo_watched:
  "\<exists>st. Register 0 [demo_field] (WhenInternal 0 3 21 demo_root) = Some (st, Inr ()) \<and>
     watchers (managers st 0) = [(3, 21)] \<and> metadata_collection (managers st 0) = [(3, 7, 3)]"
  by (simp add: Register_def GetEntry.simps [of 0] attach_field_def WhenInternal_def with_manager_def call_watchers_def
    find_entry_def entry_of_def put_entry_def set_cell_def matching_def entry_new_def unmarshal_bool_def Let_def
    demo_root_def demo_field_def add_manager_def manager_new_def no_managers_def)

theorem watchers_told_once_witness:
  "\<exists>st. Register 0 [demo_field] (WhenInternal 0 3 21 demo_root) = Some (st, Inr ()) \<and>
     metadata_calls (managers st 0) = [(21, 7, 3)]"
proof -
  let ?w = "WhenInternal 0 3 21 demo_root"
  have r: "config_reach demo_ok ?w" using reach_when [OF demo_root_facts(1)] demo_root_facts(2) by simp
  have f: "field_ok demo_ok ?w 0 demo_field"
    using demo_root_facts(4) WhenInternal_inv [OF config_reach_invD [OF demo_root_facts(1)], of 0 3 21]
      config_reach_inv [OF demo_root_facts(1)] ConfigGet_ext [OF config_reach_invD [OF demo_root_facts(1)], of ?w]
    by (simp add: field_ok_def)
  obtain st where st: "Register 0 [demo_field] ?w = Some (st, Inr ())" "watchers (managers st 0) = [(3, 21)]"
      "metadata_collection (managers st 0) = [(3, 7, 3)]"
    using demo_watched by blast
  have "config_reach demo_ok st" using reach_register [OF r _ _ _ st(1)] f demo_root_facts(2) by (simp add: WhenInternal_def with_manager_def)
  from watchers_told_once [OF this, of 0] have "mset (metadata_calls (managers st 0)) = {# (21, 7, 3) #}" by (simp add: st(2,3))
  then show ?thesis using st(1) by simp
qed

section \<open>From typed values to fields\<close>

text \<open>The managers that inherit a name from \<open>m\<close>: no override on the way from them to \<open>m\<close>.\<close>

inductive inherits :: "'v ConfigSystem \<Rightarrow> nat \<Rightarrow> string \<Rightarrow> nat \<Rightarrow> bool" for st m n where
  inherits_self: "inherits st m n m"
| inherits_child: "overrides st k n = None \<Longrightarrow> m_pParent (managers st k) = Some p \<Longrightarrow> inherits st m n p \<Longrightarrow> inherits st m n k"

lemma inherits_configured:
  assumes "inherits st m n k" "\<forall>k j. overrides st' k j = (if k = m \<and> j = n then Some v else overrides st k j)"
    "\<forall>k. m_pParent (managers st' k) = m_pParent (managers st k)"
  shows "configured st' k n v"
  using assms(1)
proof (induction rule: inherits.induct)
  case inherits_self
  then show ?case using assms(2) by (intro configured_here) simp
next
  case (inherits_child k p)
  then show ?case using assms(2,3) by (cases "k = m") (auto intro: configured_here configured_above)
qed

lemma ConfigSet_reaches_field:
  assumes "config_reach ok st" "ok n s" "handles st k n (FieldHandler um f)" "inherits st m n k" "um s = Inr v"
  shows "\<exists>st'. ConfigSet m n s st = Some st' \<and> cells st' f = Some v"
proof -
  note inv = config_reach_invD [OF assms(1)]
  obtain st' where st': "ConfigSet m n s st = Some st'" "cfg_inv ok st'" "\<forall>k. m_pParent (managers st' k) = m_pParent (managers st k)"
      "\<forall>k j. onChanged (entry_of st' k j) = onChanged (entry_of (reg_clear m n st) k j)"
      "\<forall>k j. overrides st' k j = (if k = m \<and> j = n then Some s else overrides st k j)"
    using ConfigSet_inv [where ok = ok, OF inv assms(2), of m] by blast
  have h: "handles st' k n (FieldHandler um f)" using st'(4) assms(3) reg_clear_entries(1) [OF inv] by simp
  then have "find_entry st' k n \<noteq> None" by (cases "find_entry st' k n") (simp_all add: entry_of_def entry_new_def)
  from ConfigGet_entry [OF st'(2) this] have "evalue (entry_of st' k n) = s"
    using inherits_configured [OF assms(4) st'(5,3)] unfolding ConfigGet_iff [OF st'(2), symmetric] by simp
  then show ?thesis using cfg_syncD [OF st'(2) h] assms(5) st'(1) by (simp add: synced_def)
qed

context marshalling
begin

lemma ConfigSet_typed:
  assumes "config_reach ok st" "ok n (marshal v)" "handles st k n (FieldHandler unmarshal f)" "inherits st m n k"
  shows "\<exists>st'. ConfigSet m n (marshal v) st = Some st' \<and> cells st' f = Some v"
  using ConfigSet_reaches_field [OF assms(1,2,3,4) unmarshal_marshal] .

end

text \<open>
  A typed value reaches the fields: in a reachable state, setting a name to the text of an integer of at most 64
  bits stores that integer in every signed field of the name that is registered with the manager or with
  one that inherits the name from it.
\<close>

lemma Set_reaches_integer_fields:
  fixes v :: "'w::len word"
  assumes "LENGTH('w) \<le> 64" "config_reach ok st" "ok n (marshal_signed v)"
    "handles st k n (FieldHandler unmarshal_signed f)" "inherits st m n k"
  shows "\<exists>st'. ConfigSet m n (marshal_signed v) st = Some st' \<and> cells st' f = Some v"
  by (rule marshalling.ConfigSet_typed [OF signed_marshalling [OF assms(1)] assms(2-5)])

text \<open>A root and a child, with an integer field in the child.\<close>

definition demo_tree :: "32 word ConfigSystem" where
  "demo_tree = add_manager [] (Some 0) (add_manager [] None no_managers)"

definition demo_int :: "32 word config_field" where
  "demo_int = \<lparr>fname = ''size'', pField = 9, funmarshal = unmarshal_signed, fmetadata = []\<rparr>"

lemma demo_tree_registered:
  "\<exists>st. Register 1 [demo_int] demo_tree = Some (st, Inr ()) \<and> config_reach (\<lambda>_ _. True) st \<and>
     handles st 1 ''size'' (FieldHandler unmarshal_signed 9) \<and> inherits st 0 ''size'' 1"
proof -
  have r: "config_reach (\<lambda>_ _. True) demo_tree"
    unfolding demo_tree_def by (intro reach_new reach_none) (simp_all add: add_manager_def)
  have e: "find_entry demo_tree k j = None" "m_pParent (managers demo_tree 1) = Some 0" "manager_count demo_tree = 2" for k j
    by (simp_all add: demo_tree_def add_manager_def no_managers_def find_entry_def manager_new_def)
  have "\<exists>v. unmarshal_signed s = Inr (v :: 32 word)" for s
    using range_check_dead(1) [of "convert_signed s :: 32 word"] by (simp add: unmarshal_signed_def Let_def)
  then have f: "field_ok (\<lambda>_ _. True) demo_tree 1 demo_int"
    using e(1) by (simp add: field_ok_def demo_int_def entry_of_def entry_new_def)
  obtain st where st: "Register 1 [demo_int] demo_tree = Some (st, Inr ())" "overrides_ext demo_tree st"
      "handles st 1 ''size'' (FieldHandler unmarshal_signed 9)"
    using Register_inv [OF config_reach_invD [OF r], of "[demo_int]" 1] config_reach_inv [OF r] f by (auto simp: demo_int_def)
  have "config_reach (\<lambda>_ _. True) st" using reach_register [OF r _ _ _ st(1)] f e(3) by simp
  moreover have "overrides st 1 ''size'' = None" "m_pParent (managers st 1) = Some 0"
    using st(2) e(2) e(1) [of 1 "''size''"] by (simp_all add: overrides_ext_def) (metis option.distinct(1) overrides_def)
  then have "inherits st 0 ''size'' 1" by (blast intro: inherits_child inherits_self)
  ultimately show ?thesis using st(1,3) by blast
qed

lemma Set_reaches_integer_fields_witness:
  "\<exists>st st'. Register 1 [demo_int] demo_tree = Some (st, Inr ()) \<and>
     ConfigSet 0 ''size'' (marshal_signed (- 5 :: 32 word)) st = Some st' \<and> cells st' 9 = Some (- 5)"
proof -
  obtain st where st: "Register 1 [demo_int] demo_tree = Some (st, Inr ())" "config_reach (\<lambda>_ _. True) st"
      "handles st 1 ''size'' (FieldHandler unmarshal_signed 9)" "inherits st 0 ''size'' 1"
    using demo_tree_registered by blast
  then show ?thesis using Set_reaches_integer_fields [OF _ st(2) _ st(3,4), of "- 5 :: 32 word"] by auto
qed

section \<open>Exceptions of unmarshallers\<close>

text \<open>
  If the first handler of an entry is a field whose unmarshaller throws, \<open>Set\<close> stores the new value and calls no
  other handler: no other field is changed, and the entries of the child managers keep the old value
  although they do not override it.
\<close>

lemma throwing_field_stops_change:
  assumes "find_entry st m n = Some e" "reg e = None" "\<not> asserting e" "onChanged e = FieldHandler um f # r" "um v = Inl x"
  shows "\<exists>st'. ConfigSet m n v st = Some st' \<and> find_entry st' m n = Some (e\<lparr>evalue := v\<rparr>) \<and> cells st' = cells st \<and>
    (\<forall>k j. k \<noteq> m \<or> j \<noteq> n \<longrightarrow> find_entry st' k j = find_entry st k j)"
proof -
  have e: "entry_of st m n = e" using assms(1) by (rule entry_of_find)
  have "ConfigSet m n v st = Some (set_value m n v st)"
    using assms e by (simp add: ConfigSet_def ensure_entry_def reg_clear_def change_value_def notify_handlers.simps)
  then show ?thesis using e by auto
qed

lemma throwing_field_stops_change_witness:
  "\<exists>st'. ConfigSet 0 ''flag'' ''maybe'' (put_entry 0 ''flag''
      (entry_new\<lparr>onChanged := [FieldHandler unmarshal_bool 7, FieldHandler (\<lambda>s. Inr True) 8]\<rparr>) no_managers) = Some st' \<and> cells st' 8 = None"
  using throwing_field_stops_change [of "put_entry 0 ''flag'' (entry_new\<lparr>onChanged := [FieldHandler unmarshal_bool 7, FieldHandler (\<lambda>s. Inr True) 8]\<rparr>) no_managers" 0 "''flag''"
    "entry_new\<lparr>onChanged := [FieldHandler unmarshal_bool 7, FieldHandler (\<lambda>s. Inr True) 8]\<rparr>" unmarshal_bool 7 "[FieldHandler (\<lambda>s. Inr True) 8]" "''maybe''"]
  by (auto simp: entry_new_def unmarshal_bool_def no_managers_def)

text \<open>
  If the unmarshaller of a field throws in \<open>Register\<close>, the exception leaves the signal of the entry in its asserting
  state: afterwards \<open>Get\<close> of that name never returns, and \<open>Set\<close> has no effect.
\<close>

lemma throwing_registration_locks_entry:
  assumes "find_entry st m (fname fd) = Some e" "reg e = None" "\<not> asserting e" "funmarshal fd (evalue e) = Inl x"
  shows "\<exists>st'. Register m (fd # fds) st = Some (st', Inl x) \<and> ConfigGet st' m (fname fd) = None \<and>
    ConfigSet m (fname fd) v st' = Some st'"
proof -
  let ?e = "e\<lparr>attached := attached e @ [pField fd], asserting := True\<rparr>"
  let ?st = "put_entry m (fname fd) ?e st"
  have e: "entry_of st m (fname fd) = e" using assms(1) by (rule entry_of_find)
  have "attach_field m fd st = (?st, Inl x)" using assms e by (simp add: attach_field_def Let_def)
  then have "Register m (fd # fds) st = Some (?st, Inl x)"
    using assms(1) by (simp add: Register_def GetEntry.simps [of m])
  moreover have "ConfigGet ?st m (fname fd) = None" by (simp add: ConfigGet.simps [of ?st])
  moreover have "ConfigSet m (fname fd) v ?st = Some ?st"
    using assms(2) by (simp add: ConfigSet_def ensure_entry_def reg_clear_def change_value_def)
  ultimately show ?thesis by blast
qed

lemma throwing_registration_locks_entry_witness:
  "\<exists>st'. Register 0 [demo_field] (put_entry 0 ''flag'' entry_new no_managers) =
      Some (st', Inl (invalid_argument ''Boolean unmarshaller expects true or false keyword'')) \<and> ConfigGet st' 0 ''flag'' = None"
  using throwing_registration_locks_entry [of "put_entry 0 ''flag'' entry_new no_managers" 0 demo_field entry_new
    "invalid_argument ''Boolean unmarshaller expects true or false keyword''" "[]"]
  by (auto simp: entry_new_def unmarshal_bool_def demo_field_def)

section \<open>Double-buffered fields\<close>

lemma config_assign_clear: "config_get (fst (clear_dirty (config_assign v c))) = v \<and> snd (clear_dirty (config_assign v c))"
  by (simp add: config_get_def clear_dirty_def config_assign_def)

lemma config_assign_keeps_active: "config_get (config_assign v c) = config_get c"
  by (simp add: config_get_def config_assign_def)

lemma clear_dirty_again: "\<not> snd (clear_dirty (fst (clear_dirty c))) \<and> fst (clear_dirty (fst (clear_dirty c))) = fst (clear_dirty c)"
  by (simp add: clear_dirty_def)

text \<open>A field that was constructed with a value and never assigned loses it: it starts dirty, so \<open>clear_dirty\<close> makes the other buffer active.\<close>

lemma config_initial_value_lost: "config_get (config_new junk v) = v \<and> config_get (fst (clear_dirty (config_new junk v))) = junk"
  by (simp add: config_get_def clear_dirty_def config_new_def)

end
