(* ===== verification/Object_Pool.thy ===== *)
theory Object_Pool
  imports Prelude
begin

text \<open>
  Object pools (\<open>ObjectPool.h\<close>, \<open>ObjectPoolMonitor.{h,cpp}\<close>): pools and monitors are numbers, pool entries are cells
  at addresses.  A shared pointer that the pool has handed out is an address in \<open>issued\<close>, and \<open>pool_release\<close> is the
  deleter that runs when the last copy of it is destroyed.  The placement constructor and the initializer may
  throw; the finalizer runs in a deleter and may not.  The result \<open>None\<close> is a call that does not return:
  \<open>Wrap\<close> with the lock of the monitor held deadlocks when the initializer throws, since the deleter takes the same lock.
\<close>

section \<open>Data\<close>

record 'v PoolEntry =
  monitor :: nat
  poolVersion :: nat
  obj :: 'v

record 'v ObjectPoolMonitor =
  m_abandoned :: bool
  owner :: nat
  initial :: "'v \<Rightarrow> 'v result"
  fnl :: "'v \<Rightarrow> 'v"

record 'v ObjectPool =
  m_monitor :: "nat option"
  m_poolVersion :: nat
  m_objs :: "addr list"
  m_maxPooled :: nat
  m_limit :: nat
  m_outstanding :: nat
  m_placement :: "addr \<Rightarrow> 'v result"

record 'v PoolSystem =
  pools :: "nat \<Rightarrow> 'v ObjectPool"
  monitors :: "nat \<Rightarrow> 'v ObjectPoolMonitor"
  entries :: "addr \<rightharpoonup> 'v PoolEntry"
  issued :: "addr list"

definition size_max :: nat where
  "size_max = 2 ^ 64 - 1"

definition upd_pool :: "nat \<Rightarrow> ('v ObjectPool \<Rightarrow> 'v ObjectPool) \<Rightarrow> 'v PoolSystem \<Rightarrow> 'v PoolSystem" where
  "upd_pool P g S = S\<lparr>pools := (pools S)(P := g (pools S P))\<rparr>"

definition upd_monitor :: "nat \<Rightarrow> ('v ObjectPoolMonitor \<Rightarrow> 'v ObjectPoolMonitor) \<Rightarrow> 'v PoolSystem \<Rightarrow> 'v PoolSystem" where
  "upd_monitor k g S = S\<lparr>monitors := (monitors S)(k := g (monitors S k))\<rparr>"

definition delete_entry :: "addr \<Rightarrow> 'v PoolSystem \<Rightarrow> 'v PoolSystem" where
  "delete_entry a S = S\<lparr>entries := (entries S)(a := None)\<rparr>"

definition delete_entries :: "addr list \<Rightarrow> 'v PoolSystem \<Rightarrow> 'v PoolSystem" where
  "delete_entries as S = S\<lparr>entries := (\<lambda>a. if a \<in> set as then None else entries S a)\<rparr>"

section \<open>Construction and destruction\<close>

definition pool_new ::
  "nat \<Rightarrow> nat \<Rightarrow> nat \<Rightarrow> nat \<Rightarrow> (addr \<Rightarrow> 'v result) \<Rightarrow> ('v \<Rightarrow> 'v result) \<Rightarrow> ('v \<Rightarrow> 'v) \<Rightarrow> 'v PoolSystem \<Rightarrow> 'v PoolSystem" where
  "pool_new P k limit maxPooled place init final S =
     upd_monitor k (\<lambda>_. \<lparr>m_abandoned = False, owner = P, initial = init, fnl = final\<rparr>)
       (upd_pool P (\<lambda>_. \<lparr>m_monitor = Some k, m_poolVersion = 0, m_objs = [], m_maxPooled = maxPooled,
          m_limit = limit, m_outstanding = 0, m_placement = place\<rparr>) S)"

definition pool_Abandon :: "nat \<Rightarrow> 'v PoolSystem \<Rightarrow> 'v PoolSystem" where
  "pool_Abandon k S = upd_monitor k (\<lambda>m. m\<lparr>m_abandoned := True\<rparr>) S"

definition clear_cached :: "nat \<Rightarrow> 'v PoolSystem \<Rightarrow> 'v PoolSystem" where
  "clear_cached P S =
     upd_pool P (\<lambda>p. p\<lparr>m_objs := [], m_poolVersion := Suc (m_poolVersion p)\<rparr>) (delete_entries (m_objs (pools S P)) S)"

definition ClearCachedEntities :: "nat \<Rightarrow> 'v PoolSystem \<Rightarrow> 'v PoolSystem result" where
  "ClearCachedEntities P S =
     (case m_monitor (pools S P) of None \<Rightarrow> Inl Undefined_behaviour | Some k \<Rightarrow> Inr (clear_cached P S))"

definition pool_destroy :: "nat \<Rightarrow> 'v PoolSystem \<Rightarrow> 'v PoolSystem" where
  "pool_destroy P S = (case m_monitor (pools S P) of None \<Rightarrow> S | Some k \<Rightarrow> clear_cached P (pool_Abandon k S))"

section \<open>Returning an object\<close>

definition dec_size :: "nat \<Rightarrow> nat" where
  "dec_size n = (if n = 0 then size_max else n - 1)"

definition ReturnUnsafe :: "nat \<Rightarrow> addr \<Rightarrow> nat \<Rightarrow> 'v PoolSystem \<Rightarrow> bool \<times> 'v PoolSystem" where
  "ReturnUnsafe P a version S =
     (let S1 = upd_pool P (\<lambda>p. p\<lparr>m_outstanding := dec_size (m_outstanding p)\<rparr>) S in
      if version = m_poolVersion (pools S1 P) \<and> length (m_objs (pools S1 P)) < m_maxPooled (pools S1 P)
      then (True, upd_pool P (\<lambda>p. p\<lparr>m_objs := m_objs p @ [a]\<rparr>) S1)
      else (False, S1))"

text \<open>The deleter of \<open>Wrap\<close>: \<open>Return\<close>, and deletion of the entry if it is not taken back.\<close>

definition return_entry :: "addr \<Rightarrow> 'v PoolSystem \<Rightarrow> 'v PoolSystem" where
  "return_entry a S =
     (case entries S a of
        None \<Rightarrow> S
      | Some e \<Rightarrow>
          let m = monitors S (monitor e);
              S1 = S\<lparr>entries := (entries S)(a \<mapsto> e\<lparr>obj := fnl m (obj e)\<rparr>)\<rparr>
          in if m_abandoned m then delete_entry a S1
             else case ReturnUnsafe (owner m) a (poolVersion e) S1 of
                    (inPool, S2) \<Rightarrow> if inPool then S2 else delete_entry a S2)"

definition pool_release :: "addr \<Rightarrow> 'v PoolSystem \<Rightarrow> 'v PoolSystem" where
  "pool_release a S = return_entry a (S\<lparr>issued := remove1 a (issued S)\<rparr>)"

section \<open>Obtaining an object\<close>

definition issue :: "addr \<Rightarrow> 'v PoolEntry \<Rightarrow> 'v \<Rightarrow> 'v PoolSystem \<Rightarrow> 'v PoolSystem" where
  "issue a e v S = S\<lparr>entries := (entries S)(a \<mapsto> e\<lparr>obj := v\<rparr>), issued := a # issued S\<rparr>"

definition ObtainElementUnsafe ::
  "nat \<Rightarrow> nat \<Rightarrow> addr \<Rightarrow> 'v PoolSystem \<Rightarrow> (ptr result \<times> 'v PoolSystem) option" where
  "ObtainElementUnsafe P k new S =
     (let S1 = upd_pool P (\<lambda>p. p\<lparr>m_outstanding := Suc (m_outstanding p)\<rparr>) S;
          p = pools S1 P;
          init = initial (monitors S1 k) in
      if m_objs p = [] then
        (case m_placement p new of
           Inl x \<Rightarrow> Some (Inl x, S1)
         | Inr v \<Rightarrow>
             let e = \<lparr>monitor = k, poolVersion = m_poolVersion p, obj = v\<rparr>;
                 S2 = S1\<lparr>entries := (entries S1)(new \<mapsto> e)\<rparr>
             in case init v of
                  Inl x \<Rightarrow> Some (Inl x, return_entry new S2)
                | Inr w \<Rightarrow> Some (Inr (Some new), issue new e w S2))
      else
        let a = last (m_objs p) in
        case entries S1 a of
          None \<Rightarrow> Some (Inl Undefined_behaviour, S1)
        | Some e \<Rightarrow>
            (case init (obj e) of
               Inl x \<Rightarrow> None
             | Inr w \<Rightarrow> Some (Inr (Some a), upd_pool P (\<lambda>p. p\<lparr>m_objs := butlast (m_objs p)\<rparr>) (issue a e w S1))))"

definition pool_get :: "nat \<Rightarrow> addr \<Rightarrow> 'v PoolSystem \<Rightarrow> (ptr result \<times> 'v PoolSystem) option" where
  "pool_get P new S =
     (case m_monitor (pools S P) of
        None \<Rightarrow> Some (Inl Undefined_behaviour, S)
      | Some k \<Rightarrow>
          if m_limit (pools S P) \<le> m_outstanding (pools S P) then Some (Inr None, S)
          else ObtainElementUnsafe P k new S)"

text \<open>\<open>others\<close> is what other threads do while the call waits; a timed wait that is not satisfied then gives a null pointer.\<close>

definition WaitFor :: "nat \<Rightarrow> addr \<Rightarrow> ('v PoolSystem \<Rightarrow> 'v PoolSystem) \<Rightarrow> 'v PoolSystem \<Rightarrow> (ptr result \<times> 'v PoolSystem) option" where
  "WaitFor P new others S =
     (case m_monitor (pools S P) of
        None \<Rightarrow> Some (Inl Undefined_behaviour, S)
      | Some k \<Rightarrow>
          if m_limit (pools S P) = 0 then
            Some (Inl (autowiring_error ''Attempted to perform a timed wait on a pool that is already in rundown''), S)
          else
            let S1 = (if m_outstanding (pools S P) < m_limit (pools S P) then S else others S) in
            if m_outstanding (pools S1 P) < m_limit (pools S1 P) then ObtainElementUnsafe P k new S1
            else Some (Inr None, S1))"

definition pool_Wait :: "nat \<Rightarrow> addr \<Rightarrow> ('v PoolSystem \<Rightarrow> 'v PoolSystem) \<Rightarrow> 'v PoolSystem \<Rightarrow> (ptr result \<times> 'v PoolSystem) option" where
  "pool_Wait P new others S =
     (case m_monitor (pools S P) of
        None \<Rightarrow> Some (Inl Undefined_behaviour, S)
      | Some k \<Rightarrow>
          if m_limit (pools S P) = 0 then
            Some (Inl (autowiring_error ''Attempted to perform a wait on a pool containing no entities''), S)
          else
            let S1 = (if m_outstanding (pools S P) < m_limit (pools S P) then S else others S) in
            if m_limit (pools S1 P) = 0 then
              Some (Inl (autowiring_error ''Attempted to rundown ObjectPool while performing a wait''), S1)
            else if m_outstanding (pools S1 P) < m_limit (pools S1 P) then ObtainElementUnsafe P k new S1
            else None)"

section \<open>Limits\<close>

definition set_max_pooled :: "nat \<Rightarrow> nat \<Rightarrow> 'v PoolSystem \<Rightarrow> 'v PoolSystem" where
  "set_max_pooled P maxPooled S =
     upd_pool P (\<lambda>p. p\<lparr>m_objs := take maxPooled (m_objs p), m_maxPooled := maxPooled\<rparr>)
       (delete_entries (drop maxPooled (m_objs (pools S P))) S)"

definition SetMaximumPooledEntities :: "nat \<Rightarrow> nat \<Rightarrow> 'v PoolSystem \<Rightarrow> 'v PoolSystem result" where
  "SetMaximumPooledEntities P maxPooled S =
     (case m_monitor (pools S P) of None \<Rightarrow> Inl Undefined_behaviour | Some k \<Rightarrow> Inr (set_max_pooled P maxPooled S))"

definition SetOutstandingLimit :: "nat \<Rightarrow> nat \<Rightarrow> 'v PoolSystem \<Rightarrow> 'v PoolSystem result" where
  "SetOutstandingLimit P limit S =
     (case m_monitor (pools S P) of
        None \<Rightarrow> Inl Undefined_behaviour
      | Some k \<Rightarrow>
          if m_limit (pools S P) = 0 \<and> limit \<noteq> 0 then
            Inl (autowiring_error ''Attempted to set the limit to a nonzero value after it was set to zero'')
          else Inr (upd_pool P (\<lambda>p. p\<lparr>m_limit := limit\<rparr>) S))"

definition GetOutstanding :: "nat \<Rightarrow> 'v PoolSystem \<Rightarrow> nat" where
  "GetOutstanding P S = m_outstanding (pools S P)"

definition GetCached :: "nat \<Rightarrow> 'v PoolSystem \<Rightarrow> nat" where
  "GetCached P S = length (m_objs (pools S P))"

definition pool_IsEmpty :: "nat \<Rightarrow> 'v PoolSystem \<Rightarrow> bool" where
  "pool_IsEmpty P S \<longleftrightarrow> m_objs (pools S P) = [] \<and> m_outstanding (pools S P) = 0"

text \<open>
  \<open>Preallocate\<close>: \<open>news\<close> are the addresses for the objects that have to be made, one per reservation.  The vector of
  shared pointers is destroyed at the end, also when a constructor throws.
\<close>

fun preallocate_loop :: "nat \<Rightarrow> addr list \<Rightarrow> addr list \<Rightarrow> 'v PoolSystem \<Rightarrow> (unit result \<times> 'v PoolSystem) option" where
  "preallocate_loop P [] got S = Some (Inr (), fold pool_release got S)"
| "preallocate_loop P (new # news) got S =
     Option.bind (pool_get P new S) (\<lambda>(r, S1).
       case r of
         Inl x \<Rightarrow> Some (Inl x, fold pool_release got S1)
       | Inr None \<Rightarrow> preallocate_loop P news got S1
       | Inr (Some a) \<Rightarrow> preallocate_loop P news (a # got) S1)"

definition Preallocate :: "nat \<Rightarrow> nat \<Rightarrow> addr list \<Rightarrow> 'v PoolSystem \<Rightarrow> (unit result \<times> 'v PoolSystem) option" where
  "Preallocate P reservation news S =
     preallocate_loop P (take (min reservation (m_maxPooled (pools S P))) news) [] S"

definition pool_Rundown :: "nat \<Rightarrow> ('v PoolSystem \<Rightarrow> 'v PoolSystem) \<Rightarrow> 'v PoolSystem \<Rightarrow> 'v PoolSystem result option" where
  "pool_Rundown P others S =
     (case bindR (SetMaximumPooledEntities P 0 S) (SetOutstandingLimit P 0) of
        Inl x \<Rightarrow> Some (Inl x)
      | Inr S1 \<Rightarrow>
          let S2 = (if m_outstanding (pools S1 P) = 0 then S1 else others S1)
          in if m_outstanding (pools S2 P) = 0 then Some (Inr S2) else None)"

section \<open>Moving a pool\<close>

definition pool_move :: "nat \<Rightarrow> nat \<Rightarrow> 'v PoolSystem \<Rightarrow> 'v PoolSystem result" where
  "pool_move this rhs S =
     (case m_monitor (pools S rhs) of
        None \<Rightarrow> Inl Undefined_behaviour
      | Some k \<Rightarrow>
          let old = pools S this;
              S1 = (case m_monitor old of
                      None \<Rightarrow> S
                    | Some j \<Rightarrow> pool_Abandon j (upd_monitor j (\<lambda>m. m\<lparr>owner := rhs\<rparr>) S));
              new = pools S rhs;
              S2 = upd_pool rhs (\<lambda>p. p\<lparr>m_monitor := m_monitor old, m_objs := m_objs old, m_placement := m_placement old\<rparr>) S1;
              S3 = upd_pool this (\<lambda>_. new) S2
          in Inr (upd_monitor k (\<lambda>m. m\<lparr>owner := this\<rparr>) S3))"

end
