(* ===== verification/Object_Pool_Props.thy ===== *)
theory Object_Pool_Props
  imports Object_Pool
begin

text \<open>
  Object pools keep account of their objects: every allocated entry is either issued or cached in one pool, the
  outstanding count is the number of issued entries, and entries made before the cache was cleared are never issued
  again.  \<open>pinv I\<close> is the invariant for the set \<open>I\<close> of entries that are issued or in flight.
\<close>

section \<open>Invariant\<close>

definition live :: "'v PoolSystem \<Rightarrow> nat \<Rightarrow> nat \<Rightarrow> bool" where
  "live S P k \<longleftrightarrow> m_monitor (pools S P) = Some k \<and> \<not> m_abandoned (monitors S k)"

definition on_monitor :: "'v PoolSystem \<Rightarrow> nat \<Rightarrow> addr set" where
  "on_monitor S k = {a. \<exists>e. entries S a = Some e \<and> monitor e = k}"

definition pinv :: "addr set \<Rightarrow> 'v PoolSystem \<Rightarrow> bool" where
  "pinv I S \<longleftrightarrow>
     finite I \<and>
     (\<forall>P. distinct (m_objs (pools S P)) \<and> set (m_objs (pools S P)) \<inter> I = {}) \<and>
     (\<forall>P Q. P \<noteq> Q \<longrightarrow> set (m_objs (pools S P)) \<inter> set (m_objs (pools S Q)) = {}) \<and>
     dom (entries S) = I \<union> (\<Union>P. set (m_objs (pools S P))) \<and>
     (\<forall>P Q k. m_monitor (pools S P) = Some k \<longrightarrow> m_monitor (pools S Q) = Some k \<longrightarrow> P = Q) \<and>
     (\<forall>P k. live S P k \<longrightarrow> owner (monitors S k) = P \<and> m_outstanding (pools S P) = card (I \<inter> on_monitor S k) \<and>
        length (m_objs (pools S P)) \<le> m_maxPooled (pools S P)) \<and>
     (\<forall>P k a e. m_monitor (pools S P) = Some k \<longrightarrow> entries S a = Some e \<longrightarrow>
        (a \<in> set (m_objs (pools S P)) \<longrightarrow>
           monitor e = k \<and> (\<not> m_abandoned (monitors S k) \<longrightarrow> poolVersion e = m_poolVersion (pools S P)))) \<and>
     (\<forall>P a e. live S P (monitor e) \<longrightarrow> entries S a = Some e \<longrightarrow> poolVersion e \<le> m_poolVersion (pools S P)) \<and>
     (\<forall>a e. entries S a = Some e \<longrightarrow> \<not> m_abandoned (monitors S (monitor e)) \<longrightarrow> live S (owner (monitors S (monitor e))) (monitor e))"

lemma pinvI:
  assumes "finite I" "\<And>P. distinct (m_objs (pools S P))" "\<And>P. set (m_objs (pools S P)) \<inter> I = {}"
    "\<And>P Q. P \<noteq> Q \<Longrightarrow> set (m_objs (pools S P)) \<inter> set (m_objs (pools S Q)) = {}"
    "dom (entries S) = I \<union> (\<Union>P. set (m_objs (pools S P)))"
    "\<And>P Q k. m_monitor (pools S P) = Some k \<Longrightarrow> m_monitor (pools S Q) = Some k \<Longrightarrow> P = Q"
    "\<And>P k. live S P k \<Longrightarrow> owner (monitors S k) = P"
    "\<And>P k. live S P k \<Longrightarrow> m_outstanding (pools S P) = card (I \<inter> on_monitor S k)"
    "\<And>P k. live S P k \<Longrightarrow> length (m_objs (pools S P)) \<le> m_maxPooled (pools S P)"
    "\<And>P k a e. m_monitor (pools S P) = Some k \<Longrightarrow> entries S a = Some e \<Longrightarrow> a \<in> set (m_objs (pools S P)) \<Longrightarrow>
       monitor e = k \<and> (\<not> m_abandoned (monitors S k) \<longrightarrow> poolVersion e = m_poolVersion (pools S P))"
    "\<And>P a e. live S P (monitor e) \<Longrightarrow> entries S a = Some e \<Longrightarrow> poolVersion e \<le> m_poolVersion (pools S P)"
    "\<And>a e. entries S a = Some e \<Longrightarrow> \<not> m_abandoned (monitors S (monitor e)) \<Longrightarrow> live S (owner (monitors S (monitor e))) (monitor e)"
  shows "pinv I S"
  unfolding pinv_def using assms by (intro conjI allI impI) (simp_all | blast)+

lemma pinvD:
  assumes "pinv I S"
  shows "finite I" "\<And>P. distinct (m_objs (pools S P))" "\<And>P. set (m_objs (pools S P)) \<inter> I = {}"
    "\<And>P Q. P \<noteq> Q \<Longrightarrow> set (m_objs (pools S P)) \<inter> set (m_objs (pools S Q)) = {}"
    "dom (entries S) = I \<union> (\<Union>P. set (m_objs (pools S P)))"
    "\<And>P Q k. m_monitor (pools S P) = Some k \<Longrightarrow> m_monitor (pools S Q) = Some k \<Longrightarrow> P = Q"
    "\<And>P k. live S P k \<Longrightarrow> owner (monitors S k) = P"
    "\<And>P k. live S P k \<Longrightarrow> m_outstanding (pools S P) = card (I \<inter> on_monitor S k)"
    "\<And>P k. live S P k \<Longrightarrow> length (m_objs (pools S P)) \<le> m_maxPooled (pools S P)"
    "\<And>P k a e. m_monitor (pools S P) = Some k \<Longrightarrow> entries S a = Some e \<Longrightarrow> a \<in> set (m_objs (pools S P)) \<Longrightarrow>
       monitor e = k \<and> (\<not> m_abandoned (monitors S k) \<longrightarrow> poolVersion e = m_poolVersion (pools S P))"
    "\<And>P a e. live S P (monitor e) \<Longrightarrow> entries S a = Some e \<Longrightarrow> poolVersion e \<le> m_poolVersion (pools S P)"
    "\<And>a e. entries S a = Some e \<Longrightarrow> \<not> m_abandoned (monitors S (monitor e)) \<Longrightarrow> live S (owner (monitors S (monitor e))) (monitor e)"
  using assms unfolding pinv_def by - (elim conjE, simp_all | blast)+

section \<open>Entries\<close>

lemma upd_pool_simps [simp]:
  "pools (upd_pool P g S) Q = (if Q = P then g (pools S P) else pools S Q)"
  "monitors (upd_pool P g S) = monitors S" "entries (upd_pool P g S) = entries S" "issued (upd_pool P g S) = issued S"
  by (simp_all add: upd_pool_def)

lemma delete_entry_simps [simp]:
  "pools (delete_entry a S) = pools S" "monitors (delete_entry a S) = monitors S" "issued (delete_entry a S) = issued S"
  "entries (delete_entry a S) b = (if b = a then None else entries S b)"
  by (simp_all add: delete_entry_def)

lemma upd_monitor_simps [simp]:
  "pools (upd_monitor k g S) = pools S" "entries (upd_monitor k g S) = entries S" "issued (upd_monitor k g S) = issued S"
  "monitors (upd_monitor k g S) j = (if j = k then g (monitors S k) else monitors S j)"
  by (simp_all add: upd_monitor_def)

lemma delete_entries_simps [simp]:
  "pools (delete_entries as S) = pools S" "monitors (delete_entries as S) = monitors S" "issued (delete_entries as S) = issued S"
  "entries (delete_entries as S) b = (if b \<in> set as then None else entries S b)"
  by (simp_all add: delete_entries_def)

text \<open>The invariant does not look at the objects in the entries, nor at the list of issued pointers.\<close>

definition entry_shape :: "'v PoolSystem \<Rightarrow> addr \<Rightarrow> (nat \<times> nat) option" where
  "entry_shape S a = map_option (\<lambda>e. (monitor e, poolVersion e)) (entries S a)"

lemma pinv_shape:
  assumes "pinv I S" "pools S' = pools S" "monitors S' = monitors S" "\<And>a. entry_shape S' a = entry_shape S a"
  shows "pinv I S'"
proof -
  note p = pinvD [OF assms(1)]
  have live: "live S' P k = live S P k" for P k by (simp add: live_def assms(2,3))
  have "entries S' a = None \<longleftrightarrow> entries S a = None" for a
    using assms(4) [of a] by (cases "entries S a"; cases "entries S' a") (simp_all add: entry_shape_def)
  then have dom: "dom (entries S') = dom (entries S)" by (simp add: dom_def)
  have e: "\<exists>e'. entries S a = Some e' \<and> monitor e' = monitor e \<and> poolVersion e' = poolVersion e" if "entries S' a = Some e" for a e
    using assms(4) [of a] that by (cases "entries S a") (simp_all add: entry_shape_def)
  have e': "\<exists>e'. entries S' a = Some e' \<and> monitor e' = monitor e" if "entries S a = Some e" for a e
    using assms(4) [of a] that by (cases "entries S' a") (simp_all add: entry_shape_def)
  have on: "on_monitor S' k = on_monitor S k" for k
  proof
    show "on_monitor S' k \<subseteq> on_monitor S k" using e by (force simp: on_monitor_def)
    show "on_monitor S k \<subseteq> on_monitor S' k" using e' by (force simp: on_monitor_def)
  qed
  show ?thesis
  proof (rule pinvI, unfold assms(2,3) live dom on)
    show "monitor e = k \<and> (\<not> m_abandoned (monitors S k) \<longrightarrow> poolVersion e = m_poolVersion (pools S P))"
      if "m_monitor (pools S P) = Some k" "entries S' a = Some e" "a \<in> set (m_objs (pools S P))" for P k a e
      using p(10) [OF that(1) _ that(3)] e [OF that(2)] by metis
    show "poolVersion e \<le> m_poolVersion (pools S P)" if "live S P (monitor e)" "entries S' a = Some e" for P a e
      using p(11) [of P] e [OF that(2)] that(1) by metis
    show "live S (owner (monitors S (monitor e))) (monitor e)" if "entries S' a = Some e" "\<not> m_abandoned (monitors S (monitor e))" for a e
      using p(12) e [OF that(1)] that(2) by metis
  qed (fact p)+
qed

lemma pinv_obj:
  assumes "pinv I S" "entries S a = Some e"
  shows "pinv I (S\<lparr>entries := (entries S)(a \<mapsto> e\<lparr>obj := v\<rparr>)\<rparr>)" "pinv I (issue a e v S)"
  using assms(2) by (auto intro!: pinv_shape [OF assms(1)] simp: entry_shape_def issue_def)

lemma pinv_issued [simp]: "pinv I (S\<lparr>issued := is\<rparr>) = pinv I S"
  using pinv_shape [of I S "S\<lparr>issued := is\<rparr>"] pinv_shape [of I "S\<lparr>issued := is\<rparr>" S] by (auto simp: entry_shape_def)

section \<open>Returning an object\<close>

lemma delete_abandoned:
  assumes "pinv (insert a I) S" "a \<notin> I" "entries S a = Some e" "m_abandoned (monitors S (monitor e))"
  shows "pinv I (delete_entry a S)"
proof -
  note p = pinvD [OF assms(1)]
  have live: "live (delete_entry a S) P k = live S P k" for P k by (simp add: live_def)
  have nobj: "a \<notin> set (m_objs (pools S P))" for P using p(3) [of P] by blast
  have "insert a I \<inter> on_monitor S k = I \<inter> on_monitor (delete_entry a S) k" if "live S P k" for P k
    using that assms(2-4) by (auto simp: on_monitor_def live_def)
  note on = this
  show ?thesis
  proof (rule pinvI; (unfold live)?)
    show "finite I" using p(1) by simp
    show "set (m_objs (pools (delete_entry a S) P)) \<inter> I = {}" for P using p(3) [of P] by auto
    show "dom (entries (delete_entry a S)) = I \<union> (\<Union>P. set (m_objs (pools (delete_entry a S) P)))"
      using p(5) nobj assms(2) by (auto simp: dom_def)
    show "m_outstanding (pools (delete_entry a S) P) = card (I \<inter> on_monitor (delete_entry a S) k)" if "live S P k" for P k
      using p(8) [OF that] on [OF that] by simp
    show "monitor e = k \<and> (\<not> m_abandoned (monitors (delete_entry a S) k) \<longrightarrow> poolVersion e = m_poolVersion (pools (delete_entry a S) P))"
      if "m_monitor (pools (delete_entry a S) P) = Some k" "entries (delete_entry a S) b = Some e" "b \<in> set (m_objs (pools (delete_entry a S) P))" for P k b e
      using p(10) [of P k b e] that by (simp split: if_splits)
    show "poolVersion e \<le> m_poolVersion (pools (delete_entry a S) P)"
      if "live S P (monitor e)" "entries (delete_entry a S) b = Some e" for P b e
      using p(11) [OF that(1), of b] that(2) by (simp split: if_splits)
    show "live S (owner (monitors (delete_entry a S) (monitor e))) (monitor e)"
      if "entries (delete_entry a S) b = Some e" "\<not> m_abandoned (monitors (delete_entry a S) (monitor e))" for b e
      using p(12) [of b e] that by (simp split: if_splits)
  qed (simp_all add: p)
qed

lemma outstanding_insert:
  assumes "pinv (insert a I) S" "a \<notin> I" "entries S a = Some e" "live S P (monitor e)"
  shows "dec_size (m_outstanding (pools S P)) = card (I \<inter> on_monitor S (monitor e))"
proof -
  have "insert a I \<inter> on_monitor S (monitor e) = insert a (I \<inter> on_monitor S (monitor e))"
    using assms(3) by (auto simp: on_monitor_def)
  then show ?thesis using pinvD(1,8) [OF assms(1)] assms(2,4) by (simp add: dec_size_def)
qed

lemma other_outstanding:
  assumes "pinv (insert a I) S" "entries S a = Some e" "live S Q j" "j \<noteq> monitor e"
  shows "m_outstanding (pools S Q) = card (I \<inter> on_monitor S j)"
proof -
  have "insert a I \<inter> on_monitor S j = I \<inter> on_monitor S j" using assms(2,4) by (auto simp: on_monitor_def)
  then show ?thesis using pinvD(8) [OF assms(1,3)] by simp
qed

lemma live_monitor: "live S P k \<Longrightarrow> live S Q j \<Longrightarrow> pinv I S \<Longrightarrow> (P = Q) = (k = j)"
  using pinvD(6) [of I S P k Q] by (auto simp: live_def)

lemma return_kept:
  assumes "pinv (insert a I) S" "a \<notin> I" "entries S a = Some e" "live S P (monitor e)"
    "poolVersion e = m_poolVersion (pools S P)" "length (m_objs (pools S P)) < m_maxPooled (pools S P)"
  shows "pinv I (upd_pool P (\<lambda>p. p\<lparr>m_outstanding := dec_size (m_outstanding p), m_objs := m_objs p @ [a]\<rparr>) S)" (is "pinv I ?S")
proof -
  note p = pinvD [OF assms(1)]
  have live: "live ?S Q k = live S Q k" for Q k by (auto simp: live_def)
  have on: "on_monitor ?S k = on_monitor S k" for k by (simp add: on_monitor_def)
  have nobj: "a \<notin> set (m_objs (pools S Q))" for Q using p(3) [of Q] by blast
  show ?thesis
  proof (rule pinvI; (unfold live on)?)
    show "finite I" using p(1) by simp
    show "distinct (m_objs (pools ?S Q))" for Q using p(2) [of Q] nobj by auto
    show "set (m_objs (pools ?S Q)) \<inter> I = {}" for Q using p(3) [of Q] assms(2) by auto
    show "set (m_objs (pools ?S Q)) \<inter> set (m_objs (pools ?S R)) = {}" if "Q \<noteq> R" for Q R using p(4) [OF that] nobj that by auto
    show "dom (entries ?S) = I \<union> (\<Union>Q. set (m_objs (pools ?S Q)))" using p(5) by (auto split: if_splits)
    show "Q = R" if "m_monitor (pools ?S Q) = Some k" "m_monitor (pools ?S R) = Some k" for Q R k
      using p(6) [of Q k R] that by (auto split: if_splits)
    show "owner (monitors ?S k) = Q" if "live S Q k" for Q k using p(7) [OF that] by simp
    show "m_outstanding (pools ?S Q) = card (I \<inter> on_monitor S k)" if l: "live S Q k" for Q k
    proof (cases "Q = P")
      case True
      then have "k = monitor e" using live_monitor [OF l assms(4,1)] by simp
      then show ?thesis using True outstanding_insert [OF assms(1-4)] by simp
    next
      case False
      then have "k \<noteq> monitor e" using live_monitor [OF l assms(4,1)] by simp
      then show ?thesis using False other_outstanding [OF assms(1,3) l] by simp
    qed
    show "length (m_objs (pools ?S Q)) \<le> m_maxPooled (pools ?S Q)" if "live S Q k" for Q k using p(9) [OF that] assms(6) by simp
    show "monitor b = k \<and> (\<not> m_abandoned (monitors ?S k) \<longrightarrow> poolVersion b = m_poolVersion (pools ?S Q))"
      if "m_monitor (pools ?S Q) = Some k" "entries ?S c = Some b" "c \<in> set (m_objs (pools ?S Q))" for Q k c b
      using that p(10) [of Q k c b] assms(3-5) by (auto simp: live_def split: if_splits)
    show "poolVersion b \<le> m_poolVersion (pools ?S Q)" if "live S Q (monitor b)" "entries ?S c = Some b" for Q c b
      using p(11) [OF that(1), of c] that(2) by auto
    show "live S (owner (monitors ?S (monitor b))) (monitor b)"
      if "entries ?S c = Some b" "\<not> m_abandoned (monitors ?S (monitor b))" for c b using p(12) [of c b] that by simp
  qed
qed

lemma return_dropped:
  assumes "pinv (insert a I) S" "a \<notin> I" "entries S a = Some e" "live S P (monitor e)"
  shows "pinv I (delete_entry a (upd_pool P (\<lambda>p. p\<lparr>m_outstanding := dec_size (m_outstanding p)\<rparr>) S))" (is "pinv I ?S")
proof -
  note p = pinvD [OF assms(1)]
  have live: "live ?S Q k = live S Q k" for Q k by (auto simp: live_def)
  have on: "I \<inter> on_monitor ?S k = I \<inter> on_monitor S k" for k using assms(2) by (auto simp: on_monitor_def)
  have nobj: "a \<notin> set (m_objs (pools S Q))" for Q using p(3) [of Q] by blast
  have objs: "m_objs (pools ?S Q) = m_objs (pools S Q)" "m_monitor (pools ?S Q) = m_monitor (pools S Q)"
    "m_maxPooled (pools ?S Q) = m_maxPooled (pools S Q)" "m_poolVersion (pools ?S Q) = m_poolVersion (pools S Q)" for Q by simp_all
  show ?thesis
  proof (rule pinvI; (unfold live on objs)?)
    show "finite I" using p(1) by simp
    show "set (m_objs (pools S Q)) \<inter> I = {}" for Q using p(3) [of Q] by auto
    show "dom (entries ?S) = I \<union> (\<Union>Q. set (m_objs (pools S Q)))" using p(5) nobj assms(2) by (auto simp: dom_def split: if_splits)
    show "m_outstanding (pools ?S Q) = card (I \<inter> on_monitor S k)" if l: "live S Q k" for Q k
    proof (cases "Q = P")
      case True
      then have "k = monitor e" using live_monitor [OF l assms(4,1)] by simp
      then show ?thesis using True outstanding_insert [OF assms(1-4)] by simp
    next
      case False
      then have "k \<noteq> monitor e" using live_monitor [OF l assms(4,1)] by simp
      then show ?thesis using False other_outstanding [OF assms(1,3) l] by simp
    qed
    show "monitor b = k \<and> (\<not> m_abandoned (monitors ?S k) \<longrightarrow> poolVersion b = m_poolVersion (pools S Q))"
      if "m_monitor (pools S Q) = Some k" "entries ?S c = Some b" "c \<in> set (m_objs (pools S Q))" for Q k c b
      using that p(10) [of Q k c b] by (simp split: if_splits)
    show "poolVersion b \<le> m_poolVersion (pools S Q)" if "live S Q (monitor b)" "entries ?S c = Some b" for Q c b
      using p(11) [OF that(1), of c] that(2) by (simp split: if_splits)
    show "live S (owner (monitors ?S (monitor b))) (monitor b)"
      if "entries ?S c = Some b" "\<not> m_abandoned (monitors ?S (monitor b))" for c b using p(12) [of c b] that by (simp split: if_splits)
    show "owner (monitors ?S k) = Q" if "live S Q k" for Q k using p(7) [OF that] by simp
  qed (fact p)+
qed

lemma return_entry_inv:
  assumes "pinv (insert a I) S" "a \<notin> I"
  shows "pinv I (return_entry a S) \<and> issued (return_entry a S) = issued S \<and>
    (\<forall>P. m_limit (pools (return_entry a S) P) = m_limit (pools S P) \<and> m_monitor (pools (return_entry a S) P) = m_monitor (pools S P))"
proof -
  obtain e where e: "entries S a = Some e" using pinvD(5) [OF assms(1)] by blast
  let ?m = "monitors S (monitor e)"
  let ?e = "e\<lparr>obj := fnl ?m (obj e)\<rparr>"
  let ?S = "S\<lparr>entries := (entries S)(a \<mapsto> ?e)\<rparr>"
  have inv: "pinv (insert a I) ?S" using pinv_obj(1) [OF assms(1) e] .
  have ea: "entries ?S a = Some ?e" by simp
  show ?thesis
  proof (cases "m_abandoned ?m")
    case True
    then show ?thesis using delete_abandoned [OF inv assms(2) ea] e by (simp add: return_entry_def Let_def)
  next
    case False
    have l: "live ?S (owner ?m) (monitor ?e)" using pinvD(12) [OF assms(1) e False] by (simp add: live_def)
    have "upd_pool P (\<lambda>p. p\<lparr>m_objs := m_objs p @ [a]\<rparr>) (upd_pool P (\<lambda>p. p\<lparr>m_outstanding := dec_size (m_outstanding p)\<rparr>) ?S) =
        upd_pool P (\<lambda>p. p\<lparr>m_outstanding := dec_size (m_outstanding p), m_objs := m_objs p @ [a]\<rparr>) ?S" for P
      by (simp add: upd_pool_def)
    then show ?thesis
      using False e return_kept [OF inv assms(2) ea l] return_dropped [OF inv assms(2) ea l]
      by (simp add: return_entry_def ReturnUnsafe_def Let_def)
  qed
qed

section \<open>Obtaining an object\<close>

lemma construct_inv:
  assumes "pinv I S" "new \<notin> dom (entries S)" "m_monitor (pools S P) = Some k"
  shows "pinv (insert new I) ((upd_pool P (\<lambda>p. p\<lparr>m_outstanding := Suc (m_outstanding p)\<rparr>) S)
    \<lparr>entries := (entries S)(new \<mapsto> \<lparr>monitor = k, poolVersion = m_poolVersion (pools S P), obj = v\<rparr>)\<rparr>)" (is "pinv _ ?S")
proof -
  note p = pinvD [OF assms(1)]
  have live: "live ?S Q j = live S Q j" for Q j by (auto simp: live_def)
  have nI: "new \<notin> I" and nobj: "new \<notin> set (m_objs (pools S Q))" for Q using p(5) assms(2) by auto
  have on: "on_monitor ?S j = (if j = k then insert new (on_monitor S j) else on_monitor S j)" for j
    using assms(2) by (auto simp: on_monitor_def)
  have objs: "m_objs (pools ?S Q) = m_objs (pools S Q)" "m_monitor (pools ?S Q) = m_monitor (pools S Q)"
    "m_maxPooled (pools ?S Q) = m_maxPooled (pools S Q)" "m_poolVersion (pools ?S Q) = m_poolVersion (pools S Q)" for Q by simp_all
  show ?thesis
  proof (rule pinvI; (unfold live objs)?)
    show "finite (insert new I)" using p(1) by simp
    show "set (m_objs (pools S Q)) \<inter> insert new I = {}" for Q using p(3) [of Q] nobj by auto
    show "dom (entries ?S) = insert new I \<union> (\<Union>Q. set (m_objs (pools S Q)))" using p(5) by simp
    show "owner (monitors ?S j) = Q" if "live S Q j" for Q j using p(7) [OF that] by simp
    show "m_outstanding (pools ?S Q) = card (insert new I \<inter> on_monitor ?S j)" if l: "live S Q j" for Q j
    proof -
      have "(Q = P) = (j = k)" using l assms(3) p(6) [of Q j P] by (auto simp: live_def)
      moreover have "insert new I \<inter> insert new (on_monitor S j) = insert new (I \<inter> on_monitor S j)" by auto
      moreover have "insert new I \<inter> on_monitor S j = I \<inter> on_monitor S j" using assms(2) by (auto simp: on_monitor_def)
      ultimately show ?thesis using p(1) p(8) [OF l] nI by (auto simp: on)
    qed
    show "monitor b = j \<and> (\<not> m_abandoned (monitors ?S j) \<longrightarrow> poolVersion b = m_poolVersion (pools S Q))"
      if "m_monitor (pools S Q) = Some j" "entries ?S c = Some b" "c \<in> set (m_objs (pools S Q))" for Q j c b
      using that p(10) [of Q j c b] nobj by (auto split: if_splits)
    show "poolVersion b \<le> m_poolVersion (pools S Q)" if "live S Q (monitor b)" "entries ?S c = Some b" for Q c b
      using that p(11) [OF that(1), of c] assms(3) p(6) [of Q k P] by (auto simp: live_def split: if_splits)
    show "live S (owner (monitors ?S (monitor b))) (monitor b)"
      if "entries ?S c = Some b" "\<not> m_abandoned (monitors ?S (monitor b))" for c b
      using that p(12) [of c b] p(7) [of P k] assms(3) by (auto simp: live_def split: if_splits)
  qed (fact p)+
qed

lemma last_butlast_set: "xs \<noteq> [] \<Longrightarrow> distinct xs \<Longrightarrow> set (butlast xs) = set xs - {last xs}"
  by (induction xs rule: rev_induct) auto

lemma uncache_inv:
  assumes "pinv I S" "m_monitor (pools S P) = Some k" "m_objs (pools S P) \<noteq> []"
  shows "pinv (insert (last (m_objs (pools S P))) I)
    (upd_pool P (\<lambda>p. p\<lparr>m_outstanding := Suc (m_outstanding p), m_objs := butlast (m_objs p)\<rparr>) S)" (is "pinv (insert ?a I) ?S")
proof -
  note p = pinvD [OF assms(1)]
  have live: "live ?S Q j = live S Q j" for Q j by (auto simp: live_def)
  have on: "on_monitor ?S j = on_monitor S j" for j by (simp add: on_monitor_def)
  have a: "?a \<in> set (m_objs (pools S P))" using assms(3) by simp
  have aQ: "?a \<notin> set (m_objs (pools S Q))" if "Q \<noteq> P" for Q using p(4) [OF that] a by blast
  have objs: "set (m_objs (pools ?S Q)) = set (m_objs (pools S Q)) - {?a}" for Q
    using last_butlast_set [OF assms(3) p(2)] aQ [of Q] by simp
  have sub: "set (m_objs (pools ?S Q)) \<subseteq> set (m_objs (pools S Q))" for Q using objs [of Q] by auto
  have aI: "?a \<notin> I" using p(3) [of P] a by blast
  show ?thesis
  proof (rule pinvI; (unfold live on)?)
    show "finite (insert ?a I)" using p(1) by simp
    show "distinct (m_objs (pools ?S Q))" for Q using p(2) [of Q] by (auto simp: distinct_butlast)
    show "set (m_objs (pools ?S Q)) \<inter> insert ?a I = {}" for Q unfolding objs using p(3) [of Q] by auto
    show "set (m_objs (pools ?S Q)) \<inter> set (m_objs (pools ?S R)) = {}" if "Q \<noteq> R" for Q R
      using p(4) [OF that] sub [of Q] sub [of R] by blast
    have "(\<Union>Q. set (m_objs (pools ?S Q))) = (\<Union>Q. set (m_objs (pools S Q))) - {?a}"
      unfolding objs by auto
    then show "dom (entries ?S) = insert ?a I \<union> (\<Union>Q. set (m_objs (pools ?S Q)))" using p(5) a by auto
    show "Q = R" if "m_monitor (pools ?S Q) = Some j" "m_monitor (pools ?S R) = Some j" for Q R j
      using p(6) [of Q j R] that by (auto split: if_splits)
    show "owner (monitors ?S j) = Q" if "live S Q j" for Q j using p(7) [OF that] by simp
    show "m_outstanding (pools ?S Q) = card (insert ?a I \<inter> on_monitor S j)" if l: "live S Q j" for Q j
    proof (cases "Q = P")
      case True
      obtain e where "entries S ?a = Some e" using p(5) a by blast
      then have "?a \<in> on_monitor S j" using p(10) [of P j ?a e] a l True by (auto simp: on_monitor_def live_def)
      then have "insert ?a I \<inter> on_monitor S j = insert ?a (I \<inter> on_monitor S j)" by auto
      then show ?thesis using True p(1) p(8) [OF l] aI by simp
    next
      case False
      have "?a \<notin> on_monitor S j"
        using p(10) [OF assms(2) _ a] l assms(2) p(6) [of Q j P] False by (auto simp: on_monitor_def live_def)
      then show ?thesis using False p(8) [OF l] by simp
    qed
    show "length (m_objs (pools ?S Q)) \<le> m_maxPooled (pools ?S Q)" if "live S Q j" for Q j using p(9) [OF that] by auto
    show "monitor b = j \<and> (\<not> m_abandoned (monitors ?S j) \<longrightarrow> poolVersion b = m_poolVersion (pools ?S Q))"
      if "m_monitor (pools ?S Q) = Some j" "entries ?S c = Some b" "c \<in> set (m_objs (pools ?S Q))" for Q j c b
      using p(10) [of Q j c b] sub [of Q] that by (auto split: if_splits)
    show "poolVersion b \<le> m_poolVersion (pools ?S Q)" if "live S Q (monitor b)" "entries ?S c = Some b" for Q c b
      using p(11) [OF that(1), of c] that(2) by auto
    show "live S (owner (monitors ?S (monitor b))) (monitor b)"
      if "entries ?S c = Some b" "\<not> m_abandoned (monitors ?S (monitor b))" for c b using p(12) [of c b] that by simp
  qed
qed

definition pool_ok :: "'v PoolSystem \<Rightarrow> bool" where
  "pool_ok S \<longleftrightarrow> distinct (issued S) \<and> pinv (set (issued S)) S"

lemma ObtainElementUnsafe_inv:
  assumes "pool_ok S" "new \<notin> dom (entries S)" "m_monitor (pools S P) = Some k" "m_placement (pools S P) new = Inr v"
    "ObtainElementUnsafe P k new S = Some (r, S')"
  shows "pool_ok S' \<and> (case r of Inr (Some a) \<Rightarrow> a \<notin> set (issued S) \<and> issued S' = a # issued S | _ \<Rightarrow> issued S' = issued S)"
proof -
  let ?I = "set (issued S)"
  have ok: "distinct (issued S)" "pinv ?I S" using assms(1) by (simp_all add: pool_ok_def)
  note p = pinvD [OF ok(2)]
  show ?thesis
  proof (cases "m_objs (pools S P) = []")
    case True
    let ?e = "\<lparr>monitor = k, poolVersion = m_poolVersion (pools S P), obj = v\<rparr>"
    let ?S = "(upd_pool P (\<lambda>p. p\<lparr>m_outstanding := Suc (m_outstanding p)\<rparr>) S)\<lparr>entries := (entries S)(new \<mapsto> ?e)\<rparr>"
    have c: "pinv (insert new ?I) ?S" using construct_inv [OF ok(2) assms(2,3)] .
    have n: "new \<notin> ?I" using p(5) assms(2) by blast
    show ?thesis
    proof (cases "initial (monitors S k) v")
      case (Inl x)
      then show ?thesis
        using True assms(4,5) ok(1) return_entry_inv [OF c n] by (auto simp: ObtainElementUnsafe_def Let_def pool_ok_def)
    next
      case (Inr w)
      then show ?thesis
        using True assms(4,5) ok(1) n pinv_obj(2) [OF c, of new ?e w]
        by (auto simp: ObtainElementUnsafe_def Let_def pool_ok_def issue_def)
    qed
  next
    case False
    let ?a = "last (m_objs (pools S P))"
    let ?S = "upd_pool P (\<lambda>p. p\<lparr>m_outstanding := Suc (m_outstanding p), m_objs := butlast (m_objs p)\<rparr>) S"
    have "?a \<in> set (m_objs (pools S P))" using False by simp
    then have a: "?a \<notin> ?I" "?a \<in> dom (entries S)" using p(3) [of P] p(5) by blast+
    then obtain e where e: "entries S ?a = Some e" by blast
    have c: "pinv (insert ?a ?I) ?S" using uncache_inv [OF ok(2) assms(3) False] .
    obtain w where w: "initial (monitors S k) (obj e) = Inr w" "r = Inr (Some ?a)"
        "S' = upd_pool P (\<lambda>p. p\<lparr>m_objs := butlast (m_objs p)\<rparr>) (issue ?a e w (upd_pool P (\<lambda>p. p\<lparr>m_outstanding := Suc (m_outstanding p)\<rparr>) S))"
      using False assms(5) e by (auto simp: ObtainElementUnsafe_def Let_def split: sum.splits)
    have "S' = issue ?a e w ?S" using w(3) by (simp add: issue_def upd_pool_def)
    then show ?thesis using w(2) a ok(1) pinv_obj(2) [OF c, of ?a e w] e by (simp add: pool_ok_def) (simp add: issue_def)
  qed
qed

lemma pool_get_inv:
  assumes "pool_ok S" "new \<notin> dom (entries S)" "m_placement (pools S P) new = Inr v" "pool_get P new S = Some (r, S')"
  shows "pool_ok S' \<and> (case r of Inr (Some a) \<Rightarrow> a \<notin> set (issued S) \<and> issued S' = a # issued S | _ \<Rightarrow> issued S' = issued S)"
proof (cases "m_monitor (pools S P)")
  case None
  then show ?thesis using assms(1,4) by (auto simp: pool_get_def)
next
  case (Some k)
  then show ?thesis
    using assms(1,4) ObtainElementUnsafe_inv [OF assms(1,2) Some assms(3), of r S'] by (auto simp: pool_get_def split: if_splits)
qed

lemma pool_release_inv:
  assumes "pool_ok S" "a \<in> set (issued S)"
  shows "pool_ok (pool_release a S) \<and> issued (pool_release a S) = remove1 a (issued S)"
proof -
  have "insert a (set (remove1 a (issued S))) = set (issued S)" "a \<notin> set (remove1 a (issued S))"
    using assms by (auto simp: pool_ok_def)
  then have "pinv (insert a (set (remove1 a (issued S)))) (S\<lparr>issued := remove1 a (issued S)\<rparr>)" "a \<notin> set (remove1 a (issued S))"
    using assms(1) by (simp_all add: pool_ok_def)
  from return_entry_inv [OF this] show ?thesis using assms(1) by (simp add: pool_release_def pool_ok_def)
qed

section \<open>Dropping cached objects\<close>

lemma drop_cached_inv:
  assumes "pinv I S" "distinct ks" "set ks \<subseteq> set (m_objs (pools S P))" "set ds = set (m_objs (pools S P)) - set ks"
    "length ks \<le> mx" "m_poolVersion (pools S P) \<le> v" "ks \<noteq> [] \<Longrightarrow> v = m_poolVersion (pools S P)"
  shows "pinv I (upd_pool P (\<lambda>p. p\<lparr>m_objs := ks, m_maxPooled := mx, m_poolVersion := v\<rparr>) (delete_entries ds S))" (is "pinv I ?S")
proof -
  note p = pinvD [OF assms(1)]
  have live: "live ?S Q k = live S Q k" for Q k by (auto simp: live_def)
  have objs: "set (m_objs (pools ?S Q)) = set (m_objs (pools S Q)) - set ds" for Q
    using assms(3,4) p(4) [of Q P] by auto
  have dI: "set ds \<inter> I = {}" using p(3) [of P] assms(4) by auto
  then have on: "I \<inter> on_monitor ?S k = I \<inter> on_monitor S k" for k by (auto simp: on_monitor_def)
  have ent: "entries ?S a = Some e \<Longrightarrow> entries S a = Some e" for a e by (simp split: if_splits)
  have mon: "m_monitor (pools ?S Q) = m_monitor (pools S Q)" "monitors ?S = monitors S" for Q by simp_all
  have ver: "m_poolVersion (pools S Q) \<le> m_poolVersion (pools ?S Q)" for Q using assms(6) by simp
  show ?thesis
  proof (rule pinvI; (unfold live on mon)?)
    show "finite I" using p(1) .
    show "distinct (m_objs (pools ?S Q))" for Q using p(2) [of Q] assms(2) by simp
    show "set (m_objs (pools ?S Q)) \<inter> I = {}" for Q unfolding objs using p(3) [of Q] by blast
    show "set (m_objs (pools ?S Q)) \<inter> set (m_objs (pools ?S R)) = {}" if "Q \<noteq> R" for Q R unfolding objs using p(4) [OF that] by blast
    have "dom (entries ?S) = dom (entries S) - set ds" by (auto simp: dom_def split: if_splits)
    then show "dom (entries ?S) = I \<union> (\<Union>Q. set (m_objs (pools ?S Q)))" unfolding objs p(5) using dI by blast
    show "m_outstanding (pools ?S Q) = card (I \<inter> on_monitor S k)" if "live S Q k" for Q k using p(8) [OF that] by auto
    show "length (m_objs (pools ?S Q)) \<le> m_maxPooled (pools ?S Q)" if "live S Q k" for Q k using p(9) [OF that] assms(5) by simp
    show "monitor b = k \<and> (\<not> m_abandoned (monitors S k) \<longrightarrow> poolVersion b = m_poolVersion (pools ?S Q))"
      if "m_monitor (pools S Q) = Some k" "entries ?S c = Some b" "c \<in> set (m_objs (pools ?S Q))" for Q k c b
    proof -
      have "c \<in> set (m_objs (pools S Q))" using that(3) unfolding objs by blast
      moreover have "m_poolVersion (pools ?S Q) = m_poolVersion (pools S Q)" using that(3) assms(7) by (cases "Q = P"; cases ks) auto
      ultimately show ?thesis using p(10) [OF that(1) ent [OF that(2)]] by simp
    qed
    show "poolVersion b \<le> m_poolVersion (pools ?S Q)" if "live S Q (monitor b)" "entries ?S c = Some b" for Q c b
      using p(11) [OF that(1) ent [OF that(2)]] ver [of Q] by simp
    show "live S (owner (monitors S (monitor b))) (monitor b)" if "entries ?S c = Some b" "\<not> m_abandoned (monitors S (monitor b))" for c b
      using p(12) [OF ent [OF that(1)] that(2)] .
  qed (fact p)+
qed

lemma clear_cached_inv: "pool_ok S \<Longrightarrow> pool_ok (clear_cached P S) \<and> issued (clear_cached P S) = issued S"
  using drop_cached_inv [of "set (issued S)" S "[]" P "m_objs (pools S P)" "m_maxPooled (pools S P)" "Suc (m_poolVersion (pools S P))"]
  by (simp add: pool_ok_def clear_cached_def upd_pool_def)

lemma set_max_pooled_inv: "pool_ok S \<Longrightarrow> pool_ok (set_max_pooled P mx S) \<and> issued (set_max_pooled P mx S) = issued S"
proof -
  assume ok: "pool_ok S"
  let ?o = "m_objs (pools S P)"
  have d: "distinct ?o" using ok pinvD(2) by (auto simp: pool_ok_def)
  then have "set (drop mx ?o) = set ?o - set (take mx ?o)"
    using set_append [of "take mx ?o" "drop mx ?o"] distinct_append [of "take mx ?o" "drop mx ?o"] by auto
  then show ?thesis
    using ok drop_cached_inv [of "set (issued S)" S "take mx ?o" P "drop mx ?o" mx "m_poolVersion (pools S P)"] d
    by (simp add: pool_ok_def set_max_pooled_def upd_pool_def set_take_subset)
qed

section \<open>Limits, construction, destruction and moves\<close>

lemma set_limit_inv:
  assumes "pinv I S"
  shows "pinv I (upd_pool P (\<lambda>p. p\<lparr>m_limit := l\<rparr>) S)" (is "pinv I ?S")
proof -
  have f: "m_objs (pools ?S Q) = m_objs (pools S Q)" "m_monitor (pools ?S Q) = m_monitor (pools S Q)" "monitors ?S = monitors S"
    "m_maxPooled (pools ?S Q) = m_maxPooled (pools S Q)" "m_poolVersion (pools ?S Q) = m_poolVersion (pools S Q)"
    "m_outstanding (pools ?S Q) = m_outstanding (pools S Q)" "entries ?S = entries S" for Q by simp_all
  have "live ?S = live S" "on_monitor ?S = on_monitor S" unfolding live_def on_monitor_def fun_eq_iff f by simp_all
  then show ?thesis using assms unfolding pinv_def f by simp
qed

lemma Abandon_inv:
  assumes "pinv I S"
  shows "pinv I (pool_Abandon k S)" (is "pinv I ?S")
proof -
  note p = pinvD [OF assms]
  have live: "live ?S Q j \<longleftrightarrow> live S Q j \<and> j \<noteq> k" for Q j by (auto simp: live_def pool_Abandon_def)
  have on: "on_monitor ?S j = on_monitor S j" for j by (simp add: on_monitor_def pool_Abandon_def)
  have f: "pools ?S = pools S" "entries ?S = entries S" "owner (monitors ?S j) = owner (monitors S j)"
    "m_abandoned (monitors ?S j) \<longleftrightarrow> m_abandoned (monitors S j) \<or> j = k" for j by (simp_all add: pool_Abandon_def)
  show ?thesis
  proof (rule pinvI; (unfold live on f)?)
    show "monitor e = j \<and> (\<not> (m_abandoned (monitors S j) \<or> j = k) \<longrightarrow> poolVersion e = m_poolVersion (pools S P))"
      if "m_monitor (pools S P) = Some j" "entries S a = Some e" "a \<in> set (m_objs (pools S P))" for P j a e
      using p(10) [OF that] by simp
    show "live S (owner (monitors S (monitor e))) (monitor e) \<and> monitor e \<noteq> k"
      if "entries S a = Some e" "\<not> (m_abandoned (monitors S (monitor e)) \<or> monitor e = k)" for a e
      using p(12) [OF that(1)] that(2) by simp
  qed (fact p | erule p(6), assumption | drule conjunct1, (erule p(7) | erule p(8) | erule p(9) | erule p(11), assumption))+
qed

lemma pool_destroy_inv:
  assumes "pool_ok S"
  shows "pool_ok (pool_destroy P S) \<and> issued (pool_destroy P S) = issued S"
proof (cases "m_monitor (pools S P)")
  case None
  then show ?thesis using assms by (simp add: pool_destroy_def)
next
  case (Some k)
  have "pool_ok (pool_Abandon k S)" using assms Abandon_inv by (auto simp: pool_ok_def pool_Abandon_def)
  from clear_cached_inv [OF this, of P] show ?thesis using Some by (simp add: pool_destroy_def) (simp add: pool_Abandon_def)
qed

lemma pool_new_inv:
  assumes "pinv I S" "m_monitor (pools S P) = None" "m_objs (pools S P) = []"
    "\<And>Q. m_monitor (pools S Q) \<noteq> Some k" "\<And>a e. entries S a = Some e \<Longrightarrow> monitor e \<noteq> k"
  shows "pinv I (pool_new P k limit mx place init final S)" (is "pinv I ?S")
proof -
  note p = pinvD [OF assms(1)]
  have live: "live ?S Q j \<longleftrightarrow> Q = P \<and> j = k \<or> live S Q j" for Q j
    using assms(2) assms(4) [of Q] by (auto simp: live_def pool_new_def)
  have on: "on_monitor ?S j = on_monitor S j" for j by (simp add: on_monitor_def pool_new_def)
  have k: "on_monitor S k = {}" using assms(5) by (auto simp: on_monitor_def)
  have objs: "m_objs (pools ?S Q) = m_objs (pools S Q)" for Q using assms(3) by (simp add: pool_new_def)
  have old: "live S Q j \<Longrightarrow> pools ?S Q = pools S Q" for Q j using assms(2) by (auto simp: pool_new_def live_def)
  have mon: "j \<noteq> k \<Longrightarrow> monitors ?S j = monitors S j" for j by (simp add: pool_new_def)
  have lk: "live S Q j \<Longrightarrow> j \<noteq> k" for Q j using assms(4) by (auto simp: live_def)
  have ent: "entries ?S = entries S" by (simp add: pool_new_def)
  show ?thesis
  proof (rule pinvI; (unfold live on objs ent)?)
    show "Q = R" if "m_monitor (pools ?S Q) = Some j" "m_monitor (pools ?S R) = Some j" for Q R j
      using that p(6) [of Q j R] assms(4) [of Q] assms(4) [of R] by (auto simp: pool_new_def split: if_splits)
    show "owner (monitors ?S j) = Q" if "Q = P \<and> j = k \<or> live S Q j" for Q j
      using that p(7) [of Q j] mon [of j] lk [of Q j] by (auto simp: pool_new_def)
    show "m_outstanding (pools ?S Q) = card (I \<inter> on_monitor S j)" if "Q = P \<and> j = k \<or> live S Q j" for Q j
    proof (cases "live S Q j")
      case True
      then show ?thesis using p(8) [OF True] old [OF True] by simp
    next
      case False
      then have "Q = P" "j = k" using that by simp_all
      then show ?thesis using k by (simp add: pool_new_def)
    qed
    show "length (m_objs (pools S Q)) \<le> m_maxPooled (pools ?S Q)" if "Q = P \<and> j = k \<or> live S Q j" for Q j
      using that p(9) [of Q j] assms(3) old [of Q j] by auto
    show "monitor e = j \<and> (\<not> m_abandoned (monitors ?S j) \<longrightarrow> poolVersion e = m_poolVersion (pools ?S Q))"
      if "m_monitor (pools ?S Q) = Some j" "entries S a = Some e" "a \<in> set (m_objs (pools S Q))" for Q j a e
    proof -
      have Q: "Q \<noteq> P" using that(3) assms(3) by auto
      then have "m_monitor (pools S Q) = Some j" "j \<noteq> k" using that(1) assms(4) [of Q] by (auto simp: pool_new_def)
      then show ?thesis using p(10) [OF _ that(2,3)] Q by (auto simp: pool_new_def)
    qed
    show "poolVersion e \<le> m_poolVersion (pools ?S Q)" if "Q = P \<and> monitor e = k \<or> live S Q (monitor e)" "entries S a = Some e" for Q a e
      using that p(11) [of Q e a] assms(5) old [of Q "monitor e"] by auto
    show "owner (monitors ?S (monitor e)) = P \<and> monitor e = k \<or> live S (owner (monitors ?S (monitor e))) (monitor e)"
      if "entries S a = Some e" "\<not> m_abandoned (monitors ?S (monitor e))" for a e
      using that p(12) [of a e] assms(5) [of a e] mon [of "monitor e"] by simp
  qed (fact p)+
qed

lemma pool_move_inv:
  assumes "pinv I S" "this \<noteq> rhs" "pool_move this rhs S = Inr S'"
  shows "pinv I S' \<and> issued S' = issued S"
proof -
  note p = pinvD [OF assms(1)]
  define sw where "sw Q = (if Q = this then rhs else if Q = rhs then this else Q)" for Q
  have sw: "sw Q = sw R \<longleftrightarrow> Q = R" "(\<Union>Q. A (sw Q)) = (\<Union>Q. A Q)" for Q R and A :: "nat \<Rightarrow> addr set"
    using assms(2) by (auto simp: sw_def split: if_splits) (metis+)?
  obtain k where k: "m_monitor (pools S rhs) = Some k" using assms(3) by (cases "m_monitor (pools S rhs)") (simp_all add: pool_move_def)
  have kt: "m_monitor (pools S this) \<noteq> Some k" using p(6) [of this k rhs] k assms(2) by auto
  have pools': "m_objs (pools S' Q) = m_objs (pools S (sw Q))" "m_monitor (pools S' Q) = m_monitor (pools S (sw Q))"
    "Q \<noteq> rhs \<Longrightarrow> pools S' Q = pools S (sw Q)" "entries S' = entries S" "issued S' = issued S" for Q
    using assms(2,3) k by (auto simp: pool_move_def Let_def sw_def pool_Abandon_def split: option.splits)
  have mon': "m_abandoned (monitors S' i) \<longleftrightarrow> m_abandoned (monitors S i) \<or> m_monitor (pools S this) = Some i"
    "owner (monitors S' i) = (if i = k then this else if m_monitor (pools S this) = Some i then rhs else owner (monitors S i))" for i
    using assms(2,3) k kt
    by (cases "m_monitor (pools S this)"; cases "i = k"; cases "m_monitor (pools S this) = Some i"; auto simp: pool_move_def Let_def pool_Abandon_def)+
  have live: "live S' Q i \<longleftrightarrow> Q \<noteq> rhs \<and> live S (sw Q) i" for Q i
    using p(6) [of "sw Q" i this] k kt assms(2) by (auto simp: live_def pools' mon' sw_def)
  have on: "on_monitor S' i = on_monitor S i" for i by (simp add: on_monitor_def pools')
  have "pinv I S'"
  proof (rule pinvI; (unfold live on)?)
    show "finite I" by (fact p)
    show "distinct (m_objs (pools S' Q))" for Q unfolding pools' by (fact p)
    show "set (m_objs (pools S' Q)) \<inter> I = {}" for Q unfolding pools' by (fact p)
    show "set (m_objs (pools S' Q)) \<inter> set (m_objs (pools S' R)) = {}" if "Q \<noteq> R" for Q R
      unfolding pools' using that sw(1) by (intro p(4)) blast
    show "dom (entries S') = I \<union> (\<Union>Q. set (m_objs (pools S' Q)))"
      unfolding pools' using sw(2) [of "\<lambda>Q. set (m_objs (pools S Q))"] p(5) by simp
    show "Q = R" if "m_monitor (pools S' Q) = Some j" "m_monitor (pools S' R) = Some j" for Q R j
      using p(6) [of "sw Q" j "sw R"] that sw(1) by (simp add: pools')
    show "owner (monitors S' j) = Q" if l: "Q \<noteq> rhs \<and> live S (sw Q) j" for Q j
    proof (cases "Q = this")
      case True
      then show ?thesis using l k by (simp add: mon' sw_def live_def)
    next
      case False
      then have "sw Q = Q" "live S Q j" using l by (auto simp: sw_def)
      moreover have "j \<noteq> k" "m_monitor (pools S this) \<noteq> Some j"
        using \<open>live S Q j\<close> k l False p(6) [of Q j rhs] p(6) [of Q j this] by (auto simp: live_def)
      ultimately show ?thesis using p(7) [of Q j] by (simp add: mon')
    qed
    show "m_outstanding (pools S' Q) = card (I \<inter> on_monitor S j)" if "Q \<noteq> rhs \<and> live S (sw Q) j" for Q j
      using p(8) [of "sw Q" j] pools'(3) [of Q] that by simp
    show "length (m_objs (pools S' Q)) \<le> m_maxPooled (pools S' Q)" if "Q \<noteq> rhs \<and> live S (sw Q) j" for Q j
      using p(9) [of "sw Q" j] pools'(3) [of Q] that by simp
    show "monitor e = j \<and> (\<not> m_abandoned (monitors S' j) \<longrightarrow> poolVersion e = m_poolVersion (pools S' Q))"
      if "m_monitor (pools S' Q) = Some j" "entries S' a = Some e" "a \<in> set (m_objs (pools S' Q))" for Q j a e
    proof -
      have e: "monitor e = j \<and> (\<not> m_abandoned (monitors S j) \<longrightarrow> poolVersion e = m_poolVersion (pools S (sw Q)))"
        using p(10) [of "sw Q" j a e] that by (simp add: pools')
      show ?thesis
      proof (cases "Q = rhs")
        case True
        then have "m_monitor (pools S this) = Some j" using that(1) assms(2) by (simp add: pools' sw_def)
        then show ?thesis using e by (simp add: mon')
      next
        case False
        then show ?thesis using e pools'(3) [of Q] by (simp add: mon')
      qed
    qed
    show "poolVersion e \<le> m_poolVersion (pools S' Q)" if "Q \<noteq> rhs \<and> live S (sw Q) (monitor e)" "entries S' a = Some e" for Q a e
      using p(11) [of "sw Q" e a] pools'(3) [of Q] that by (simp add: pools'(4))
    show "owner (monitors S' (monitor e)) \<noteq> rhs \<and> live S (sw (owner (monitors S' (monitor e)))) (monitor e)"
      if "entries S' a = Some e" "\<not> m_abandoned (monitors S' (monitor e))" for a e
    proof -
      let ?i = "monitor e"
      have na: "\<not> m_abandoned (monitors S ?i)" "m_monitor (pools S this) \<noteq> Some ?i" using that(2) by (simp_all add: mon')
      have l: "live S (owner (monitors S ?i)) ?i" using p(12) [of a e] that(1) na(1) by (simp add: pools')
      show ?thesis
      proof (cases "?i = k")
        case True
        then show ?thesis using k na(1) assms(2) by (simp add: mon' sw_def live_def)
      next
        case False
        then have "owner (monitors S ?i) \<noteq> this" "owner (monitors S ?i) \<noteq> rhs" using l na(2) k by (auto simp: live_def)
        then show ?thesis using False na(2) l by (simp add: mon' sw_def)
      qed
    qed
  qed
  then show ?thesis by (simp add: pools')
qed

section \<open>Reachable states\<close>

definition no_pools :: "'v PoolSystem" where
  "no_pools = \<lparr>pools = (\<lambda>_. \<lparr>m_monitor = None, m_poolVersion = 0, m_objs = [], m_maxPooled = 0, m_limit = 0, m_outstanding = 0,
       m_placement = (\<lambda>_. Inl Undefined_behaviour)\<rparr>),
     monitors = (\<lambda>_. \<lparr>m_abandoned = False, owner = 0, initial = Inr, fnl = id\<rparr>), entries = Map.empty, issued = []\<rparr>"

text \<open>
  Any sequence of operations on any number of pools.  New objects are at addresses that are not in use, and their
  constructor does not throw; initializers may.  \<open>Wait\<close> and \<open>WaitFor\<close> obtain an element once their condition holds.
\<close>

inductive pool_reach :: "'v PoolSystem \<Rightarrow> bool" where
  pool_reach_none: "pool_reach no_pools"
| pool_reach_new: "pool_reach S \<Longrightarrow> m_monitor (pools S P) = None \<Longrightarrow> m_objs (pools S P) = [] \<Longrightarrow>
    (\<And>Q. m_monitor (pools S Q) \<noteq> Some k) \<Longrightarrow> (\<And>a e. entries S a = Some e \<Longrightarrow> monitor e \<noteq> k) \<Longrightarrow>
    pool_reach (pool_new P k limit mx place init final S)"
| pool_reach_get: "pool_reach S \<Longrightarrow> new \<notin> dom (entries S) \<Longrightarrow> m_placement (pools S P) new = Inr v \<Longrightarrow>
    pool_get P new S = Some (r, S') \<Longrightarrow> pool_reach S'"
| pool_reach_wait: "pool_reach S \<Longrightarrow> new \<notin> dom (entries S) \<Longrightarrow> m_placement (pools S P) new = Inr v \<Longrightarrow> m_monitor (pools S P) = Some k \<Longrightarrow>
    ObtainElementUnsafe P k new S = Some (r, S') \<Longrightarrow> pool_reach S'"
| pool_reach_release: "pool_reach S \<Longrightarrow> a \<in> set (issued S) \<Longrightarrow> pool_reach (pool_release a S)"
| pool_reach_clear: "pool_reach S \<Longrightarrow> ClearCachedEntities P S = Inr S' \<Longrightarrow> pool_reach S'"
| pool_reach_max: "pool_reach S \<Longrightarrow> SetMaximumPooledEntities P mx S = Inr S' \<Longrightarrow> pool_reach S'"
| pool_reach_limit: "pool_reach S \<Longrightarrow> SetOutstandingLimit P l S = Inr S' \<Longrightarrow> pool_reach S'"
| pool_reach_destroy: "pool_reach S \<Longrightarrow> pool_reach (pool_destroy P S)"
| pool_reach_move: "pool_reach S \<Longrightarrow> this \<noteq> rhs \<Longrightarrow> pool_move this rhs S = Inr S' \<Longrightarrow> pool_reach S'"

lemma no_pools_ok: "pool_ok no_pools"
  by (simp add: pool_ok_def pinv_def no_pools_def live_def)

lemma pool_reach_ok: "pool_reach S \<Longrightarrow> pool_ok S"
proof (induction rule: pool_reach.induct)
  case pool_reach_none
  then show ?case by (rule no_pools_ok)
next
  case (pool_reach_new S P k limit mx place init final)
  from pool_new_inv [OF _ pool_reach_new(2-5)] pool_reach_new.IH show ?case
    by (simp add: pool_ok_def) (simp add: pool_new_def)
next
  case (pool_reach_get S new P v r S')
  then show ?case using pool_get_inv [of S new P v r S'] by blast
next
  case (pool_reach_wait S new P v k r S')
  then show ?case using ObtainElementUnsafe_inv [of S new P k v r S'] by blast
next
  case (pool_reach_release S a)
  then show ?case using pool_release_inv [of S a] by blast
next
  case (pool_reach_clear S P S')
  then show ?case using clear_cached_inv by (auto simp: ClearCachedEntities_def split: option.splits)
next
  case (pool_reach_max S P mx S')
  then show ?case using set_max_pooled_inv by (auto simp: SetMaximumPooledEntities_def split: option.splits)
next
  case (pool_reach_limit S P l S')
  then show ?case using set_limit_inv by (auto simp: SetOutstandingLimit_def pool_ok_def split: option.splits if_splits)
next
  case (pool_reach_destroy S P)
  then show ?case using pool_destroy_inv by blast
next
  case (pool_reach_move S this rhs S')
  then show ?case using pool_move_inv [of "set (issued S)" S this rhs S'] by (simp add: pool_ok_def)
qed

text \<open>
  C13.  Object pools account for their objects, in every reachable state: an allocated object is either issued to a client,
  once, or cached in one pool, so none leaks and none is used after it is freed; a pool that has not been abandoned counts as
  outstanding exactly the issued objects that will return to it, caches at most its maximum, and only
  objects that were made since its cache was last cleared.
\<close>

theorem pool_accounting:
  assumes "pool_reach S"
  shows "distinct (issued S) \<and> dom (entries S) = set (issued S) \<union> (\<Union>P. set (m_objs (pools S P))) \<and>
    (\<forall>P. distinct (m_objs (pools S P)) \<and> set (m_objs (pools S P)) \<inter> set (issued S) = {}) \<and>
    (\<forall>P Q. P \<noteq> Q \<longrightarrow> set (m_objs (pools S P)) \<inter> set (m_objs (pools S Q)) = {}) \<and>
    (\<forall>P k. m_monitor (pools S P) = Some k \<longrightarrow> \<not> m_abandoned (monitors S k) \<longrightarrow>
       GetOutstanding P S = card {a \<in> set (issued S). \<exists>e. entries S a = Some e \<and> monitor e = k} \<and>
       GetCached P S \<le> m_maxPooled (pools S P) \<and>
       (\<forall>a \<in> set (m_objs (pools S P)). \<exists>e. entries S a = Some e \<and> monitor e = k \<and> poolVersion e = m_poolVersion (pools S P)))"
proof -
  have ok: "distinct (issued S)" "pinv (set (issued S)) S" using pool_reach_ok [OF assms] by (simp_all add: pool_ok_def)
  note p = pinvD [OF ok(2)]
  have "set (issued S) \<inter> on_monitor S k = {a \<in> set (issued S). \<exists>e. entries S a = Some e \<and> monitor e = k}" for k
    by (auto simp: on_monitor_def)
  moreover have "\<exists>e. entries S a = Some e \<and> monitor e = k \<and> poolVersion e = m_poolVersion (pools S P)"
    if "m_monitor (pools S P) = Some k" "\<not> m_abandoned (monitors S k)" "a \<in> set (m_objs (pools S P))" for P k a
    using p(5) p(10) [OF that(1) _ that(3)] that(2,3) by blast
  ultimately show ?thesis using ok(1) p(2-5) p(8,9) by (simp add: GetOutstanding_def GetCached_def live_def)
qed

definition demo_pool :: "nat PoolSystem" where
  "demo_pool = pool_new 0 0 5 5 (\<lambda>_. Inr 1) Inr id no_pools"

lemma demo_pool_get: "pool_get 0 10 demo_pool = Some (Inr (Some 10), snd (the (pool_get 0 10 demo_pool)))"
  "issued (snd (the (pool_get 0 10 demo_pool))) = [10]"
  "entries (snd (the (pool_get 0 10 demo_pool))) = [10 \<mapsto> \<lparr>monitor = 0, poolVersion = 0, obj = 1\<rparr>]"
  "m_monitor (pools (snd (the (pool_get 0 10 demo_pool))) 0) = Some 0" "\<not> m_abandoned (monitors (snd (the (pool_get 0 10 demo_pool))) 0)"
  by (simp_all add: demo_pool_def pool_new_def pool_get_def ObtainElementUnsafe_def Let_def no_pools_def issue_def)

theorem pool_accounting_witness: "GetOutstanding 0 (snd (the (pool_get 0 10 demo_pool))) = 1"
proof -
  have "pool_reach demo_pool"
    unfolding demo_pool_def by (intro pool_reach_new pool_reach_none) (simp_all add: no_pools_def)
  then have "pool_reach (snd (the (pool_get 0 10 demo_pool)))"
    using pool_reach_get [OF _ _ _ demo_pool_get(1)] by (simp add: demo_pool_def pool_new_def no_pools_def)
  from pool_accounting [OF this] have "GetOutstanding 0 (snd (the (pool_get 0 10 demo_pool))) =
      card {a \<in> set (issued (snd (the (pool_get 0 10 demo_pool)))).
        \<exists>e. entries (snd (the (pool_get 0 10 demo_pool))) a = Some e \<and> monitor e = 0}"
    using demo_pool_get(4,5) by simp
  also have "\<dots> = card {a \<in> set [10::nat]. \<exists>e. [10 \<mapsto> \<lparr>monitor = 0, poolVersion = 0, obj = 1::nat\<rparr>] a = Some e \<and> monitor e = 0}"
    unfolding demo_pool_get(2,3) ..
  also have "{a \<in> set [10::nat]. \<exists>e. [10 \<mapsto> \<lparr>monitor = 0, poolVersion = 0, obj = 1::nat\<rparr>] a = Some e \<and> monitor e = 0} = {10}" by auto
  finally show ?thesis by simp
qed

text \<open>\<open>Preallocate\<close> gives back what it has obtained, on every path.\<close>

lemma return_entry_frame:
  "dom (entries (return_entry a S)) \<subseteq> dom (entries S) \<and> m_placement (pools (return_entry a S) Q) = m_placement (pools S Q)"
  by (auto simp: return_entry_def ReturnUnsafe_def Let_def dom_def split: option.splits if_splits)

lemma pool_get_frame:
  fixes S :: "'v PoolSystem"
  assumes "pool_get P new S = Some (r, S')"
  shows "dom (entries S') \<subseteq> insert new (dom (entries S)) \<and> m_placement (pools S' Q) = m_placement (pools S Q)"
proof -
  have ret: "entries (return_entry new T) x = Some y \<Longrightarrow> \<exists>z. entries T x = Some z"
      "m_placement (pools (return_entry new T) Q) = m_placement (pools T Q)" for T :: "'v PoolSystem" and x y
    using return_entry_frame [of new T] by blast+
  show ?thesis
  proof (cases "m_monitor (pools S P)")
    case (Some k)
    show ?thesis
    proof (cases "m_limit (pools S P) \<le> m_outstanding (pools S P)")
      case False
      then have o: "ObtainElementUnsafe P k new S = Some (r, S')" using assms Some by (simp add: pool_get_def)
      show ?thesis
      proof (cases "m_objs (pools S P) = []")
        case True
        then show ?thesis
          using o by (auto simp: ObtainElementUnsafe_def Let_def issue_def ret(2) split: sum.splits dest!: ret(1))
      next
        case False
        then show ?thesis
          using o by (auto simp: ObtainElementUnsafe_def Let_def issue_def split: sum.splits option.splits if_splits)
      qed
    qed (use assms Some in \<open>auto simp: pool_get_def\<close>)
  qed (use assms in \<open>auto simp: pool_get_def\<close>)
qed

lemma fold_release_inv:
  "pool_ok S \<Longrightarrow> issued S = got @ rest \<Longrightarrow> pool_ok (fold pool_release got S) \<and> issued (fold pool_release got S) = rest"
proof (induction got arbitrary: S)
  case (Cons a got)
  then have "pool_ok (pool_release a S)" "issued (pool_release a S) = got @ rest" using pool_release_inv [of S a] by simp_all
  then show ?case using Cons.IH by simp
qed simp

lemma preallocate_loop_inv:
  assumes "pool_ok S" "issued S = got @ rest" "preallocate_loop P news got S = Some (r, S')"
    "\<forall>new \<in> set news. \<exists>v. m_placement (pools S P) new = Inr v" "set news \<inter> dom (entries S) = {}" "distinct news"
  shows "pool_ok S' \<and> issued S' = rest"
  using assms
proof (induction P news got S rule: preallocate_loop.induct)
  case (1 P got S)
  then show ?case using fold_release_inv [of S got rest] by simp
next
  case (2 P new news got S)
  obtain x S1 where g: "pool_get P new S = Some (x, S1)" using 2(5) by (cases "pool_get P new S") auto
  obtain v where v: "m_placement (pools S P) new = Inr v" using 2(6) by auto
  have "new \<notin> dom (entries S)" using 2(7) by auto
  note i = pool_get_inv [OF 2(3) this v g]
  note f = pool_get_frame [OF g, of P]
  have news: "\<forall>new \<in> set news. \<exists>v. m_placement (pools S1 P) new = Inr v" "set news \<inter> dom (entries S1) = {}" "distinct news"
    using f 2(6-8) by auto
  show ?case
  proof (cases x)
    case (Inl e)
    then show ?thesis using 2(4,5) g i fold_release_inv [of S1 got rest] by simp
  next
    case (Inr y)
    show ?thesis
    proof (cases y)
      case None
      then show ?thesis using 2(1) [OF g [THEN sym, THEN sym]] Inr 2(4,5) g i news by simp
    next
      case (Some a)
      then show ?thesis using 2(2) [OF g [THEN sym, THEN sym]] Inr 2(4,5) g i news by simp
    qed
  qed
qed

text \<open>
  A constructor that throws costs the pool one of its objects for ever: the count of outstanding objects has been
  incremented and nothing decrements it, so that a pool with limit one never issues an object again.
\<close>

lemma throwing_constructor_loses_slot:
  assumes "m_monitor (pools S P) = Some k" "m_objs (pools S P) = []" "m_limit (pools S P) = 1" "m_outstanding (pools S P) = 0"
    "m_placement (pools S P) new = Inl x" "issued S = []"
  shows "\<exists>S'. pool_get P new S = Some (Inl x, S') \<and> issued S' = [] \<and> GetOutstanding P S' = 1 \<and>
    (\<forall>new'. pool_get P new' S' = Some (Inr None, S'))"
  using assms by (simp add: pool_get_def ObtainElementUnsafe_def Let_def GetOutstanding_def)

lemma throwing_constructor_loses_slot_witness:
  "\<exists>S'. pool_get 0 7 (pool_new 0 0 1 5 (\<lambda>_. Inl (runtime_error ''no'')) Inr id no_pools :: nat PoolSystem) = Some (Inl (runtime_error ''no''), S') \<and>
     GetOutstanding 0 S' = 1 \<and> pool_get 0 8 S' = Some (Inr None, S')"
  using throwing_constructor_loses_slot [of "pool_new 0 0 1 5 (\<lambda>_. Inl (runtime_error ''no'')) Inr id no_pools :: nat PoolSystem" 0 0 7 "runtime_error ''no''"]
  by (auto simp: pool_new_def no_pools_def)

end
