(* ===== verification/Signal.thy ===== *)
theory Signal
  imports Prelude "HOL-Library.Word"
begin

text \<open>
  Signals (\<open>auto_signal.h\<close>), with the list of delayed calls (\<open>atomic_list.{h,cpp}\<close>) and registrations
  (\<open>registration.h\<close>), as one thread sees them: the handlers of a signal may attach and detach
  handlers and raise the signal again while it is being asserted, and all of this is delayed until the
  handlers have returned.  What several threads do to each other is in \<open>Signal_Protocol\<close>.

  The listeners are a doubly linked list in a heap of entries.  \<open>None\<close> is a loop that never ends.
\<close>

datatype SignalState = Free | Updating | Asserting | Deferred

record entry_base =
  pFlink :: ptr
  pBlink :: ptr

text \<open>What can wait in the list of delayed calls.  A cancelled link or unlink has a null entry.\<close>

datatype 'a callable = callable_link ptr | callable_unlink ptr | callable_signal 'a | callable_fn nat

datatype 'a called = Called addr 'a | Invoked nat

record 'a signal =
  sig_state :: SignalState
  m_pFirstListener :: ptr
  m_pLastListener :: ptr
  sig_entries :: "addr \<rightharpoonup> entry_base"
  m_delayedCalls :: "'a callable list"
  m_chainID :: "32 word"
  sig_log :: "'a called list"

definition signal_new :: "'a signal" where
  "signal_new = \<lparr>sig_state = Free, m_pFirstListener = None, m_pLastListener = None, sig_entries = Map.empty,
     m_delayedCalls = [], m_chainID = 0, sig_log = []\<rparr>"

definition has_listeners :: "'a signal \<Rightarrow> bool" where
  "has_listeners s \<longleftrightarrow> m_pFirstListener s \<noteq> None"

definition is_executing :: "'a signal \<Rightarrow> bool" where
  "is_executing s = (case sig_state s of
     Free \<Rightarrow> False | Updating \<Rightarrow> False | Asserting \<Rightarrow> True | Deferred \<Rightarrow> True)"

section \<open>The list of delayed calls\<close>

text \<open>New entries are linked in front of the head.\<close>

definition push_entry :: "'a callable \<Rightarrow> 'a signal \<Rightarrow> 32 word \<times> 'a signal" where
  "push_entry c s = (m_chainID s, s\<lparr>m_delayedCalls := c # m_delayedCalls s\<rparr>)"

text \<open>\<open>release\<close> turns the links around, one entry after the other.\<close>

fun flip_links :: "'b list \<Rightarrow> 'b list \<Rightarrow> 'b list" where
  "flip_links [] retVal = retVal"
| "flip_links (pHead # pNext) retVal = flip_links pNext (pHead # retVal)"

definition release :: "'a signal \<Rightarrow> 'a callable list \<times> 'a signal" where
  "release s = (flip_links (m_delayedCalls s) [], s\<lparr>m_delayedCalls := [], m_chainID := m_chainID s + 1\<rparr>)"

section \<open>The list of listeners\<close>

definition get_entry :: "addr \<Rightarrow> 'a signal \<Rightarrow> entry_base result" where
  "get_entry e s = (case sig_entries s e of None \<Rightarrow> Inl Undefined_behaviour | Some x \<Rightarrow> Inr x)"

definition set_pFlink :: "addr \<Rightarrow> ptr \<Rightarrow> 'a signal \<Rightarrow> 'a signal result" where
  "set_pFlink e v s = bindR (get_entry e s) (\<lambda>x. Inr (s\<lparr>sig_entries := (sig_entries s)(e \<mapsto> x\<lparr>pFlink := v\<rparr>)\<rparr>))"

definition set_pBlink :: "addr \<Rightarrow> ptr \<Rightarrow> 'a signal \<Rightarrow> 'a signal result" where
  "set_pBlink e v s = bindR (get_entry e s) (\<lambda>x. Inr (s\<lparr>sig_entries := (sig_entries s)(e \<mapsto> x\<lparr>pBlink := v\<rparr>)\<rparr>))"

definition new_entry :: "addr \<Rightarrow> 'a signal \<Rightarrow> 'a signal" where
  "new_entry e s = s\<lparr>sig_entries := (sig_entries s)(e \<mapsto> \<lparr>pFlink = None, pBlink = None\<rparr>)\<rparr>"

definition delete_entry :: "addr \<Rightarrow> 'a signal \<Rightarrow> 'a signal" where
  "delete_entry e s = s\<lparr>sig_entries := (sig_entries s)(e := None)\<rparr>"

definition LinkUnsafe :: "addr \<Rightarrow> 'a signal \<Rightarrow> 'a signal result" where
  "LinkUnsafe e s =
     bindR (set_pBlink e (m_pLastListener s) s) (\<lambda>s1.
     bindR (case m_pLastListener s1 of Some l \<Rightarrow> set_pFlink l (Some e) s1 | None \<Rightarrow> Inr s1) (\<lambda>s2.
     let s3 = (if m_pFirstListener s2 = None then s2\<lparr>m_pFirstListener := Some e\<rparr> else s2)
     in Inr (s3\<lparr>m_pLastListener := Some e\<rparr>)))"

text \<open>The two ends of the list, then the neighbours of the entry.\<close>

definition unlink_first :: "addr \<Rightarrow> 'a signal \<Rightarrow> 'a signal result" where
  "unlink_first e s =
     (if m_pFirstListener s = Some e then
        bindR (get_entry e s) (\<lambda>x.
        let s1 = s\<lparr>m_pFirstListener := pFlink x\<rparr>
        in case pFlink x of Some f \<Rightarrow> set_pBlink f None s1 | None \<Rightarrow> Inr s1)
      else Inr s)"

definition unlink_last :: "addr \<Rightarrow> 'a signal \<Rightarrow> 'a signal result" where
  "unlink_last e s =
     (if m_pLastListener s = Some e then
        bindR (get_entry e s) (\<lambda>x.
        let s1 = s\<lparr>m_pLastListener := pBlink x\<rparr>
        in case pBlink x of Some b \<Rightarrow> set_pFlink b None s1 | None \<Rightarrow> Inr s1)
      else Inr s)"

definition unlink_neighbours :: "addr \<Rightarrow> 'a signal \<Rightarrow> 'a signal result" where
  "unlink_neighbours e s =
     bindR (get_entry e s) (\<lambda>x.
     bindR (case pFlink x of Some f \<Rightarrow> set_pBlink f (pBlink x) s | None \<Rightarrow> Inr s) (\<lambda>s1.
     bindR (get_entry e s1) (\<lambda>y.
     case pBlink y of Some b \<Rightarrow> set_pFlink b (pFlink y) s1 | None \<Rightarrow> Inr s1)))"

definition UnlinkUnsafe :: "addr \<Rightarrow> 'a signal \<Rightarrow> 'a signal result" where
  "UnlinkUnsafe e s = bindR (unlink_first e s) (\<lambda>s1. bindR (unlink_last e s1) (unlink_neighbours e))"

section \<open>Attaching and detaching\<close>

text \<open>
  While the signal is asserted the request goes to the list of delayed calls.  The state \<open>Updating\<close>
  is left by another thread only.
\<close>

definition defer_call :: "'a callable \<Rightarrow> 'a signal \<Rightarrow> 'a signal" where
  "defer_call c s = (snd (push_entry c s))\<lparr>sig_state := Deferred\<rparr>"

definition Link :: "addr \<Rightarrow> 'a signal \<Rightarrow> 'a signal result option" where
  "Link e s = (case sig_state s of
     Free \<Rightarrow> Some (bindR (LinkUnsafe e (s\<lparr>sig_state := Updating\<rparr>)) (\<lambda>s1. Inr (s1\<lparr>sig_state := Free\<rparr>)))
   | Updating \<Rightarrow> None
   | _ \<Rightarrow> Some (Inr (defer_call (callable_link (Some e)) s)))"

text \<open>\<open>Unlink\<close> owns the entry: it is deleted at the end, or by the delayed call.\<close>

definition Unlink :: "addr \<Rightarrow> 'a signal \<Rightarrow> (bool \<times> 'a signal) result option" where
  "Unlink e s = (case sig_state s of
     Free \<Rightarrow> Some (bindR (UnlinkUnsafe e (s\<lparr>sig_state := Updating\<rparr>))
               (\<lambda>s1. Inr (True, delete_entry e (s1\<lparr>sig_state := Free\<rparr>))))
   | Updating \<Rightarrow> None
   | _ \<Rightarrow> Some (Inr (False, defer_call (callable_unlink (Some e)) s)))"

text \<open>\<open>operator+=\<close> at the fresh address \<open>e\<close>; \<open>operator-=\<close> of a registration.\<close>

definition signal_add :: "addr \<Rightarrow> 'a signal \<Rightarrow> 'a signal result option" where
  "signal_add e s = Link e (new_entry e s)"

record registration_t =
  reg_owner :: ptr
  reg_pobj :: ptr

definition signal_remove ::
  "addr \<Rightarrow> registration_t \<Rightarrow> 'a signal \<Rightarrow> (bool \<times> registration_t \<times> 'a signal) result option" where
  "signal_remove self rhs s =
     (if reg_owner rhs \<noteq> Some self then
        Some (Inl (autowiring_error ''Attempted to unlink a registration on an unrelated signal''))
      else (case reg_pobj rhs of
              None \<Rightarrow> Some (Inr (True, rhs, s))
            | Some e \<Rightarrow> map_option (\<lambda>r. bindR r (\<lambda>(b, s1). Inr (b, rhs\<lparr>reg_pobj := None\<rparr>, s1))) (Unlink e s)))"

section \<open>Raising the signal\<close>

text \<open>
  What a handler does to the signal when it is called: it attaches a handler at a fresh address,
  detaches one, raises the signal or invokes a function in its call order.  The behaviour of the
  handlers and of the invoked functions, with whether they throw, are parameters.
\<close>

datatype 'a action = Do_link addr | Do_unlink addr | Do_signal 'a | Do_invoke nat

record 'a handlers =
  on_call :: "addr \<Rightarrow> 'a \<Rightarrow> 'a action list \<times> bool"
  on_invoke :: "nat \<Rightarrow> 'a action list \<times> bool"

definition try_enter :: "'a signal \<Rightarrow> (bool \<times> 'a signal) option" where
  "try_enter s = (case sig_state s of
     Free \<Rightarrow> Some (True, s\<lparr>sig_state := Asserting\<rparr>)
   | Updating \<Rightarrow> None
   | _ \<Rightarrow> Some (False, s))"

text \<open>
  \<open>handoff\<close>, which is reached only if \<open>try_enter\<close> has failed: one thread finds the signal asserted.
\<close>

definition handoff :: "'a callable \<Rightarrow> 'a signal \<Rightarrow> 'a signal option" where
  "handoff c s = (case sig_state s of
     Asserting \<Rightarrow> Some (defer_call c s) | Deferred \<Rightarrow> Some (defer_call c s) | _ \<Rightarrow> None)"

definition perform :: "'a action \<Rightarrow> 'a signal \<Rightarrow> 'a signal result option" where
  "perform a s = (case a of
     Do_link e \<Rightarrow> signal_add e s
   | Do_unlink e \<Rightarrow> map_option (\<lambda>r. bindR r (\<lambda>(b, s1). Inr s1)) (Unlink e s)
   | Do_signal x \<Rightarrow> map_option Inr (handoff (callable_signal x) s)
   | Do_invoke f \<Rightarrow> map_option Inr (handoff (callable_fn f) s))"

fun perform_all :: "'a action list \<Rightarrow> 'a signal \<Rightarrow> 'a signal result option" where
  "perform_all [] s = Some (Inr s)"
| "perform_all (a # as) s = Option.bind (perform a s)
     (\<lambda>r. case r of Inl e \<Rightarrow> Some (Inl e) | Inr s1 \<Rightarrow> perform_all as s1)"

definition log_call :: "'a called \<Rightarrow> 'a signal \<Rightarrow> 'a signal" where
  "log_call c s = s\<lparr>sig_log := sig_log s @ [c]\<rparr>"

text \<open>\<open>SignalUnsafe\<close> from the entry \<open>cur\<close> on: whether an exception ended it, and the signal after it.\<close>

partial_function (option) SignalUnsafe ::
  "'a handlers \<Rightarrow> 'a \<Rightarrow> ptr \<Rightarrow> 'a signal \<Rightarrow> (bool \<times> 'a signal) result option" where
  "SignalUnsafe h args cur s =
     (case cur of
        None \<Rightarrow> Some (Inr (False, s))
      | Some e \<Rightarrow>
          Option.bind (perform_all (fst (on_call h e args)) (log_call (Called e args) s)) (\<lambda>r.
          case r of
            Inl err \<Rightarrow> Some (Inl err)
          | Inr s1 \<Rightarrow>
              if snd (on_call h e args) then Some (Inr (True, s1))
              else (case get_entry e s1 of
                      Inl err \<Rightarrow> Some (Inl err)
                    | Inr x \<Rightarrow> SignalUnsafe h args (pFlink x) s1)))"

text \<open>One delayed call; its exceptions are eaten.\<close>

definition run_callable :: "'a handlers \<Rightarrow> 'a callable \<Rightarrow> 'a signal \<Rightarrow> 'a signal result option" where
  "run_callable h c s = (case c of
     callable_link None \<Rightarrow> Some (Inr s)
   | callable_link (Some e) \<Rightarrow> Some (LinkUnsafe e s)
   | callable_unlink None \<Rightarrow> Some (Inr s)
   | callable_unlink (Some e) \<Rightarrow> Some (bindR (UnlinkUnsafe e s) (\<lambda>s1. Inr (delete_entry e s1)))
   | callable_signal x \<Rightarrow> map_option (\<lambda>r. bindR r (\<lambda>(b, s1). Inr s1)) (SignalUnsafe h x (m_pFirstListener s) s)
   | callable_fn f \<Rightarrow> perform_all (fst (on_invoke h f)) (log_call (Invoked f) s))"

fun run_chain :: "'a handlers \<Rightarrow> 'a callable list \<Rightarrow> 'a signal \<Rightarrow> 'a signal result option" where
  "run_chain h [] s = Some (Inr s)"
| "run_chain h (c # cs) s = Option.bind (run_callable h c s)
     (\<lambda>r. case r of Inl e \<Rightarrow> Some (Inl e) | Inr s1 \<Rightarrow> run_chain h cs s1)"

partial_function (option) leave :: "'a handlers \<Rightarrow> 'a signal \<Rightarrow> 'a signal result option" where
  "leave h s =
     (case sig_state s of
        Asserting \<Rightarrow> Some (Inr (s\<lparr>sig_state := Free\<rparr>))
      | Deferred \<Rightarrow>
          Option.bind (run_chain h (fst (release s)) ((snd (release s))\<lparr>sig_state := Asserting\<rparr>)) (\<lambda>r.
          case r of Inl e \<Rightarrow> Some (Inl e) | Inr s1 \<Rightarrow> leave h s1)
      | _ \<Rightarrow> None)"

text \<open>\<open>operator()\<close> and \<open>invoke\<close> of a function that does not throw.\<close>

definition signal_call :: "'a handlers \<Rightarrow> 'a \<Rightarrow> 'a signal \<Rightarrow> 'a signal result option" where
  "signal_call h args s =
     Option.bind (try_enter s) (\<lambda>(entered, s1).
     if \<not> entered then map_option Inr (handoff (callable_signal args) s1)
     else Option.bind (SignalUnsafe h args (m_pFirstListener s1) s1) (\<lambda>r.
          case r of Inl e \<Rightarrow> Some (Inl e) | Inr (b, s2) \<Rightarrow> leave h s2))"

definition signal_invoke :: "'a handlers \<Rightarrow> nat \<Rightarrow> 'a signal \<Rightarrow> 'a signal result option" where
  "signal_invoke h f s =
     Option.bind (try_enter s) (\<lambda>(entered, s1).
     if \<not> entered then map_option Inr (handoff (callable_fn f) s1)
     else Option.bind (perform_all (fst (on_invoke h f)) (log_call (Invoked f) s1)) (\<lambda>r.
          case r of Inl e \<Rightarrow> Some (Inl e) | Inr s2 \<Rightarrow> leave h s2))"

text \<open>\<open>try_lock\<close> and \<open>unlock\<close> hold the signal in the asserting state.\<close>

definition signal_try_lock :: "'a signal \<Rightarrow> (bool \<times> 'a signal) option" where
  "signal_try_lock s = try_enter s"

definition signal_unlock :: "'a handlers \<Rightarrow> 'a signal \<Rightarrow> 'a signal result option" where
  "signal_unlock h s = leave h s"

section \<open>Moving and destroying\<close>

definition signal_move :: "'a signal \<Rightarrow> ('a signal \<times> 'a signal) result" where
  "signal_move rhs =
     (if m_delayedCalls rhs \<noteq> [] then
        Inl (autowiring_error ''Attempted to move a signal where pended lambdas still exist'')
      else Inr (signal_new\<lparr>m_pFirstListener := m_pFirstListener rhs, m_pLastListener := m_pLastListener rhs,
                  sig_entries := sig_entries rhs\<rparr>,
                rhs\<lparr>m_pFirstListener := None, m_pLastListener := None, sig_entries := Map.empty\<rparr>))"

text \<open>Move assignment swaps the listeners.\<close>

definition signal_assign :: "'a signal \<Rightarrow> 'a signal \<Rightarrow> 'a signal \<times> 'a signal" where
  "signal_assign s rhs =
     (s\<lparr>m_pFirstListener := m_pFirstListener rhs, m_pLastListener := m_pLastListener rhs, sig_entries := sig_entries rhs\<rparr>,
      rhs\<lparr>m_pFirstListener := m_pFirstListener s, m_pLastListener := m_pLastListener s, sig_entries := sig_entries s\<rparr>)"

text \<open>The loop of the destructor: \<open>prior\<close> is deleted once the loop has gone past it.\<close>

definition delete_ptr :: "ptr \<Rightarrow> 'a signal \<Rightarrow> 'a signal" where
  "delete_ptr p s = (case p of None \<Rightarrow> s | Some e \<Rightarrow> delete_entry e s)"

partial_function (option) dtor_loop :: "ptr \<Rightarrow> ptr \<Rightarrow> 'a signal \<Rightarrow> 'a signal result option" where
  "dtor_loop prior cur s =
     (case cur of
        None \<Rightarrow> Some (Inr (delete_ptr prior s))
      | Some e \<Rightarrow>
          (case get_entry e (delete_ptr prior s) of
             Inl err \<Rightarrow> Some (Inl err)
           | Inr x \<Rightarrow> dtor_loop (Some e) (pFlink x) (delete_ptr prior s)))"

definition signal_dtor :: "'a signal \<Rightarrow> 'a signal result option" where
  "signal_dtor s = dtor_loop None (m_pFirstListener s) s"

end
