(* ===== verification/Signal_Props.thy ===== *)
theory Signal_Props
  imports Signal
begin

text \<open>
  Signals: the doubly linked list of listeners implements a list; a signal implements an abstract
  machine over a list of listeners and a queue of pending requests.
\<close>

section \<open>Doubly linked lists\<close>

definition first_of :: "addr list \<Rightarrow> ptr \<Rightarrow> ptr" where
  "first_of xs n = (case xs of [] \<Rightarrow> n | y # _ \<Rightarrow> Some y)"

definition last_of :: "ptr \<Rightarrow> addr list \<Rightarrow> ptr" where
  "last_of p xs = (if xs = [] then p else Some (last xs))"

lemma first_of_simps [simp]: "first_of [] n = n" "first_of (x # xs) n = Some x"
  by (simp_all add: first_of_def)

lemma last_of_simps [simp]: "last_of p [] = p" "last_of p (xs @ [x]) = Some x" "last_of p (x # xs) = last_of (Some x) xs"
  by (simp_all add: last_of_def)

lemma first_of_append [simp]: "first_of (xs @ ys) n = first_of xs (first_of ys n)"
  by (cases xs) simp_all

lemma first_of_ne: "first_of xs (Some y) \<noteq> None"
  by (cases xs) simp_all

lemma last_of_append [simp]: "last_of p (xs @ ys) = last_of (last_of p xs) ys"
  by (induction xs arbitrary: p) simp_all

fun seg :: "(addr \<rightharpoonup> entry_base) \<Rightarrow> ptr \<Rightarrow> addr list \<Rightarrow> ptr \<Rightarrow> bool" where
  "seg E p [] n \<longleftrightarrow> True"
| "seg E p (x # xs) n \<longleftrightarrow> E x = Some \<lparr>pFlink = first_of xs n, pBlink = p\<rparr> \<and> seg E (Some x) xs n"

lemma seg_append [simp]:
  "seg E p (xs @ ys) n \<longleftrightarrow> seg E p xs (first_of ys n) \<and> seg E (last_of p xs) ys n"
  by (induction xs arbitrary: p) simp_all

lemma seg_upd [simp]: "x \<notin> set xs \<Longrightarrow> seg (E(x := v)) p xs n \<longleftrightarrow> seg E p xs n"
  by (induction xs arbitrary: p) auto

lemma seg_alloc: "seg E p xs n \<Longrightarrow> x \<in> set xs \<Longrightarrow> E x \<noteq> None"
  by (induction xs arbitrary: p) auto

definition listeners_are :: "'a signal \<Rightarrow> addr list \<Rightarrow> bool" where
  "listeners_are s xs \<longleftrightarrow> distinct xs \<and> m_pFirstListener s = first_of xs None \<and>
     m_pLastListener s = last_of None xs \<and> seg (sig_entries s) None xs None"

text \<open>Two signals that differ in their lists of listeners only.\<close>

definition same_rest :: "'a signal \<Rightarrow> 'a signal \<Rightarrow> bool" where
  "same_rest s s' \<longleftrightarrow> sig_state s' = sig_state s \<and> m_delayedCalls s' = m_delayedCalls s \<and>
     m_chainID s' = m_chainID s \<and> sig_log s' = sig_log s"

lemma LinkUnsafe_ok:
  assumes "listeners_are s xs" "e \<notin> set xs" "sig_entries s e = Some \<lparr>pFlink = None, pBlink = b\<rparr>"
  shows "\<exists>s'. LinkUnsafe e s = Inr s' \<and> listeners_are s' (xs @ [e]) \<and> same_rest s s' \<and>
    (\<forall>a. a \<notin> set (e # xs) \<longrightarrow> sig_entries s' a = sig_entries s a)"
proof (cases xs rule: rev_cases)
  case Nil
  then show ?thesis
    using assms by (simp add: LinkUnsafe_def listeners_are_def set_pBlink_def get_entry_def same_rest_def Let_def)
next
  case (snoc ys y)
  then show ?thesis
    using assms first_of_ne [of ys y] by (auto simp: LinkUnsafe_def listeners_are_def set_pBlink_def set_pFlink_def
      get_entry_def same_rest_def Let_def)
qed

lemma UnlinkUnsafe_ok:
  assumes "listeners_are s (as @ e # bs)"
  shows "\<exists>s'. UnlinkUnsafe e s = Inr s' \<and> listeners_are s' (as @ bs) \<and> same_rest s s' \<and>
    (\<forall>a. a \<notin> set (as @ bs) \<longrightarrow> a \<noteq> e \<longrightarrow> sig_entries s' a = sig_entries s a)"
proof (cases as rule: rev_cases)
  case Nil
  then show ?thesis
    using assms by (cases bs) (auto simp: UnlinkUnsafe_def unlink_first_def unlink_last_def unlink_neighbours_def
      listeners_are_def set_pBlink_def set_pFlink_def get_entry_def same_rest_def Let_def last_of_def)
next
  case (snoc cs c)
  show ?thesis
  proof (cases bs)
    case Nil
    then show ?thesis
      using assms snoc by (cases cs) (auto simp: UnlinkUnsafe_def unlink_first_def unlink_last_def unlink_neighbours_def
        listeners_are_def set_pBlink_def set_pFlink_def get_entry_def same_rest_def Let_def)
  next
    case (Cons d ds)
    have ne: "m_pFirstListener s \<noteq> Some e" "m_pLastListener s \<noteq> Some e"
    proof -
      have dis: "distinct (cs @ c # e # d # ds)" and ends: "m_pFirstListener s = first_of (cs @ [c]) None"
        "m_pLastListener s = Some (last (d # ds))"
        using assms snoc Cons by (simp_all add: listeners_are_def last_of_def del: last_of_append)
      show "m_pFirstListener s \<noteq> Some e" using dis ends(1) by (cases cs) auto
      show "m_pLastListener s \<noteq> Some e" using dis ends(2) last_in_set [of "d # ds"] by auto
    qed
    define c' d' where "c' = \<lparr>pFlink = Some d, pBlink = last_of None cs\<rparr>"
      and "d' = \<lparr>pFlink = first_of ds None, pBlink = Some c\<rparr>"
    have E: "sig_entries s e = Some \<lparr>pFlink = Some d, pBlink = Some c\<rparr>"
      "sig_entries s c = Some \<lparr>pFlink = Some e, pBlink = last_of None cs\<rparr>"
      "sig_entries s d = Some \<lparr>pFlink = first_of ds None, pBlink = Some e\<rparr>"
      and dis: "e \<noteq> c" "e \<noteq> d" "c \<noteq> d" "c \<notin> set cs" "d \<notin> set cs" "c \<notin> set ds" "d \<notin> set ds"
      using assms snoc Cons by (auto simp: listeners_are_def)
    have "UnlinkUnsafe e s = Inr (s\<lparr>sig_entries := (sig_entries s)(d \<mapsto> d', c \<mapsto> c')\<rparr>)"
      using ne E dis by (simp add: UnlinkUnsafe_def unlink_first_def unlink_last_def unlink_neighbours_def
        set_pBlink_def set_pFlink_def get_entry_def c'_def d'_def)
    moreover have "listeners_are (s\<lparr>sig_entries := (sig_entries s)(d \<mapsto> d', c \<mapsto> c')\<rparr>) (as @ bs)"
      using assms snoc Cons dis by (simp add: listeners_are_def c'_def d'_def)
    ultimately show ?thesis using snoc Cons by (simp add: same_rest_def)
  qed
qed

section \<open>The abstract signal\<close>

text \<open>
  A list of listeners, a queue of requests made while the signal is asserted, and the calls made so
  far.  \<open>a_used\<close> are the addresses that have been given to handlers.  A request to attach a handler at a
  used address, or to detach one that is not attached when the request is served, is an error.
\<close>

record 'a sig_spec =
  a_listeners :: "addr list"
  a_pending :: "'a action list"
  a_used :: "addr list"
  a_log :: "'a called list"

definition spec_new :: "'a sig_spec" where
  "spec_new = \<lparr>a_listeners = [], a_pending = [], a_used = [], a_log = []\<rparr>"

definition spec_defer :: "'a action \<Rightarrow> 'a sig_spec \<Rightarrow> 'a sig_spec result" where
  "spec_defer a t =
     (case a of
        Do_link e \<Rightarrow> if e \<in> set (a_used t) then Inl Undefined_behaviour
                     else Inr (t\<lparr>a_pending := a_pending t @ [a], a_used := e # a_used t\<rparr>)
      | _ \<Rightarrow> Inr (t\<lparr>a_pending := a_pending t @ [a]\<rparr>))"

definition spec_log :: "'a called \<Rightarrow> 'a sig_spec \<Rightarrow> 'a sig_spec" where
  "spec_log c t = t\<lparr>a_log := a_log t @ [c]\<rparr>"

fun spec_raise :: "'a handlers \<Rightarrow> 'a \<Rightarrow> addr list \<Rightarrow> 'a sig_spec \<Rightarrow> 'a sig_spec result" where
  "spec_raise h x [] t = Inr t"
| "spec_raise h x (e # es) t = bindR (foldR spec_defer (fst (on_call h e x)) (spec_log (Called e x) t))
     (\<lambda>t1. if snd (on_call h e x) then Inr t1 else spec_raise h x es t1)"

definition spec_unlink :: "addr \<Rightarrow> 'a sig_spec \<Rightarrow> 'a sig_spec result" where
  "spec_unlink e t = (if e \<in> set (a_listeners t) then Inr (t\<lparr>a_listeners := remove1 e (a_listeners t)\<rparr>)
                      else Inl Undefined_behaviour)"

definition spec_invoke :: "'a handlers \<Rightarrow> nat \<Rightarrow> 'a sig_spec \<Rightarrow> 'a sig_spec result" where
  "spec_invoke h f t = foldR spec_defer (fst (on_invoke h f)) (spec_log (Invoked f) t)"

definition spec_serve :: "'a handlers \<Rightarrow> 'a action \<Rightarrow> 'a sig_spec \<Rightarrow> 'a sig_spec result" where
  "spec_serve h a t = (case a of
     Do_link e \<Rightarrow> Inr (t\<lparr>a_listeners := a_listeners t @ [e]\<rparr>)
   | Do_unlink e \<Rightarrow> spec_unlink e t
   | Do_signal x \<Rightarrow> spec_raise h x (a_listeners t) t
   | Do_invoke f \<Rightarrow> spec_invoke h f t)"

partial_function (option) spec_drain :: "'a handlers \<Rightarrow> 'a sig_spec \<Rightarrow> 'a sig_spec result option" where
  "spec_drain h t =
     (if a_pending t = [] then Some (Inr t)
      else (case foldR (spec_serve h) (a_pending t) (t\<lparr>a_pending := []\<rparr>) of
              Inl e \<Rightarrow> Some (Inl e) | Inr t1 \<Rightarrow> spec_drain h t1))"

text \<open>One request made while the signal is idle.\<close>

definition spec_exec :: "'a handlers \<Rightarrow> 'a action \<Rightarrow> 'a sig_spec \<Rightarrow> 'a sig_spec result option" where
  "spec_exec h a t =
     (case a of
        Do_link e \<Rightarrow> Some (if e \<in> set (a_used t) then Inl Undefined_behaviour
                           else Inr (t\<lparr>a_listeners := a_listeners t @ [e], a_used := e # a_used t\<rparr>))
      | Do_unlink e \<Rightarrow> Some (spec_unlink e t)
      | Do_signal x \<Rightarrow> (case spec_raise h x (a_listeners t) t of Inl e \<Rightarrow> Some (Inl e) | Inr t1 \<Rightarrow> spec_drain h t1)
      | Do_invoke f \<Rightarrow> (case spec_invoke h f t of Inl e \<Rightarrow> Some (Inl e) | Inr t1 \<Rightarrow> spec_drain h t1))"

definition sig_exec :: "'a handlers \<Rightarrow> 'a action \<Rightarrow> 'a signal \<Rightarrow> 'a signal result option" where
  "sig_exec h a s =
     (case a of
        Do_link e \<Rightarrow> signal_add e s
      | Do_unlink e \<Rightarrow> map_option (\<lambda>r. bindR r (\<lambda>(b, s1). Inr s1)) (Unlink e s)
      | Do_signal x \<Rightarrow> signal_call h x s
      | Do_invoke f \<Rightarrow> signal_invoke h f s)"

section \<open>Refinement\<close>

definition callable_of :: "'a action \<Rightarrow> 'a callable" where
  "callable_of a = (case a of Do_link e \<Rightarrow> callable_link (Some e) | Do_unlink e \<Rightarrow> callable_unlink (Some e)
     | Do_signal x \<Rightarrow> callable_signal x | Do_invoke f \<Rightarrow> callable_fn f)"

fun links :: "'a action list \<Rightarrow> addr list" where
  "links [] = []"
| "links (Do_link e # as) = e # links as"
| "links (_ # as) = links as"

lemma links_append [simp]: "links (as @ bs) = links as @ links bs"
  by (induction as rule: links.induct) simp_all

lemma flip_links_rev: "flip_links xs ys = rev xs @ ys"
  by (induction xs ys rule: flip_links.induct) simp_all

text \<open>
  The signal \<open>s\<close> represents \<open>t\<close> while it is asserted and the requests \<open>cs\<close> are being served.
\<close>

definition sig_rel :: "'a action list \<Rightarrow> 'a signal \<Rightarrow> 'a sig_spec \<Rightarrow> bool" where
  "sig_rel cs s t \<longleftrightarrow> listeners_are s (a_listeners t) \<and>
     m_delayedCalls s = rev (map callable_of (a_pending t)) \<and> sig_log s = a_log t \<and>
     sig_state s = (if a_pending t = [] then Asserting else Deferred) \<and>
     dom (sig_entries s) \<subseteq> set (a_used t) \<and> distinct (links (cs @ a_pending t)) \<and>
     (\<forall>e \<in> set (links (cs @ a_pending t)). e \<notin> set (a_listeners t) \<and>
        (\<exists>b. sig_entries s e = Some \<lparr>pFlink = None, pBlink = b\<rparr>))"

definition sig_idle :: "'a signal \<Rightarrow> 'a sig_spec \<Rightarrow> bool" where
  "sig_idle s t \<longleftrightarrow> listeners_are s (a_listeners t) \<and> m_delayedCalls s = [] \<and> a_pending t = [] \<and>
     sig_log s = a_log t \<and> sig_state s = Free \<and> dom (sig_entries s) \<subseteq> set (a_used t)"

lemma listeners_are_cong:
  "m_pFirstListener s' = m_pFirstListener s \<Longrightarrow> m_pLastListener s' = m_pLastListener s \<Longrightarrow>
   sig_entries s' = sig_entries s \<Longrightarrow> listeners_are s' xs \<longleftrightarrow> listeners_are s xs"
  by (simp add: listeners_are_def)

lemma listeners_new_entry: "e \<notin> set xs \<Longrightarrow> listeners_are (new_entry e s) xs \<longleftrightarrow> listeners_are s xs"
  by (simp add: listeners_are_def new_entry_def)

lemma listeners_delete_entry: "e \<notin> set xs \<Longrightarrow> listeners_are (delete_entry e s) xs \<longleftrightarrow> listeners_are s xs"
  by (simp add: listeners_are_def delete_entry_def)

lemma listeners_used:
  "listeners_are s xs \<Longrightarrow> dom (sig_entries s) \<subseteq> U \<Longrightarrow> set xs \<subseteq> U"
  using seg_alloc [of "sig_entries s" None xs None] by (auto simp: listeners_are_def dom_def)

lemma perform_ok:
  assumes "sig_rel cs s t" "spec_defer a t = Inr t1"
  shows "\<exists>s1. perform a s = Some (Inr s1) \<and> sig_rel cs s1 t1 \<and> a_listeners t1 = a_listeners t"
proof -
  have st: "sig_state s = Asserting \<or> sig_state s = Deferred" using assms(1) by (auto simp: sig_rel_def)
  have used: "set (a_listeners t) \<subseteq> set (a_used t)" using assms(1) listeners_used unfolding sig_rel_def by blast
  show ?thesis
  proof (cases a)
    case (Do_link e)
    then have e: "e \<notin> set (a_used t)" "t1 = t\<lparr>a_pending := a_pending t @ [a], a_used := e # a_used t\<rparr>"
      using assms(2) by (auto simp: spec_defer_def split: if_splits)
    have "sig_entries s e = None" using assms(1) e(1) by (auto simp: sig_rel_def dom_def)
    then have "e \<notin> set (links (cs @ a_pending t))" using assms(1) unfolding sig_rel_def by fastforce
    moreover have "e \<notin> set (a_listeners t)" using e(1) used by auto
    ultimately have fresh: "e \<notin> set (links (cs @ a_pending t))" "e \<notin> set (a_listeners t)" by blast+
    have "perform a s = Some (Inr (defer_call (callable_link (Some e)) (new_entry e s)))"
      using st Do_link by (auto simp: perform_def signal_add_def Link_def new_entry_def)
    moreover have "listeners_are (defer_call (callable_link (Some e)) (new_entry e s)) (a_listeners t)"
      using assms(1) fresh(2) listeners_new_entry [of e "a_listeners t" s]
      by (simp add: sig_rel_def listeners_are_def defer_call_def push_entry_def)
    moreover have "sig_rel cs (defer_call (callable_link (Some e)) (new_entry e s)) t1"
      using assms(1) e fresh calculation(2) Do_link
      by (auto simp: sig_rel_def defer_call_def push_entry_def new_entry_def callable_of_def)
    ultimately show ?thesis using e by simp
  qed (use assms st in \<open>auto simp: perform_def Unlink_def handoff_def spec_defer_def sig_rel_def defer_call_def push_entry_def
    callable_of_def listeners_are_def split: SignalState.splits\<close>)
qed

lemma perform_all_ok:
  "sig_rel cs s t \<Longrightarrow> foldR spec_defer as t = Inr t1 \<Longrightarrow>
   \<exists>s1. perform_all as s = Some (Inr s1) \<and> sig_rel cs s1 t1 \<and> a_listeners t1 = a_listeners t"
proof (induction as arbitrary: s t)
  case (Cons a as)
  then obtain t0 where t0: "spec_defer a t = Inr t0" "foldR spec_defer as t0 = Inr t1"
    by (auto simp: bindR_eq_Inr_iff)
  obtain s0 where "perform a s = Some (Inr s0)" "sig_rel cs s0 t0" "a_listeners t0 = a_listeners t"
    using perform_ok [OF Cons.prems(1) t0(1)] by blast
  then show ?case using Cons.IH [OF _ t0(2), of s0] by auto
qed simp

lemma sig_rel_log: "sig_rel cs s t \<Longrightarrow> sig_rel cs (log_call c s) (spec_log c t)"
  by (simp add: sig_rel_def log_call_def spec_log_def listeners_are_def)

lemma SignalUnsafe_ok:
  "sig_rel cs s t \<Longrightarrow> a_listeners t = ys @ es \<Longrightarrow> spec_raise h x es t = Inr t1 \<Longrightarrow>
   \<exists>b s1. SignalUnsafe h x (first_of es None) s = Some (Inr (b, s1)) \<and> sig_rel cs s1 t1"
proof (induction es arbitrary: s t ys)
  case Nil
  then show ?case by (auto simp: SignalUnsafe.simps [of h x None])
next
  case (Cons e es)
  let ?acts = "fst (on_call h e x)"
  obtain t0 where t0: "foldR spec_defer ?acts (spec_log (Called e x) t) = Inr t0"
    "(if snd (on_call h e x) then Inr t0 else spec_raise h x es t0) = Inr t1"
    using Cons.prems(3) by (auto simp: bindR_eq_Inr_iff)
  obtain s0 where s0: "perform_all ?acts (log_call (Called e x) s) = Some (Inr s0)" "sig_rel cs s0 t0"
    "a_listeners t0 = a_listeners t"
    using perform_all_ok [OF sig_rel_log [OF Cons.prems(1)] t0(1)] by (auto simp: spec_log_def)
  have "listeners_are s0 (ys @ e # es)" using s0 Cons.prems(2) by (simp add: sig_rel_def)
  then have nxt: "get_entry e s0 = Inr \<lparr>pFlink = first_of es None, pBlink = last_of None ys\<rparr>"
    by (simp add: listeners_are_def get_entry_def)
  show ?case
  proof (cases "snd (on_call h e x)")
    case True
    then show ?thesis using t0 s0 by (subst SignalUnsafe.simps) auto
  next
    case False
    then obtain b s1 where "SignalUnsafe h x (first_of es None) s0 = Some (Inr (b, s1))" "sig_rel cs s1 t1"
      using Cons.IH [OF s0(2), of "ys @ [e]"] t0(2) s0(3) Cons.prems(2) by auto
    then show ?thesis using False s0 nxt by (subst SignalUnsafe.simps) simp
  qed
qed

lemma remove1_split: "distinct xs \<Longrightarrow> e \<in> set xs \<Longrightarrow> \<exists>as bs. xs = as @ e # bs \<and> remove1 e xs = as @ bs"
  by (metis distinct_append in_set_conv_decomp not_distinct_conv_prefix remove1.simps(2) remove1_append
      split_list_first)

text \<open>The pending requests refer to entries that are not listeners, which linking and unlinking leave alone.\<close>

lemma link_served:
  assumes "sig_rel (Do_link e # cs) s t"
  shows "\<exists>s1. LinkUnsafe e s = Inr s1 \<and> sig_rel cs s1 (t\<lparr>a_listeners := a_listeners t @ [e]\<rparr>)"
proof -
  obtain b where e: "e \<notin> set (a_listeners t)" "sig_entries s e = Some \<lparr>pFlink = None, pBlink = b\<rparr>"
    "e \<notin> set (links (cs @ a_pending t))"
    using assms unfolding sig_rel_def by auto
  obtain s1 where s1: "LinkUnsafe e s = Inr s1" "listeners_are s1 (a_listeners t @ [e])" "same_rest s s1"
    "\<forall>a. a \<notin> set (e # a_listeners t) \<longrightarrow> sig_entries s1 a = sig_entries s a"
    using LinkUnsafe_ok [of s "a_listeners t" e b] assms e by (auto simp: sig_rel_def)
  have "sig_entries s1 a = sig_entries s a" if "a \<in> set (links (cs @ a_pending t))" for a
    using s1(4) assms e(3) that unfolding sig_rel_def by auto
  moreover have "dom (sig_entries s1) \<subseteq> set (a_used t)"
  proof
    fix a assume a: "a \<in> dom (sig_entries s1)"
    have "set (a_listeners t) \<subseteq> set (a_used t)" "e \<in> set (a_used t)"
      using assms listeners_used [of s "a_listeners t"] e(2) by (auto simp: sig_rel_def)
    then show "a \<in> set (a_used t)" using a s1(4) assms by (cases "a \<in> set (e # a_listeners t)") (auto simp: sig_rel_def)
  qed
  ultimately have "sig_rel cs s1 (t\<lparr>a_listeners := a_listeners t @ [e]\<rparr>)"
    using assms s1(2,3) e(3) unfolding sig_rel_def same_rest_def by auto
  then show ?thesis using s1(1) by blast
qed

lemma unlink_listeners:
  assumes "listeners_are s (a_listeners t)" "dom (sig_entries s) \<subseteq> set (a_used t)" "spec_unlink e t = Inr t1"
  shows "\<exists>s1. UnlinkUnsafe e s = Inr s1 \<and> same_rest s s1 \<and> listeners_are (delete_entry e s1) (a_listeners t1) \<and>
    t1 = t\<lparr>a_listeners := remove1 e (a_listeners t)\<rparr> \<and> dom (sig_entries (delete_entry e s1)) \<subseteq> set (a_used t) \<and>
    (\<forall>a. a \<notin> set (a_listeners t) \<longrightarrow> sig_entries (delete_entry e s1) a = sig_entries s a)"
proof -
  have e: "e \<in> set (a_listeners t)" "t1 = t\<lparr>a_listeners := remove1 e (a_listeners t)\<rparr>"
    using assms(3) by (auto simp: spec_unlink_def split: if_splits)
  have "distinct (a_listeners t)" using assms(1) by (simp add: listeners_are_def)
  from remove1_split [OF this e(1)] obtain as bs where
    ab: "a_listeners t = as @ e # bs" "remove1 e (a_listeners t) = as @ bs" by blast
  then have "e \<notin> set (as @ bs)" using assms(1) by (auto simp: listeners_are_def)
  moreover obtain s1 where s1: "UnlinkUnsafe e s = Inr s1" "listeners_are s1 (as @ bs)" "same_rest s s1"
    "\<forall>a. a \<notin> set (as @ bs) \<longrightarrow> a \<noteq> e \<longrightarrow> sig_entries s1 a = sig_entries s a"
    using UnlinkUnsafe_ok [of s as e bs] assms(1) ab by auto
  moreover have "dom (sig_entries (delete_entry e s1)) \<subseteq> set (a_used t)"
  proof
    fix a assume "a \<in> dom (sig_entries (delete_entry e s1))"
    then have a: "a \<noteq> e" "a \<in> dom (sig_entries s1)" by (auto simp: delete_entry_def split: if_splits)
    have "set (a_listeners t) \<subseteq> set (a_used t)" by (rule listeners_used [OF assms(1,2)])
    then show "a \<in> set (a_used t)" using a s1(4) assms(2) ab(1) by (cases "a \<in> set (as @ bs)") auto
  qed
  ultimately show ?thesis
    using e(2) ab listeners_delete_entry [of e "as @ bs" s1] by (auto simp: delete_entry_def)
qed

lemma unlink_served:
  assumes "sig_rel (Do_unlink e # cs) s t" "spec_unlink e t = Inr t1"
  shows "\<exists>s1. UnlinkUnsafe e s = Inr s1 \<and> sig_rel cs (delete_entry e s1) t1"
proof -
  obtain s1 where s1: "UnlinkUnsafe e s = Inr s1" "same_rest s s1" "listeners_are (delete_entry e s1) (a_listeners t1)"
    "t1 = t\<lparr>a_listeners := remove1 e (a_listeners t)\<rparr>" "dom (sig_entries (delete_entry e s1)) \<subseteq> set (a_used t)"
    "\<forall>a. a \<notin> set (a_listeners t) \<longrightarrow> sig_entries (delete_entry e s1) a = sig_entries s a"
    using unlink_listeners [OF _ _ assms(2), of s] assms(1) by (auto simp: sig_rel_def)
  have "sig_rel cs (delete_entry e s1) t1"
    using assms(1) s1(2-6) set_remove1_subset [of e "a_listeners t"]
    unfolding sig_rel_def same_rest_def by (auto simp: delete_entry_def)
  then show ?thesis using s1(1) by blast
qed

lemma sig_rel_Cons: "sig_rel (a # cs) s t \<Longrightarrow> sig_rel cs s t"
  by (cases a) (auto simp: sig_rel_def)

lemma run_callable_ok:
  assumes "sig_rel (a # cs) s t" "spec_serve h a t = Inr t1"
  shows "\<exists>s1. run_callable h (callable_of a) s = Some (Inr s1) \<and> sig_rel cs s1 t1"
proof (cases a)
  case (Do_link e)
  then show ?thesis using link_served [of e cs s t] assms by (auto simp: spec_serve_def run_callable_def callable_of_def)
next
  case (Do_unlink e)
  then show ?thesis using unlink_served [of e cs s t t1] assms
    by (auto simp: spec_serve_def run_callable_def callable_of_def)
next
  case (Do_signal x)
  have "m_pFirstListener s = first_of (a_listeners t) None" using assms(1) by (simp add: sig_rel_def listeners_are_def)
  then show ?thesis
    using SignalUnsafe_ok [OF sig_rel_Cons [OF assms(1)], of "[]" "a_listeners t" h x t1] Do_signal assms(2)
    by (auto simp: spec_serve_def run_callable_def callable_of_def)
next
  case (Do_invoke f)
  then show ?thesis
    using perform_all_ok [OF sig_rel_log [OF sig_rel_Cons [OF assms(1)]]] assms(2)
    by (fastforce simp: spec_serve_def spec_invoke_def run_callable_def callable_of_def)
qed

lemma run_chain_ok:
  "sig_rel cs s t \<Longrightarrow> foldR (spec_serve h) cs t = Inr t1 \<Longrightarrow>
   \<exists>s1. run_chain h (map callable_of cs) s = Some (Inr s1) \<and> sig_rel [] s1 t1"
proof (induction cs arbitrary: s t)
  case (Cons a cs)
  then obtain t0 where t0: "spec_serve h a t = Inr t0" "foldR (spec_serve h) cs t0 = Inr t1"
    by (auto simp: bindR_eq_Inr_iff)
  obtain s0 where "run_callable h (callable_of a) s = Some (Inr s0)" "sig_rel cs s0 t0"
    using run_callable_ok [OF Cons.prems(1) t0(1)] by blast
  then show ?case using Cons.IH [OF _ t0(2), of s0] by auto
qed simp

lemma leave_ok:
  "spec_drain h t = Some r \<Longrightarrow> sig_rel [] s t \<Longrightarrow> r = Inr t1 \<Longrightarrow>
   \<exists>s1. leave h s = Some (Inr s1) \<and> sig_idle s1 t1"
proof (induction arbitrary: s rule: spec_drain.raw_induct [rotated, consumes 1])
  case (1 rec h t r s)
  show ?case
  proof (cases "a_pending t = []")
    case True
    then show ?thesis using 1 by (auto simp: leave.simps [of h s] sig_rel_def sig_idle_def listeners_are_def)
  next
    case False
    then obtain t0 where t0: "foldR (spec_serve h) (a_pending t) (t\<lparr>a_pending := []\<rparr>) = Inr t0" "rec h t0 = Some (Inr t1)"
      using 1 by (auto split: sum.splits)
    let ?s = "(snd (release s))\<lparr>sig_state := Asserting\<rparr>"
    have "sig_rel (a_pending t) ?s (t\<lparr>a_pending := []\<rparr>)"
      using 1(3) by (simp add: sig_rel_def release_def listeners_are_def)
    from run_chain_ok [OF this t0(1)] obtain s0 where
      s0: "run_chain h (map callable_of (a_pending t)) ?s = Some (Inr s0)" "sig_rel [] s0 t0" by blast
    have "sig_state s = Deferred" "fst (release s) = map callable_of (a_pending t)"
      using 1(3) False by (simp_all add: sig_rel_def release_def flip_links_rev rev_map)
    then show ?thesis using 1(1) [OF t0(2) s0(2)] s0(1) by (subst leave.simps) simp
  qed
qed

lemma enter_rel: "sig_idle s t \<Longrightarrow> try_enter s = Some (True, s\<lparr>sig_state := Asserting\<rparr>) \<and> sig_rel [] (s\<lparr>sig_state := Asserting\<rparr>) t"
  by (auto simp: sig_idle_def sig_rel_def try_enter_def listeners_are_def)

lemma sig_exec_ok:
  assumes "sig_idle s t" "spec_exec h a t = Some (Inr t1)"
  shows "\<exists>s1. sig_exec h a s = Some (Inr s1) \<and> sig_idle s1 t1"
proof (cases a)
  case (Do_link e)
  then have e: "e \<notin> set (a_used t)" "t1 = t\<lparr>a_listeners := a_listeners t @ [e], a_used := e # a_used t\<rparr>"
    using assms(2) by (auto simp: spec_exec_def split: if_splits)
  let ?s = "(new_entry e s)\<lparr>sig_state := Updating\<rparr>"
  have e': "e \<notin> set (a_listeners t)" using assms(1) e(1) listeners_used unfolding sig_idle_def by blast
  then have "listeners_are ?s (a_listeners t)"
    using assms(1) listeners_new_entry [of e "a_listeners t" s] by (simp add: sig_idle_def listeners_are_def)
  from LinkUnsafe_ok [OF this e', of None] obtain s1 where s1: "LinkUnsafe e ?s = Inr s1"
    "listeners_are s1 (a_listeners t @ [e])" "same_rest ?s s1"
    "\<forall>a. a \<notin> set (e # a_listeners t) \<longrightarrow> sig_entries s1 a = sig_entries ?s a"
    by (auto simp: new_entry_def)
  have "sig_exec h a s = Some (Inr (s1\<lparr>sig_state := Free\<rparr>))"
    using Do_link s1(1) assms(1) by (simp add: sig_exec_def signal_add_def Link_def sig_idle_def new_entry_def)
  moreover have "dom (sig_entries s1) \<subseteq> set (a_used t1)"
  proof
    fix a assume a: "a \<in> dom (sig_entries s1)"
    have "set (a_listeners t) \<subseteq> set (a_used t)" using assms(1) listeners_used unfolding sig_idle_def by blast
    then show "a \<in> set (a_used t1)" using a s1(4) assms(1) e(2)
      by (cases "a \<in> set (e # a_listeners t)") (auto simp: sig_idle_def new_entry_def)
  qed
  ultimately show ?thesis
    using s1(2,3) assms(1) e(2) by (auto simp: sig_idle_def same_rest_def listeners_are_def new_entry_def)
next
  case (Do_unlink e)
  let ?s = "s\<lparr>sig_state := Updating\<rparr>"
  have u: "spec_unlink e t = Inr t1" using Do_unlink assms(2) by (simp add: spec_exec_def)
  have "listeners_are ?s (a_listeners t)" "dom (sig_entries ?s) \<subseteq> set (a_used t)"
    using assms(1) by (simp_all add: sig_idle_def listeners_are_def)
  from unlink_listeners [OF this u] show ?thesis
    using Do_unlink assms(1) by (auto simp: sig_exec_def Unlink_def sig_idle_def same_rest_def listeners_are_def delete_entry_def)
next
  case (Do_signal x)
  then obtain t0 where t0: "spec_raise h x (a_listeners t) t = Inr t0" "spec_drain h t0 = Some (Inr t1)"
    using assms(2) by (auto simp: spec_exec_def split: sum.splits)
  let ?s = "s\<lparr>sig_state := Asserting\<rparr>"
  have "m_pFirstListener ?s = first_of (a_listeners t) None" using assms(1) by (simp add: sig_idle_def listeners_are_def)
  moreover obtain b s0 where "SignalUnsafe h x (first_of (a_listeners t) None) ?s = Some (Inr (b, s0))" "sig_rel [] s0 t0"
    using SignalUnsafe_ok [of "[]" ?s t "[]" "a_listeners t" h x t0] enter_rel [OF assms(1)] t0(1) by auto
  ultimately show ?thesis
    using leave_ok [OF t0(2) _ refl] enter_rel [OF assms(1)] Do_signal by (auto simp: sig_exec_def signal_call_def)
next
  case (Do_invoke f)
  then obtain t0 where t0: "spec_invoke h f t = Inr t0" "spec_drain h t0 = Some (Inr t1)"
    using assms(2) by (auto simp: spec_exec_def split: sum.splits)
  let ?s = "s\<lparr>sig_state := Asserting\<rparr>"
  have "sig_rel [] (log_call (Invoked f) ?s) (spec_log (Invoked f) t)"
    using sig_rel_log enter_rel [OF assms(1)] by blast
  from perform_all_ok [OF this t0(1) [unfolded spec_invoke_def]] obtain s0 where
    "perform_all (fst (on_invoke h f)) (log_call (Invoked f) ?s) = Some (Inr s0)" "sig_rel [] s0 t0" by blast
  then show ?thesis
    using leave_ok [OF t0(2) _ refl] enter_rel [OF assms(1)] Do_invoke by (auto simp: sig_exec_def signal_invoke_def)
qed

lemma sig_exec_simulates: "forward_simulation (sig_exec h) (spec_exec h) sig_idle"
  by unfold_locales (rule sig_exec_ok)

interpretation sig: forward_simulation "sig_exec h" "spec_exec h" sig_idle for h
  by (rule sig_exec_simulates)

lemma sig_idle_new: "sig_idle signal_new spec_new"
  by (simp add: sig_idle_def signal_new_def spec_new_def listeners_are_def)

section \<open>Properties\<close>

text \<open>
  C17.  A signal refines the abstract signal: on a new signal, every sequence of attaching, detaching,
  raising and invoking that succeeds abstractly (whatever the handlers do to the signal while it is
  being raised) returns, makes the same calls in the same order, and ends idle, with the same
  listeners in its doubly linked list and nothing left to be done.
\<close>

theorem signal_refines:
  assumes "run_all (spec_exec h) acts spec_new = Some (Inr t)"
  shows "\<exists>s. run_all (sig_exec h) acts signal_new = Some (Inr s) \<and> sig_log s = a_log t \<and>
    listeners_are s (a_listeners t) \<and> sig_state s = Free \<and> m_delayedCalls s = []"
  using sig.run [OF sig_idle_new assms] by (auto simp: sig_idle_def)

text \<open>The first handler attaches another one and raises the signal again when it is called with 0.\<close>

definition ex_handlers :: "nat handlers" where
  "ex_handlers = \<lparr>on_call = (\<lambda>e x. if e = 1 \<and> x = 0 then ([Do_link 2, Do_signal 5], False) else ([], False)),
     on_invoke = (\<lambda>f. ([], False))\<rparr>"

lemma ex_spec:
  "run_all (spec_exec ex_handlers) [Do_link 1] spec_new =
     Some (Inr \<lparr>a_listeners = [1], a_pending = [], a_used = [1], a_log = []\<rparr>)"
  "spec_exec ex_handlers (Do_signal 0) \<lparr>a_listeners = [1], a_pending = [], a_used = [1], a_log = []\<rparr> =
     Some (Inr \<lparr>a_listeners = [1, 2], a_pending = [], a_used = [2, 1], a_log = [Called 1 0, Called 1 5, Called 2 5]\<rparr>)"
  by (simp_all add: spec_exec_def spec_new_def ex_handlers_def spec_defer_def spec_log_def spec_drain.simps spec_serve_def)

theorem signal_refines_witness:
  "\<exists>s. run_all (sig_exec ex_handlers) [Do_link 1, Do_signal 0] signal_new = Some (Inr s) \<and>
     sig_log s = [Called 1 0, Called 1 5, Called 2 5]"
proof -
  have "run_all (spec_exec ex_handlers) [Do_link 1, Do_signal 0] spec_new =
     Some (Inr \<lparr>a_listeners = [1, 2], a_pending = [], a_used = [2, 1], a_log = [Called 1 0, Called 1 5, Called 2 5]\<rparr>)"
    using ex_spec unfolding run_all_Cons_iff by simp
  from signal_refines [OF this] show ?thesis by auto
qed

lemma foldR_defer_frame:
  "foldR spec_defer as t = Inr t1 \<Longrightarrow> a_log t1 = a_log t \<and> a_listeners t1 = a_listeners t"
proof (induction as arbitrary: t)
  case (Cons a as)
  then show ?case by (cases a) (force simp: bindR_eq_Inr_iff spec_defer_def split: if_splits)+
qed simp

lemma spec_raise_log:
  "spec_raise h x es t = Inr t1 \<Longrightarrow> \<forall>e \<in> set es. \<not> snd (on_call h e x) \<Longrightarrow>
   a_log t1 = a_log t @ map (\<lambda>e. Called e x) es"
proof (induction es arbitrary: t)
  case (Cons e es)
  then obtain t0 where "foldR spec_defer (fst (on_call h e x)) (spec_log (Called e x) t) = Inr t0"
    "spec_raise h x es t0 = Inr t1" by (auto simp: bindR_eq_Inr_iff)
  then show ?case using Cons.IH [of t0] Cons.prems(2) foldR_defer_frame by (fastforce simp: spec_log_def)
qed simp

lemma spec_raise_grows: "spec_raise h x es t = Inr t1 \<Longrightarrow> \<exists>rest. a_log t1 = a_log t @ rest"
proof (induction es arbitrary: t)
  case (Cons e es)
  then obtain t0 where t0: "foldR spec_defer (fst (on_call h e x)) (spec_log (Called e x) t) = Inr t0"
    "(if snd (on_call h e x) then Inr t0 else spec_raise h x es t0) = Inr t1" by (auto simp: bindR_eq_Inr_iff)
  then have "a_log t0 = a_log t @ [Called e x]" using foldR_defer_frame by (fastforce simp: spec_log_def)
  then show ?case using Cons.IH [of t0] t0(2) by (auto split: if_splits)
qed simp

lemma spec_serve_grows: "spec_serve h a t = Inr t1 \<Longrightarrow> \<exists>rest. a_log t1 = a_log t @ rest"
  by (cases a) (auto simp: spec_serve_def spec_unlink_def spec_invoke_def spec_log_def spec_raise_grows
      dest: foldR_defer_frame split: if_splits)

lemma spec_drain_grows: "spec_drain h t = Some r \<Longrightarrow> r = Inr t1 \<Longrightarrow> \<exists>rest. a_log t1 = a_log t @ rest"
proof (induction rule: spec_drain.raw_induct [rotated, consumes 1])
  case (1 rec h t r)
  have serve: "foldR (spec_serve h) as t = Inr t' \<Longrightarrow> \<exists>rest. a_log t' = a_log t @ rest" for as t t'
  proof (induction as arbitrary: t)
    case (Cons a as)
    then obtain t0 where "spec_serve h a t = Inr t0" "foldR (spec_serve h) as t0 = Inr t'" by (auto simp: bindR_eq_Inr_iff)
    then show ?case using Cons.IH [of t0] spec_serve_grows [of h a t t0] by auto
  qed simp
  show ?case
  proof (cases "a_pending t = []")
    case False
    then obtain t0 where t0: "foldR (spec_serve h) (a_pending t) (t\<lparr>a_pending := []\<rparr>) = Inr t0" "rec h t0 = Some (Inr t1)"
      using 1 by (auto split: sum.splits)
    then show ?thesis using serve [OF t0(1)] 1(1) [OF t0(2)] by auto
  qed (use 1 in simp)
qed

text \<open>
  Raising a signal calls the handlers attached at that time first, each once, in the order in which
  they were attached, if none of them throws; what the handlers request, attaching or detaching handlers
  or raising the signal again, takes effect only after the last of them has returned.
\<close>

lemma signal_call_in_order:
  assumes "run_all (spec_exec h) acts spec_new = Some (Inr t)" "spec_exec h (Do_signal x) t = Some (Inr t1)"
    and "\<forall>e \<in> set (a_listeners t). \<not> snd (on_call h e x)"
  shows "\<exists>s s1 rest. run_all (sig_exec h) acts signal_new = Some (Inr s) \<and> listeners_are s (a_listeners t) \<and>
    signal_call h x s = Some (Inr s1) \<and> sig_log s1 = sig_log s @ map (\<lambda>e. Called e x) (a_listeners t) @ rest"
proof -
  obtain s where s: "run_all (sig_exec h) acts signal_new = Some (Inr s)" "sig_idle s t"
    using sig.run [OF sig_idle_new assms(1)] by blast
  obtain s1 where s1: "sig_exec h (Do_signal x) s = Some (Inr s1)" "sig_idle s1 t1"
    using sig_exec_ok [OF s(2) assms(2)] by blast
  obtain t0 where t0: "spec_raise h x (a_listeners t) t = Inr t0" "spec_drain h t0 = Some (Inr t1)"
    using assms(2) by (auto simp: spec_exec_def split: sum.splits)
  obtain rest where "a_log t1 = a_log t @ map (\<lambda>e. Called e x) (a_listeners t) @ rest"
    using spec_raise_log [OF t0(1) assms(3)] spec_drain_grows [OF t0(2) refl] by auto
  then show ?thesis using s s1 by (auto simp: sig_exec_def sig_idle_def)
qed

lemma signal_call_in_order_witness:
  "\<exists>s s1 rest. run_all (sig_exec ex_handlers) [Do_link 1] signal_new = Some (Inr s) \<and>
     signal_call ex_handlers 0 s = Some (Inr s1) \<and> sig_log s1 = sig_log s @ [Called 1 0] @ rest"
  using signal_call_in_order [OF ex_spec] by (auto simp: ex_handlers_def)

lemma dtor_loop_ok:
  "seg (sig_entries s) p xs None \<Longrightarrow> distinct xs \<Longrightarrow> prior \<notin> Some ` set xs \<Longrightarrow>
   \<exists>s'. dtor_loop prior (first_of xs None) s = Some (Inr s') \<and>
     (\<forall>a. sig_entries s' a = (if a \<in> set xs \<or> prior = Some a then None else sig_entries s a))"
proof (induction xs arbitrary: p prior s)
  case Nil
  have "dtor_loop prior None s = Some (Inr (delete_ptr prior s))" by (subst dtor_loop.simps) simp
  then show ?case by (cases prior) (auto simp: delete_ptr_def delete_entry_def)
next
  case (Cons x xs)
  let ?s = "delete_ptr prior s"
  have E: "sig_entries ?s a = (if prior = Some a then None else sig_entries s a)" for a
    by (cases prior) (auto simp: delete_ptr_def delete_entry_def)
  have "seg (sig_entries ?s) (Some x) xs None"
  proof (cases prior)
    case (Some a)
    then have "a \<notin> set xs" using Cons.prems(3) by auto
    then show ?thesis using Cons.prems(1) Some by (simp add: delete_ptr_def delete_entry_def)
  qed (use Cons.prems in \<open>simp add: delete_ptr_def\<close>)
  then obtain s' where s': "dtor_loop (Some x) (first_of xs None) ?s = Some (Inr s')"
    "\<forall>a. sig_entries s' a = (if a \<in> set xs \<or> Some x = Some a then None else sig_entries ?s a)"
    using Cons.IH [of ?s "Some x" "Some x"] Cons.prems by auto
  moreover have "get_entry x ?s = Inr \<lparr>pFlink = first_of xs None, pBlink = p\<rparr>"
    using Cons.prems E [of x] by (auto simp: get_entry_def)
  ultimately show ?case using E by (subst dtor_loop.simps) auto
qed

text \<open>
  Destroying a signal returns after deleting each of its listeners once, and no other entry, without
  reading an entry that has been deleted.
\<close>

lemma signal_dtor_frees_listeners:
  assumes "listeners_are s xs"
  shows "\<exists>s'. signal_dtor s = Some (Inr s') \<and>
    (\<forall>a. sig_entries s' a = (if a \<in> set xs then None else sig_entries s a))"
  using dtor_loop_ok [of s None xs None] assms by (auto simp: signal_dtor_def listeners_are_def)

lemma signal_dtor_frees_listeners_witness:
  "\<exists>s s'. run_all (sig_exec ex_handlers) [Do_link 1] signal_new = Some (Inr s) \<and>
     signal_dtor s = Some (Inr s') \<and> sig_entries s' 1 = None"
proof -
  obtain s where s: "run_all (sig_exec ex_handlers) [Do_link 1] signal_new = Some (Inr s)" "listeners_are s [1]"
    using sig.run [OF sig_idle_new ex_spec(1)] by (auto simp: sig_idle_def)
  from signal_dtor_frees_listeners [OF s(2)] show ?thesis using s(1) by auto
qed

end
