(* ===== verification/Signal_Protocol.thy ===== *)
theory Signal_Protocol
  imports Signal
begin

text \<open>
  The state word of a signal as several threads share it: \<open>Link\<close>, \<open>operator()\<close>, \<open>handoff\<close> and
  \<open>leave\<close> of \<open>auto_signal.h\<close>, one atomic operation (a compare and exchange, a push, a release, a
  store) per step, in any interleaving.  A weak compare and exchange may fail spuriously.  Handlers
  run between two atomic operations; the listeners are the list that \<open>Signal_Props\<close> shows the doubly
  linked list to be.
\<close>

section \<open>Threads\<close>

text \<open>Where a thread stands: before the operation that the constructor names.\<close>

datatype 'a pc =
    Call_enter 'a | Call_run 'a | Leave | Leave_deferred | Leave_release | Leave_drain "'a callable list"
  | Handoff_push 'a | Handoff_defer | Handoff_take
  | Link_try addr | Link_push addr | Link_defer addr "32 word" | Link_take addr "32 word"
  | Link_check addr "32 word" | Link_do addr | Link_free
  | Done

record 'a sig_sys =
  y_state :: SignalState
  y_delayed :: "'a callable list"
  y_chainID :: "32 word"
  y_listeners :: "addr list"
  y_calls :: "'a called list"
  y_pc :: "nat \<Rightarrow> 'a pc"


text \<open>\<open>SignalUnsafe\<close>, and one delayed call.\<close>

definition call_listeners :: "'a \<Rightarrow> 'a sig_sys \<Rightarrow> 'a sig_sys" where
  "call_listeners x y = y\<lparr>y_calls := y_calls y @ map (\<lambda>e. Called e x) (y_listeners y)\<rparr>"

definition serve_call :: "'a callable \<Rightarrow> 'a sig_sys \<Rightarrow> 'a sig_sys" where
  "serve_call c y = (case c of
     callable_link None \<Rightarrow> y
   | callable_link (Some e) \<Rightarrow> y\<lparr>y_listeners := y_listeners y @ [e]\<rparr>
   | callable_unlink None \<Rightarrow> y
   | callable_unlink (Some e) \<Rightarrow> y\<lparr>y_listeners := remove1 e (y_listeners y)\<rparr>
   | callable_signal x \<Rightarrow> call_listeners x y
   | callable_fn f \<Rightarrow> y\<lparr>y_calls := y_calls y @ [Invoked f]\<rparr>)"













section \<open>Mutual exclusion\<close>

text \<open>The threads that assert the signal, and those that update the list of listeners.\<close>

definition asserts :: "'a pc \<Rightarrow> bool" where
  "asserts p = (case p of Call_run _ \<Rightarrow> True | Leave \<Rightarrow> True | Leave_deferred \<Rightarrow> True | Leave_release \<Rightarrow> True
     | Leave_drain _ \<Rightarrow> True | _ \<Rightarrow> False)"

definition updates :: "'a pc \<Rightarrow> bool" where
  "updates p = (case p of Link_check _ _ \<Rightarrow> True | Link_do _ \<Rightarrow> True | Link_free \<Rightarrow> True | _ \<Rightarrow> False)"



lemma asserts_simps [simp]:
  "asserts (Call_run x)" "asserts Leave" "asserts Leave_deferred" "asserts Leave_release" "asserts (Leave_drain cs)"
  "\<not> asserts (Call_enter x)" "\<not> asserts (Handoff_push x)" "\<not> asserts Handoff_defer" "\<not> asserts Handoff_take"
  "\<not> asserts (Link_try e)" "\<not> asserts (Link_push e)" "\<not> asserts (Link_defer e i)" "\<not> asserts (Link_take e i)"
  "\<not> asserts (Link_check e i)" "\<not> asserts (Link_do e)" "\<not> asserts Link_free" "\<not> asserts Done"
  by (simp_all add: asserts_def)

lemma updates_simps [simp]:
  "updates (Link_check e i)" "updates (Link_do e)" "updates Link_free"
  "\<not> updates (Call_run x)" "\<not> updates Leave" "\<not> updates Leave_deferred" "\<not> updates Leave_release"
  "\<not> updates (Leave_drain cs)" "\<not> updates (Call_enter x)" "\<not> updates (Handoff_push x)" "\<not> updates Handoff_defer"
  "\<not> updates Handoff_take" "\<not> updates (Link_try e)" "\<not> updates (Link_push e)" "\<not> updates (Link_defer e i)"
  "\<not> updates (Link_take e i)" "\<not> updates Done"
  by (simp_all add: updates_def)







lemma serve_call_frame [simp]: "y_pc (serve_call c y) = y_pc y" "y_state (serve_call c y) = y_state y"
  by (auto simp: serve_call_def call_listeners_def split: callable.splits option.splits)










section \<open>A call that is lost\<close>


end
