(* ===== verification/Core_Job.thy ===== *)
theory Core_Job
  imports Dispatch_Queue
begin

text \<open>
  Jobs (\<open>CoreJob.{h,cpp}\<close>): runnables whose functions are run by a task that is started when a function is pended and that ends
  when the queue is empty.  The base class \<open>DispatchQueue\<close> is the field \<open>job_queue\<close>, with its model of
  \<open>Dispatch_Queue\<close>; the flags of the base class \<open>CoreRunnable\<close> are the fields \<open>job_outstanding\<close>,
  \<open>job_shouldStop\<close> and \<open>job_wasStarted\<close>.

  The task runs on a thread of its own, so its steps (the parts of \<open>DispatchAllAndClearCurrent\<close> and
  \<open>DispatchEventUnsafe\<close> between two acquisitions of the lock) are operations of their own, which may come between any two
  operations of other threads.  What a pended function does to the job is such operations as well, made while it is being called.
\<close>

section \<open>State\<close>

datatype 'f job_fn = Fn 'f | AbortCall

datatype 'f task = Idle | Looping | Calling addr "'f job_fn" | Checking | Thrown

record 'f CoreJob =
  job_queue :: "'f job_fn DispatchQueue"
  m_running :: bool
  m_curEvent :: bool
  m_curEventInTeardown :: bool
  job_outstanding :: bool
  job_shouldStop :: bool
  job_wasStarted :: bool
  job_task :: "'f task"
  job_called :: "'f list"

definition job_new :: "nat \<Rightarrow> 'f CoreJob" where
  "job_new dispatchCap = \<lparr>job_queue = dq_new dispatchCap, m_running = False, m_curEvent = False, m_curEventInTeardown = True,
     job_outstanding = False, job_shouldStop = False, job_wasStarted = False, job_task = Idle, job_called = []\<rparr>"

section \<open>Operations\<close>

definition task_finished :: "'f task \<Rightarrow> bool" where
  "task_finished t \<longleftrightarrow> (case t of Idle \<Rightarrow> True | Thrown \<Rightarrow> True | _ \<Rightarrow> False)"

text \<open>
  \<open>OnPended\<close>: deleting the future of an earlier task waits for the end of that task, which never comes if the task is not over,
  because the lock of the queue is held.  A stopped job deletes the thunks of its queue, but not the pointers to them.
\<close>

definition job_OnPended :: "'f CoreJob \<Rightarrow> 'f CoreJob result option" where
  "job_OnPended j =
     (if \<not> m_curEventInTeardown j then Some (Inr j)
      else if \<not> m_running j then Some (Inr j)
      else if \<not> job_outstanding j then
        map_option (\<lambda>r. bindR r (\<lambda>(_, q). Inr (j\<lparr>job_queue := q\<rparr>)))
          (delete_chain (m_pHead (job_queue j)) 0 (job_queue j))
      else if m_curEvent j \<and> \<not> task_finished (job_task j) then None
      else Some (Inr (j\<lparr>m_curEventInTeardown := False, m_curEvent := True, job_task := Looping\<rparr>)))"

definition job_add :: "addr \<Rightarrow> 'f \<Rightarrow> 'f CoreJob \<Rightarrow> 'f CoreJob result option" where
  "job_add a f j =
     (case dq_add a (Fn f) (job_queue j) of
        Inl e \<Rightarrow> Some (Inl e)
      | Inr (ok, q) \<Rightarrow> if ok then job_OnPended (j\<lparr>job_queue := q\<rparr>) else Some (Inr (j\<lparr>job_queue := q\<rparr>)))"

definition job_pend :: "addr \<Rightarrow> 'f job_fn \<Rightarrow> 'f CoreJob \<Rightarrow> 'f CoreJob result option" where
  "job_pend a g j =
     (case Pend a g (job_queue j) of
        Inl e \<Rightarrow> Some (Inl e)
      | Inr q \<Rightarrow> job_OnPended (j\<lparr>job_queue := q\<rparr>))"

definition job_add_abs :: "int \<Rightarrow> addr \<Rightarrow> 'f \<Rightarrow> 'f CoreJob \<Rightarrow> 'f CoreJob" where
  "job_add_abs t a f j = j\<lparr>job_queue := dq_add_abs t a (Fn f) (job_queue j)\<rparr>"

definition job_Abort :: "'f CoreJob \<Rightarrow> 'f CoreJob result option" where
  "job_Abort j =
     map_option (\<lambda>r. bindR r (\<lambda>q. Inr (j\<lparr>job_queue := q, m_running := False\<rparr>)))
       (Abort (\<lambda>f q. (None, q)) (job_queue j))"

definition job_OnStop :: "bool \<Rightarrow> addr \<Rightarrow> 'f CoreJob \<Rightarrow> 'f CoreJob result option" where
  "job_OnStop graceful a j = (if graceful then job_pend a AbortCall j else job_Abort j)"

definition job_OnStart :: "bool \<Rightarrow> 'f CoreJob \<Rightarrow> (bool \<times> 'f CoreJob) result option" where
  "job_OnStart context_alive j =
     (if \<not> context_alive then Some (Inr (False, j))
      else let j1 = j\<lparr>m_running := True\<rparr> in
        if m_pHead (job_queue j1) \<noteq> None
        then map_option (\<lambda>r. bindR r (\<lambda>j2. Inr (True, j2))) (job_OnPended j1)
        else Some (Inr (True, j1)))"

text \<open>\<open>CoreRunnable::Start\<close> and \<open>CoreRunnable::Stop\<close> on a job.\<close>

definition job_Start :: "bool \<Rightarrow> addr \<Rightarrow> 'f CoreJob \<Rightarrow> 'f CoreJob result option" where
  "job_Start context_alive a j =
     (if job_wasStarted j \<or> job_outstanding j \<or> job_shouldStop j then Some (Inr j)
      else case job_OnStart context_alive (j\<lparr>job_wasStarted := True, job_outstanding := True\<rparr>) of
             None \<Rightarrow> None
           | Some (Inl e) \<Rightarrow> Some (Inl e)
           | Some (Inr (ok, j1)) \<Rightarrow>
               if ok then Some (Inr j1)
               else job_OnStop False a (j1\<lparr>job_shouldStop := True, job_outstanding := False\<rparr>))"

definition job_Stop :: "bool \<Rightarrow> addr \<Rightarrow> 'f CoreJob \<Rightarrow> 'f CoreJob result option" where
  "job_Stop graceful a j =
     map_option (\<lambda>r. bindR r (\<lambda>j1. Inr (j1\<lparr>job_outstanding := False\<rparr>)))
       (if \<not> job_shouldStop j then job_OnStop graceful a (j\<lparr>job_shouldStop := True\<rparr>) else Some (Inr j))"

text \<open>
  The steps of the task: \<open>DispatchEvent\<close> takes a thunk under the lock or finds none; the call of the thunk ends,
  possibly with an exception, which leaves the task; and without a thunk the task looks at the queue once more and
  ends if there still is none.
\<close>

definition task_take :: "int \<Rightarrow> 'f CoreJob \<Rightarrow> 'f CoreJob result" where
  "task_take now j =
     (if job_task j = Looping then
        bindR (dispatch_guard now (job_queue j)) (\<lambda>(ready, q1).
          if ready then bindR (pop_front q1) (\<lambda>(a, c, q2). Inr (j\<lparr>job_queue := q2, job_task := Calling a (m_fx c)\<rparr>))
          else Inr (j\<lparr>job_queue := q1, job_task := Checking\<rparr>))
      else Inr j)"

definition task_return :: "aw_error option \<Rightarrow> 'f CoreJob \<Rightarrow> 'f CoreJob result option" where
  "task_return exc j =
     (case job_task j of
        Calling a g \<Rightarrow>
          (case g of
             Fn f \<Rightarrow>
               Some (bindR (delete_thunk a (count_down (job_queue j))) (\<lambda>q.
                 Inr (j\<lparr>job_queue := q, job_called := job_called j @ [f],
                        job_task := (if exc = None then Looping else Thrown)\<rparr>)))
           | AbortCall \<Rightarrow>
               map_option (\<lambda>r. bindR r (\<lambda>j1.
                 bindR (delete_thunk a (count_down (job_queue j1))) (\<lambda>q.
                   Inr (j1\<lparr>job_queue := q, job_task := Looping\<rparr>))))
                 (job_Abort j))
      | _ \<Rightarrow> Some (Inr j))"

definition task_check :: "'f CoreJob \<Rightarrow> 'f CoreJob" where
  "task_check j =
     (if job_task j = Checking then
        if AreAnyDispatchersReady (job_queue j) then j\<lparr>job_task := Looping\<rparr>
        else j\<lparr>job_queue := notify_all (job_queue j), m_curEventInTeardown := True, job_task := Idle\<rparr>
      else j)"

text \<open>\<open>DoAdditionalWait\<close>: blocked until the task is over, if it has a future.\<close>

definition job_DoAdditionalWait :: "'f CoreJob \<Rightarrow> 'f CoreJob option" where
  "job_DoAdditionalWait j =
     (if \<not> m_curEvent j then Some j
      else if task_finished (job_task j) then Some (j\<lparr>m_curEvent := False\<rparr>) else None)"

section \<open>Runs\<close>

datatype 'f job_op =
    J_add addr 'f | J_add_abs int addr 'f | J_start bool addr | J_stop bool addr
  | J_take int | J_return "aw_error option" | J_check | J_wait

fun job_exec :: "'f job_op \<Rightarrow> 'f CoreJob \<Rightarrow> 'f CoreJob result option" where
  "job_exec (J_add a f) j = job_add a f j"
| "job_exec (J_add_abs t a f) j = Some (Inr (job_add_abs t a f j))"
| "job_exec (J_start alive a) j = job_Start alive a j"
| "job_exec (J_stop graceful a) j = job_Stop graceful a j"
| "job_exec (J_take now) j = Some (task_take now j)"
| "job_exec (J_return exc) j = task_return exc j"
| "job_exec J_check j = Some (Inr (task_check j))"
| "job_exec J_wait j = map_option Inr (job_DoAdditionalWait j)"

text \<open>Addresses of new thunks are not in use.\<close>

fun fresh_job_op :: "'f job_op \<Rightarrow> 'f CoreJob \<Rightarrow> bool" where
  "fresh_job_op (J_add a f) j \<longleftrightarrow> m_heap (job_queue j) a = None"
| "fresh_job_op (J_add_abs t a f) j \<longleftrightarrow> m_heap (job_queue j) a = None"
| "fresh_job_op (J_start alive a) j \<longleftrightarrow> m_heap (job_queue j) a = None"
| "fresh_job_op (J_stop graceful a) j \<longleftrightarrow> m_heap (job_queue j) a = None"
| "fresh_job_op _ j \<longleftrightarrow> True"

text \<open>The functions accepted from operations that came before the stop.\<close>

fun accepts :: "'f job_op \<Rightarrow> 'f CoreJob \<Rightarrow> 'f list" where
  "accepts (J_add a f) j =
     (if \<not> job_shouldStop j \<and> m_count (job_queue j) < m_dispatchCap (job_queue j) then [f] else [])"
| "accepts _ j = []"

inductive job_reachable :: "('f job_op \<Rightarrow> bool) \<Rightarrow> 'f CoreJob \<Rightarrow> 'f list \<Rightarrow> bool" for allowed where
  job_init: "job_reachable allowed (job_new n) []"
| job_step: "job_reachable allowed j acc \<Longrightarrow> allowed op \<Longrightarrow> fresh_job_op op j \<Longrightarrow> job_exec op j = Some (Inr j') \<Longrightarrow>
    job_reachable allowed j' (acc @ accepts op j)"

end
