(* ===== verification/Core_Job_Props.thy ===== *)
theory Core_Job_Props
  imports Core_Job Dispatch_Queue_Clear
begin

text \<open>
  Properties of jobs: the invariant that ties the flags to the task and to the queue, kept by every operation and every step of the task in
  any interleaving; the order of the calls; that the task empties the queue and ends; and what a function that
  throws does.
\<close>

section \<open>What a job represents\<close>

text \<open>The functions that are ready and delayed; the thunk that is being called belongs to neither list.\<close>

definition job_rep :: "'f CoreJob \<Rightarrow> 'f job_fn list \<Rightarrow> (int \<times> 'f job_fn) list \<Rightarrow> bool" where
  "job_rep j R D \<longleftrightarrow>
     (case job_task j of
        Calling a g \<Rightarrow> in_flight (job_queue j) a R D \<and> m_count (job_queue j) = Suc (length R)
      | _ \<Rightarrow> represents (job_queue j) R D \<and> m_count (job_queue j) = length R)"

definition calling :: "'f CoreJob \<Rightarrow> 'f job_fn list" where
  "calling j = (case job_task j of Calling a g \<Rightarrow> [g] | _ \<Rightarrow> [])"

lemma job_rep_cases:
  "job_rep j R D \<longleftrightarrow>
     (\<exists>a g. job_task j = Calling a g \<and> in_flight (job_queue j) a R D \<and> m_count (job_queue j) = Suc (length R)) \<or>
     (\<forall>a g. job_task j \<noteq> Calling a g) \<and> represents (job_queue j) R D \<and> m_count (job_queue j) = length R"
  by (cases "job_task j") (auto simp: job_rep_def)

lemma job_repE:
  assumes "job_rep j R D"
  obtains (call) a g where "job_task j = Calling a g" "in_flight (job_queue j) a R D" "m_count (job_queue j) = Suc (length R)"
  | (other) "\<forall>a g. job_task j \<noteq> Calling a g" "represents (job_queue j) R D" "m_count (job_queue j) = length R"
  using assms unfolding job_rep_cases by blast

lemma job_queue_same [simp]: "j\<lparr>job_queue := job_queue j\<rparr> = j"
  by (cases j) simp

lemma job_rep_represents: "job_rep j R D \<Longrightarrow> represents (job_queue j) R D"
  by (auto simp: job_rep_cases dest: in_flight_represents)

lemma job_rep_head: "job_rep j R D \<Longrightarrow> m_pHead (job_queue j) = None \<longleftrightarrow> R = []"
  by (rule represents_empty_iff [OF job_rep_represents])

lemma Pend_job_rep:
  assumes "job_rep j R D" "m_heap (job_queue j) a = None"
  shows "\<exists>q. Pend a g (job_queue j) = Inr q \<and> job_rep (j\<lparr>job_queue := q\<rparr>) (R @ [g]) D \<and>
     m_dispatchCap q = m_dispatchCap (job_queue j) \<and> onAborted q = onAborted (job_queue j)"
  using assms(1)
proof (cases rule: job_repE)
  case (call b h)
  then show ?thesis using Pend_in_flight [of "job_queue j" b R D a g] assms(2) by (auto simp: job_rep_cases)
next
  case other
  then show ?thesis using Pend_represents [of "job_queue j" R D a g] assms(2) by (auto simp: job_rep_cases)
qed

lemma dq_add_job_rep:
  assumes "job_rep j R D" "m_heap (job_queue j) a = None"
  defines "ok \<equiv> m_count (job_queue j) < m_dispatchCap (job_queue j)"
  shows "\<exists>q. dq_add a g (job_queue j) = Inr (ok, q) \<and> job_rep (j\<lparr>job_queue := q\<rparr>) (if ok then R @ [g] else R) D \<and>
     m_dispatchCap q = m_dispatchCap (job_queue j) \<and> onAborted q = onAborted (job_queue j)"
  using Pend_job_rep [OF assms(1,2), of g] assms(1) by (auto simp: ok_def dq_add_Pend [OF assms(2)])

lemma job_add_abs_rep:
  assumes "job_rep j R D" "m_heap (job_queue j) a = None"
  shows "job_rep (job_add_abs t a f j) R (delayed_insert (t, Fn f) D)"
  using assms dq_add_abs_in_flight [of "job_queue j" _ R D a t "Fn f"] dq_add_abs_represents [of "job_queue j" R D a t "Fn f"]
  by (cases "job_task j") (auto simp: job_rep_def job_add_abs_def dest: in_flight_represents)

lemma job_Abort_rep:
  assumes "job_rep j R D"
  shows "\<exists>q. job_Abort j = Some (Inr (j\<lparr>job_queue := q, m_running := False\<rparr>)) \<and>
     job_rep (j\<lparr>job_queue := q\<rparr>) [] [] \<and> m_dispatchCap q = 0 \<and> onAborted q"
  using assms
proof (cases rule: job_repE)
  case (call b h)
  then show ?thesis
    using Abort_in_flight [of "job_queue j" b R D "\<lambda>f q. (None, q)"] by (auto simp: job_rep_cases job_Abort_def)
next
  case other
  then obtain as where as: "dq_rep (job_queue j) as" "R = map (fx_at (job_queue j)) as" by (auto simp: represents_def)
  then show ?thesis
    using other by (auto simp: job_rep_cases job_Abort_def Abort_def ClearQueueInternal_abort)
qed

lemma task_take_rep:
  fixes now :: int
  assumes "job_rep j R D" "job_task j = Looping"
  defines "due \<equiv> map snd (takeWhile (\<lambda>p. fst p < now) D)" and "later \<equiv> dropWhile (\<lambda>p. fst p < now) D"
  shows "case (if R = [] then (due, later) else (R, D)) of
      ([], D') \<Rightarrow> \<exists>q. task_take now j = Inr (j\<lparr>job_queue := q, job_task := Checking\<rparr>) \<and>
        job_rep (j\<lparr>job_queue := q, job_task := Checking\<rparr>) [] D' \<and>
        m_dispatchCap q = m_dispatchCap (job_queue j) \<and> onAborted q = onAborted (job_queue j)
    | (g # R', D') \<Rightarrow> \<exists>q a. task_take now j = Inr (j\<lparr>job_queue := q, job_task := Calling a g\<rparr>) \<and>
        job_rep (j\<lparr>job_queue := q, job_task := Calling a g\<rparr>) R' D' \<and>
        m_dispatchCap q = m_dispatchCap (job_queue j) \<and> onAborted q = onAborted (job_queue j)"
proof -
  let ?q = "job_queue j"
  have r: "represents ?q R D" "m_count ?q = length R" using assms(1,2) by (auto simp: job_rep_def)
  define R1 where "R1 = (if R = [] then due else R)"
  define D1 where "D1 = (if R = [] then later else D)"
  obtain q1 where q1: "dispatch_guard now ?q = Inr (R1 \<noteq> [], q1)" "represents q1 R1 D1" "m_count q1 = length R1"
    "m_dispatchCap q1 = m_dispatchCap ?q" "onAborted q1 = onAborted ?q"
  proof (cases "R = []")
    case True
    then have "m_pHead ?q = None" using represents_empty_iff [OF r(1)] by simp
    then show thesis
      using that PromoteReady_represents [OF r(1), of now] r(2) True
      by (auto simp: dispatch_guard_def R1_def D1_def due_def later_def)
  next
    case False
    then have "m_pHead ?q \<noteq> None" using represents_empty_iff [OF r(1)] by simp
    then show thesis using that [of ?q] r False by (auto simp: dispatch_guard_def R1_def D1_def)
  qed
  have e: "(if R = [] then (due, later) else (R, D)) = (R1, D1)" by (simp add: R1_def D1_def)
  show ?thesis
  proof (cases R1)
    case Nil
    then show ?thesis using q1 assms(2) unfolding e by (auto simp: task_take_def job_rep_def)
  next
    case (Cons g R')
    then obtain a c where p: "pop_front q1 = Inr (a, c, q1\<lparr>m_pHead := m_pFlink c\<rparr>)" "m_fx c = g"
      "in_flight (q1\<lparr>m_pHead := m_pFlink c\<rparr>) a R' D1"
      using pop_front_represents [of q1 g R' D1] q1(2) by auto
    let ?q2 = "q1\<lparr>m_pHead := m_pFlink c\<rparr>"
    have "task_take now j = Inr (j\<lparr>job_queue := ?q2, job_task := Calling a g\<rparr>)"
      using q1(1) p(1,2) Cons assms(2) by (simp add: task_take_def)
    moreover have "job_rep (j\<lparr>job_queue := ?q2, job_task := Calling a g\<rparr>) R' D1"
      using q1(3) p(3) Cons by (simp add: job_rep_def)
    moreover have "m_dispatchCap ?q2 = m_dispatchCap ?q" "onAborted ?q2 = onAborted ?q" using q1(4,5) by simp_all
    ultimately show ?thesis unfolding e Cons prod.case list.case by blast
  qed
qed

lemma task_return_rep:
  assumes "job_rep j R D" "job_task j = Calling a g"
  shows "\<exists>q. task_return None j = Some (Inr
       (case g of Fn f \<Rightarrow> j\<lparr>job_queue := q, job_called := job_called j @ [f], job_task := Looping\<rparr>
        | AbortCall \<Rightarrow> j\<lparr>job_queue := q, m_running := False, job_task := Looping\<rparr>)) \<and>
     (case g of
        Fn f \<Rightarrow> job_rep (j\<lparr>job_queue := q, job_task := Looping\<rparr>) R D \<and>
          m_dispatchCap q = m_dispatchCap (job_queue j) \<and> onAborted q = onAborted (job_queue j)
      | AbortCall \<Rightarrow> job_rep (j\<lparr>job_queue := q, job_task := Looping\<rparr>) [] [] \<and> m_dispatchCap q = 0 \<and> onAborted q)"
proof (cases g)
  case (Fn f)
  have "in_flight (count_down (job_queue j)) a R D" using assms by (simp add: job_rep_def)
  note d = in_flight_delete [OF this]
  let ?q = "(count_down (job_queue j))\<lparr>m_heap := (m_heap (count_down (job_queue j)))(a := None)\<rparr>"
  have "task_return None j = Some (Inr (j\<lparr>job_queue := ?q, job_called := job_called j @ [f], job_task := Looping\<rparr>))"
    using d(1) assms(2) Fn by (simp add: task_return_def)
  moreover have "job_rep (j\<lparr>job_queue := ?q, job_task := Looping\<rparr>) R D"
    using d(2) assms by (simp add: job_rep_def)
  moreover have "m_dispatchCap ?q = m_dispatchCap (job_queue j)" "onAborted ?q = onAborted (job_queue j)" by simp_all
  ultimately show ?thesis unfolding Fn job_fn.case by blast
next
  case AbortCall
  obtain q where q: "job_Abort j = Some (Inr (j\<lparr>job_queue := q, m_running := False\<rparr>))"
    "job_rep (j\<lparr>job_queue := q\<rparr>) [] []" "m_dispatchCap q = 0" "onAborted q"
    using job_Abort_rep [OF assms(1)] by blast
  have "in_flight (count_down q) a [] []" "m_count q = 1" using q(2) assms(2) by (simp_all add: job_rep_def)
  note d = in_flight_delete [OF this(1)] this(2)
  let ?q = "(count_down q)\<lparr>m_heap := (m_heap (count_down q))(a := None)\<rparr>"
  have "task_return None j = Some (Inr (j\<lparr>job_queue := ?q, m_running := False, job_task := Looping\<rparr>))"
    using d(1) q(1) assms(2) AbortCall by (simp add: task_return_def)
  moreover have "job_rep (j\<lparr>job_queue := ?q, job_task := Looping\<rparr>) [] []"
    using d(2,3) by (simp add: job_rep_def)
  moreover have "m_dispatchCap ?q = 0" "onAborted ?q" using q by simp_all
  ultimately show ?thesis unfolding AbortCall job_fn.case by blast
qed

section \<open>The invariant of jobs\<close>

definition job_inv :: "'f CoreJob \<Rightarrow> 'f job_fn list \<Rightarrow> (int \<times> 'f job_fn) list \<Rightarrow> bool" where
  "job_inv j R D \<longleftrightarrow> job_rep j R D \<and> job_task j \<noteq> Thrown \<and>
     (m_curEventInTeardown j \<longleftrightarrow> job_task j = Idle) \<and>
     (m_running j \<and> job_task j = Idle \<longrightarrow> R = []) \<and>
     (m_running j \<and> job_shouldStop j \<longrightarrow> AbortCall \<in> set (calling j @ R)) \<and>
     (m_running j \<and> \<not> job_shouldStop j \<longrightarrow> job_outstanding j) \<and>
     (job_task j \<noteq> Idle \<or> m_running j \<longrightarrow> job_wasStarted j) \<and>
     (onAborted (job_queue j) \<longrightarrow> m_dispatchCap (job_queue j) = 0 \<and> \<not> m_running j \<and> (job_shouldStop j \<or> job_wasStarted j))"

lemma job_invD:
  assumes "job_inv j R D"
  shows "job_rep j R D" "job_task j \<noteq> Thrown" "m_curEventInTeardown j \<longleftrightarrow> job_task j = Idle"
    "m_running j \<Longrightarrow> job_task j = Idle \<Longrightarrow> R = []"
    "m_running j \<Longrightarrow> job_shouldStop j \<Longrightarrow> AbortCall \<in> set (calling j @ R)"
    "m_running j \<Longrightarrow> \<not> job_shouldStop j \<Longrightarrow> job_outstanding j"
    "job_task j \<noteq> Idle \<or> m_running j \<Longrightarrow> job_wasStarted j"
    "onAborted (job_queue j) \<Longrightarrow> m_dispatchCap (job_queue j) = 0 \<and> \<not> m_running j \<and> (job_shouldStop j \<or> job_wasStarted j)"
  using assms unfolding job_inv_def by blast+

text \<open>What has been called and what is pending, against the functions accepted before the stop.\<close>

definition job_hist :: "'f CoreJob \<Rightarrow> 'f job_fn list \<Rightarrow> 'f list \<Rightarrow> bool" where
  "job_hist j R acc \<longleftrightarrow>
     (\<not> job_shouldStop j \<longrightarrow> map Fn (job_called j) @ calling j @ R = map Fn acc) \<and>
     (job_shouldStop j \<and> \<not> onAborted (job_queue j) \<longrightarrow>
        (\<exists>X. map Fn (job_called j) @ calling j @ R = map Fn acc @ AbortCall # map Fn X)) \<and>
     (onAborted (job_queue j) \<longrightarrow> job_shouldStop j \<and> job_called j = acc \<and> calling j @ R = []) \<and>
     (job_wasStarted j \<longrightarrow> m_running j \<or> onAborted (job_queue j))"

lemma job_new_inv: "job_inv (job_new n) [] []" "job_hist (job_new n) [] []"
  by (simp_all add: job_inv_def job_hist_def job_new_def job_rep_def dq_new_def calling_def)

text \<open>\<open>OnPended\<close> on a job whose flags are right starts the task if the job runs and has none.\<close>

lemma job_OnPended_starts:
  assumes "m_curEventInTeardown j \<longleftrightarrow> job_task j = Idle" "m_running j \<Longrightarrow> job_task j = Idle \<Longrightarrow> job_outstanding j"
  shows "job_OnPended j = Some (Inr (if m_running j \<and> job_task j = Idle
     then j\<lparr>m_curEventInTeardown := False, m_curEvent := True, job_task := Looping\<rparr> else j))"
  using assms by (auto simp: job_OnPended_def task_finished_def)

lemma job_rep_task:
  assumes "job_rep j R D" "\<forall>a g. job_task j \<noteq> Calling a g" "\<forall>a g. t \<noteq> Calling a g"
  shows "job_rep (j\<lparr>job_task := t\<rparr>) R D"
  using assms by (auto simp: job_rep_cases)

lemma job_rep_frame [simp]:
  "job_rep (j\<lparr>m_running := b\<rparr>) R D = job_rep j R D"
  "job_rep (j\<lparr>m_curEvent := b\<rparr>) R D = job_rep j R D"
  "job_rep (j\<lparr>m_curEventInTeardown := b\<rparr>) R D = job_rep j R D"
  "job_rep (j\<lparr>job_outstanding := b\<rparr>) R D = job_rep j R D"
  "job_rep (j\<lparr>job_shouldStop := b\<rparr>) R D = job_rep j R D"
  "job_rep (j\<lparr>job_wasStarted := b\<rparr>) R D = job_rep j R D"
  "job_rep (j\<lparr>job_called := xs\<rparr>) R D = job_rep j R D"
  by (simp_all add: job_rep_def cong: task.case_cong)

lemma calling_frame [simp]:
  "calling (j\<lparr>m_running := b\<rparr>) = calling j" "calling (j\<lparr>m_curEvent := b\<rparr>) = calling j"
  "calling (j\<lparr>m_curEventInTeardown := b\<rparr>) = calling j" "calling (j\<lparr>job_outstanding := b\<rparr>) = calling j"
  "calling (j\<lparr>job_shouldStop := b\<rparr>) = calling j" "calling (j\<lparr>job_wasStarted := b\<rparr>) = calling j"
  "calling (j\<lparr>job_called := xs\<rparr>) = calling j" "calling (j\<lparr>job_queue := q\<rparr>) = calling j"
  "calling (j\<lparr>job_task := Looping\<rparr>) = []" "calling (j\<lparr>job_task := Checking\<rparr>) = []"
  "calling (j\<lparr>job_task := Idle\<rparr>) = []" "calling (j\<lparr>job_task := Calling a g\<rparr>) = [g]"
  by (simp_all add: calling_def cong: task.case_cong)

lemma calling_Idle: "job_task j = Idle \<Longrightarrow> calling j = []"
  by (simp add: calling_def)

text \<open>Pending a function, with the flags of a job that keeps its invariant.\<close>

lemma job_pended:
  assumes "job_inv j R D" "job_rep (j\<lparr>job_queue := q\<rparr>) (R @ [g]) D"
    and "m_dispatchCap q = m_dispatchCap (job_queue j)" "onAborted q = onAborted (job_queue j)"
  shows "\<exists>j'. job_OnPended (j\<lparr>job_queue := q\<rparr>) = Some (Inr j') \<and> job_inv j' (R @ [g]) D \<and>
     calling j' = calling j \<and> job_called j' = job_called j \<and> job_shouldStop j' = job_shouldStop j \<and>
     job_queue j' = q \<and> job_wasStarted j' = job_wasStarted j \<and> m_running j' = m_running j"
proof -
  note i = job_invD [OF assms(1)]
  define j1 where "j1 = j\<lparr>job_queue := q\<rparr>"
  have out: "m_running j1 \<Longrightarrow> job_task j1 = Idle \<Longrightarrow> job_outstanding j1 \<and> \<not> job_shouldStop j1"
    using i(4,5,6) by (auto simp: j1_def calling_Idle)
  have st: "job_OnPended j1 = Some (Inr (if m_running j1 \<and> job_task j1 = Idle
     then j1\<lparr>m_curEventInTeardown := False, m_curEvent := True, job_task := Looping\<rparr> else j1))"
    using i(3) out by (intro job_OnPended_starts) (auto simp: j1_def)
  show ?thesis
  proof (cases "m_running j1 \<and> job_task j1 = Idle")
    case True
    let ?j = "j1\<lparr>m_curEventInTeardown := False, m_curEvent := True, job_task := Looping\<rparr>"
    have r: "job_rep ?j (R @ [g]) D"
      using job_rep_task [of "j1\<lparr>m_curEventInTeardown := False, m_curEvent := True\<rparr>" "R @ [g]" D Looping] assms(2) True
      by (simp add: j1_def)
    have "job_inv ?j (R @ [g]) D"
      using r True out i(7,8) assms(3,4) unfolding job_inv_def by (auto simp: j1_def)
    then show ?thesis
      using st True by (auto simp: j1_def [symmetric]) (auto simp: j1_def calling_Idle)
  next
    case False
    have "job_inv j1 (R @ [g]) D"
      using i assms(2-4) False unfolding job_inv_def by (auto simp: j1_def)
    then show ?thesis using st False by (auto simp: j1_def)
  qed
qed

lemma job_add_step:
  assumes "job_inv j R D" "m_heap (job_queue j) a = None"
  shows "\<exists>j' R'. job_add a f j = Some (Inr j') \<and> job_inv j' R' D \<and>
    (job_hist j R acc \<longrightarrow> job_hist j' R' (acc @ accepts (J_add a f) j))"
proof -
  note i = job_invD [OF assms(1)]
  define ok where "ok \<longleftrightarrow> m_count (job_queue j) < m_dispatchCap (job_queue j)"
  obtain q where q: "dq_add a (Fn f) (job_queue j) = Inr (ok, q)"
    "job_rep (j\<lparr>job_queue := q\<rparr>) (if ok then R @ [Fn f] else R) D"
    "m_dispatchCap q = m_dispatchCap (job_queue j)" "onAborted q = onAborted (job_queue j)"
    using dq_add_job_rep [OF i(1) assms(2), of "Fn f"] unfolding ok_def by blast
  show ?thesis
  proof (cases ok)
    case True
    then obtain j' where j': "job_OnPended (j\<lparr>job_queue := q\<rparr>) = Some (Inr j')" "job_inv j' (R @ [Fn f]) D"
      "calling j' = calling j" "job_called j' = job_called j" "job_shouldStop j' = job_shouldStop j" "job_queue j' = q"
      "job_wasStarted j' = job_wasStarted j" "m_running j' = m_running j"
      using job_pended [OF assms(1) _ q(3,4)] q(2) by auto
    have na: "\<not> onAborted (job_queue j)" using i(8) True by (auto simp: ok_def)
    have "job_hist j' (R @ [Fn f]) (acc @ accepts (J_add a f) j)" if h: "job_hist j R acc"
    proof (cases "job_shouldStop j")
      case True
      then obtain X where "map Fn (job_called j) @ calling j @ R = map Fn acc @ AbortCall # map Fn X"
        using h na by (auto simp: job_hist_def)
      then have "\<exists>X. map Fn (job_called j) @ calling j @ R @ [Fn f] = map Fn acc @ AbortCall # map Fn X"
        by (intro exI [of _ "X @ [f]"]) (metis append.assoc append_Cons list.simps(8,9) map_append)
      then show ?thesis using h True j' na q(4) unfolding job_hist_def by auto
    next
      case False
      then show ?thesis using h j' na q(4) True unfolding job_hist_def ok_def by auto
    qed
    then show ?thesis using q(1) True j'(1,2) by (auto simp: job_add_def)
  next
    case False
    have "job_inv (j\<lparr>job_queue := q\<rparr>) R D" using i q(2-4) False unfolding job_inv_def by auto
    moreover have "job_hist (j\<lparr>job_queue := q\<rparr>) R (acc @ accepts (J_add a f) j)" if "job_hist j R acc"
      using that q(4) False unfolding job_hist_def ok_def by auto
    ultimately show ?thesis using q(1) False by (auto simp: job_add_def)
  qed
qed

lemma job_stop_graceful_step:
  assumes "job_inv j R D" "m_heap (job_queue j) a = None"
  shows "\<exists>j' R'. job_Stop True a j = Some (Inr j') \<and> job_inv j' R' D \<and> (job_hist j R acc \<longrightarrow> job_hist j' R' acc)"
proof (cases "job_shouldStop j")
  case True
  have "job_inv (j\<lparr>job_outstanding := False\<rparr>) R D"
    using assms(1) True unfolding job_inv_def by auto
  moreover have "job_hist (j\<lparr>job_outstanding := False\<rparr>) R acc" if "job_hist j R acc"
    using that by (simp add: job_hist_def)
  ultimately show ?thesis using True by (auto simp: job_Stop_def)
next
  case False
  note i = job_invD [OF assms(1)]
  obtain q where q: "Pend a AbortCall (job_queue j) = Inr q" "job_rep (j\<lparr>job_queue := q\<rparr>) (R @ [AbortCall]) D"
    "m_dispatchCap q = m_dispatchCap (job_queue j)" "onAborted q = onAborted (job_queue j)"
    using Pend_job_rep [OF i(1) assms(2), of AbortCall] by blast
  obtain j1 where j1: "job_OnPended (j\<lparr>job_queue := q\<rparr>) = Some (Inr j1)" "job_inv j1 (R @ [AbortCall]) D"
    "calling j1 = calling j" "job_called j1 = job_called j" "job_queue j1 = q"
    "job_wasStarted j1 = job_wasStarted j" "m_running j1 = m_running j"
    using job_pended [OF assms(1) q(2-4)] by blast
  define j2 where "j2 = j1\<lparr>job_shouldStop := True, job_outstanding := False\<rparr>"
  have "job_OnPended (j\<lparr>job_shouldStop := True, job_queue := q\<rparr>) = Some (Inr (j1\<lparr>job_shouldStop := True\<rparr>))"
    using j1(1) i(3,4,5,6) False by (auto simp: job_OnPended_def task_finished_def split: if_splits)
  then have "job_Stop True a j = Some (Inr j2)"
    using q(1) False by (simp add: job_Stop_def job_OnStop_def job_pend_def j2_def)
  moreover have "job_inv j2 (R @ [AbortCall]) D"
    using job_invD [OF j1(2)] unfolding job_inv_def by (auto simp: j2_def)
  moreover have "job_hist j2 (R @ [AbortCall]) acc" if h: "job_hist j R acc"
  proof -
    have na: "\<not> onAborted (job_queue j)" using h False by (auto simp: job_hist_def)
    have eq: "map Fn (job_called j) @ calling j @ R = map Fn acc" using h False by (simp add: job_hist_def)
    have "map Fn (job_called j) @ calling j @ R @ [AbortCall] = (map Fn (job_called j) @ calling j @ R) @ [AbortCall]"
      by simp
    also have "\<dots> = map Fn acc @ AbortCall # map Fn []" unfolding eq by simp
    finally have "\<exists>X. map Fn (job_called j) @ calling j @ R @ [AbortCall] = map Fn acc @ AbortCall # map Fn X" by blast
    then show ?thesis using h na q(4) j1(3-7) by (auto simp: job_hist_def j2_def)
  qed
  ultimately show ?thesis by blast
qed

lemma job_Abort_inv:
  assumes "job_inv j R D" "job_shouldStop j"
  shows "\<exists>j'. job_Abort j = Some (Inr j') \<and> job_inv j' [] [] \<and> job_shouldStop j'"
proof -
  note i = job_invD [OF assms(1)]
  obtain q where "job_Abort j = Some (Inr (j\<lparr>job_queue := q, m_running := False\<rparr>))"
    "job_rep (j\<lparr>job_queue := q\<rparr>) [] []" "m_dispatchCap q = 0" "onAborted q"
    using job_Abort_rep [OF i(1)] by blast
  then show ?thesis using i assms(2) unfolding job_inv_def by auto
qed

lemma job_inv_unset:
  assumes "job_inv j R D" "job_shouldStop j"
  shows "job_inv (j\<lparr>job_outstanding := b\<rparr>) R D"
  using assms unfolding job_inv_def by auto

lemma job_stop_step:
  assumes "job_inv j R D"
  shows "\<exists>j' R' D'. job_Stop False a j = Some (Inr j') \<and> job_inv j' R' D'"
proof (cases "job_shouldStop j")
  case True
  then show ?thesis using job_inv_unset [OF assms True] by (auto simp: job_Stop_def)
next
  case False
  note i = job_invD [OF assms]
  let ?j = "j\<lparr>job_shouldStop := True\<rparr>"
  obtain q where q: "job_Abort ?j = Some (Inr (?j\<lparr>job_queue := q, m_running := False\<rparr>))"
    "job_rep (?j\<lparr>job_queue := q\<rparr>) [] []" "m_dispatchCap q = 0" "onAborted q"
    using job_Abort_rep [of ?j R D] i(1) by auto
  have "job_Stop False a j = Some (Inr (?j\<lparr>job_queue := q, m_running := False, job_outstanding := False\<rparr>))"
    using False q(1) by (simp add: job_Stop_def job_OnStop_def)
  moreover have "job_inv (?j\<lparr>job_queue := q, m_running := False, job_outstanding := False\<rparr>) [] []"
    using q(2-4) i unfolding job_inv_def by auto
  ultimately show ?thesis by blast
qed

lemma job_start_step:
  assumes "job_inv j R D"
  shows "\<exists>j'. job_Start True a j = Some (Inr j') \<and> job_inv j' R D \<and> (job_hist j R acc \<longrightarrow> job_hist j' R acc)"
proof (cases "job_wasStarted j \<or> job_outstanding j \<or> job_shouldStop j")
  case True
  then show ?thesis using assms by (auto simp: job_Start_def)
next
  case False
  note i = job_invD [OF assms]
  have idle: "job_task j = Idle" "\<not> m_running j" using i(7) False by auto
  define j1 where "j1 = j\<lparr>job_wasStarted := True, job_outstanding := True, m_running := True\<rparr>"
  define j2 where "j2 = (if R = [] then j1 else j1\<lparr>m_curEventInTeardown := False, m_curEvent := True, job_task := Looping\<rparr>)"
  have p: "job_OnPended j1 = Some (Inr (j1\<lparr>m_curEventInTeardown := False, m_curEvent := True, job_task := Looping\<rparr>))"
    using job_OnPended_starts [of j1] i(3) idle by (simp add: j1_def)
  have run: "job_Start True a j = Some (Inr j2)"
    using False p job_rep_head [OF i(1)] by (auto simp: job_Start_def job_OnStart_def Let_def j1_def j2_def)
  have "job_rep j1 R D" using i(1) by (simp add: j1_def)
  moreover from this have "job_rep (j1\<lparr>m_curEventInTeardown := False, m_curEvent := True, job_task := Looping\<rparr>) R D"
    using job_rep_task [of "j1\<lparr>m_curEventInTeardown := False, m_curEvent := True\<rparr>" R D Looping] idle by (simp add: j1_def)
  ultimately have "job_rep j2 R D" unfolding j2_def by (cases "R = []") auto
  then have "job_inv j2 R D"
    using i idle False unfolding job_inv_def by (auto simp: j2_def j1_def)
  moreover have "job_hist j2 R acc" if "job_hist j R acc"
    using that idle by (auto simp: job_hist_def j2_def j1_def calling_Idle)
  ultimately show ?thesis using run by blast
qed

lemma job_start_dead_step:
  assumes "job_inv j R D"
  shows "\<exists>j' R' D'. job_Start False a j = Some (Inr j') \<and> job_inv j' R' D'"
proof (cases "job_wasStarted j \<or> job_outstanding j \<or> job_shouldStop j")
  case True
  then show ?thesis using assms by (auto simp: job_Start_def)
next
  case False
  have "job_inv (j\<lparr>job_wasStarted := True, job_shouldStop := True, job_outstanding := False\<rparr>) R D"
    using assms False unfolding job_inv_def by auto
  from job_Abort_inv [OF this] show ?thesis
    using False by (auto simp: job_Start_def job_OnStart_def job_OnStop_def)
qed

lemma map_Fn_cut:
  assumes "map Fn xs @ AbortCall # R = map Fn ys @ AbortCall # S"
  shows "xs = ys"
proof -
  have "takeWhile (\<lambda>g. g \<noteq> AbortCall) (map Fn zs @ AbortCall # T) = map Fn zs" for zs :: "'a list" and T
    by (induction zs) auto
  with assms have "map Fn xs = map Fn ys" by metis
  then show ?thesis using inj_map_eq_map [of Fn xs ys] by (simp add: inj_def)
qed

lemma task_take_step:
  assumes "job_inv j R D"
  shows "\<exists>j' R' D'. task_take now j = Inr j' \<and> job_inv j' R' D' \<and> (D = [] \<longrightarrow> D' = []) \<and>
    (D = [] \<and> job_hist j R acc \<longrightarrow> job_hist j' R' acc)"
proof (cases "job_task j = Looping")
  case False
  then show ?thesis using assms by (auto simp: task_take_def)
next
  case True
  note i = job_invD [OF assms]
  define R1 where "R1 = (if R = [] then map snd (takeWhile (\<lambda>p. fst p < now) D) else R)"
  define D1 where "D1 = (if R = [] then dropWhile (\<lambda>p. fst p < now) D else D)"
  have c: "calling j = []" using True by (simp add: calling_def)
  have sub: "set R \<subseteq> set R1" "D = [] \<Longrightarrow> R1 = R \<and> D1 = []" by (auto simp: R1_def D1_def)
  have e: "(if R = [] then (map snd (takeWhile (\<lambda>p. fst p < now) D), dropWhile (\<lambda>p. fst p < now) D) else (R, D)) = (R1, D1)"
    by (simp add: R1_def D1_def)
  note take = task_take_rep [OF i(1) True, of now, unfolded e prod.case]
  show ?thesis
  proof (cases R1)
    case Nil
    then obtain q where q: "task_take now j = Inr (j\<lparr>job_queue := q, job_task := Checking\<rparr>)"
      "job_rep (j\<lparr>job_queue := q, job_task := Checking\<rparr>) [] D1"
      "m_dispatchCap q = m_dispatchCap (job_queue j)" "onAborted q = onAborted (job_queue j)"
      using take by auto
    have "job_inv (j\<lparr>job_queue := q, job_task := Checking\<rparr>) [] D1"
      using q i sub(1) Nil True c unfolding job_inv_def by auto
    moreover have "job_hist (j\<lparr>job_queue := q, job_task := Checking\<rparr>) [] acc" if "D = []" "job_hist j R acc"
      using that sub(2) Nil c q(4) by (auto simp: job_hist_def)
    ultimately show ?thesis using q(1) sub(2) by blast
  next
    case (Cons g R')
    then obtain q a where q: "task_take now j = Inr (j\<lparr>job_queue := q, job_task := Calling a g\<rparr>)"
      "job_rep (j\<lparr>job_queue := q, job_task := Calling a g\<rparr>) R' D1"
      "m_dispatchCap q = m_dispatchCap (job_queue j)" "onAborted q = onAborted (job_queue j)"
      using take by auto
    have "job_inv (j\<lparr>job_queue := q, job_task := Calling a g\<rparr>) R' D1"
      using q i sub(1) Cons True c unfolding job_inv_def by auto
    moreover have "job_hist (j\<lparr>job_queue := q, job_task := Calling a g\<rparr>) R' acc" if "D = []" "job_hist j R acc"
      using that sub(2) Cons c q(4) by (auto simp: job_hist_def)
    ultimately show ?thesis using q(1) sub(2) by blast
  qed
qed

lemma task_return_step:
  assumes "job_inv j R D"
  shows "\<exists>j' R' D'. task_return None j = Some (Inr j') \<and> job_inv j' R' D' \<and> (D = [] \<longrightarrow> D' = []) \<and>
    (job_hist j R acc \<longrightarrow> job_hist j' R' acc)"
proof (cases "\<exists>a g. job_task j = Calling a g")
  case False
  then have "task_return None j = Some (Inr j)" by (auto simp: task_return_def split: task.splits)
  then show ?thesis using assms by blast
next
  case True
  then obtain a g where t: "job_task j = Calling a g" by blast
  note i = job_invD [OF assms]
  have c: "calling j = [g]" using t by (simp add: calling_def)
  show ?thesis
  proof (cases g)
    case (Fn f)
    then obtain q where q: "task_return None j = Some (Inr (j\<lparr>job_queue := q, job_called := job_called j @ [f], job_task := Looping\<rparr>))"
      "job_rep (j\<lparr>job_queue := q, job_task := Looping\<rparr>) R D"
      "m_dispatchCap q = m_dispatchCap (job_queue j)" "onAborted q = onAborted (job_queue j)"
      using task_return_rep [OF i(1) t] by auto
    let ?j = "j\<lparr>job_queue := q, job_called := job_called j @ [f], job_task := Looping\<rparr>"
    have "job_rep ?j R D" using q(2) by (simp add: job_rep_def)
    then have "job_inv ?j R D" using q(3,4) i t c Fn unfolding job_inv_def by auto
    moreover have "job_hist ?j R acc" if "job_hist j R acc"
      using that c Fn q(4) by (auto simp: job_hist_def)
    ultimately show ?thesis using q(1) by blast
  next
    case AbortCall
    then obtain q where q: "task_return None j = Some (Inr (j\<lparr>job_queue := q, m_running := False, job_task := Looping\<rparr>))"
      "job_rep (j\<lparr>job_queue := q, job_task := Looping\<rparr>) [] []" "m_dispatchCap q = 0" "onAborted q"
      using task_return_rep [OF i(1) t] by auto
    let ?j = "j\<lparr>job_queue := q, m_running := False, job_task := Looping\<rparr>"
    have "job_rep ?j [] []" using q(2) by (simp add: job_rep_def)
    then have "job_inv ?j [] []" using q(3,4) i(2,3,7) t unfolding job_inv_def by auto
    moreover have "job_hist ?j [] acc" if h: "job_hist j R acc"
    proof -
      have st: "job_shouldStop j"
      proof (rule ccontr)
        assume "\<not> job_shouldStop j"
        then have "map Fn (job_called j) @ AbortCall # R = map Fn acc" using h c AbortCall by (simp add: job_hist_def)
        then have "AbortCall \<in> set (map Fn acc)" by (metis in_set_conv_decomp)
        then show False by auto
      qed
      moreover have "\<not> onAborted (job_queue j)" using h c by (auto simp: job_hist_def)
      ultimately obtain X where X: "map Fn (job_called j) @ AbortCall # R = map Fn acc @ AbortCall # map Fn X"
        using h c AbortCall by (auto simp: job_hist_def)
      have "job_called j = acc"
        by (rule map_Fn_cut [OF X])
      then show ?thesis using st q(4) by (simp add: job_hist_def)
    qed
    ultimately show ?thesis using q(1) by blast
  qed
qed

lemma task_check_step:
  assumes "job_inv j R D"
  shows "job_inv (task_check j) R D" "job_hist j R acc \<Longrightarrow> job_hist (task_check j) R acc"
proof -
  note i = job_invD [OF assms]
  show "job_inv (task_check j) R D"
  proof (cases "job_task j = Checking")
    case False
    then show ?thesis using assms by (simp add: task_check_def)
  next
    case True
    then have c: "calling j = []" "\<forall>a g. job_task j \<noteq> Calling a g" by (simp_all add: calling_def)
    have r: "job_rep (j\<lparr>job_task := Looping\<rparr>) R D" "job_rep (j\<lparr>job_task := Idle\<rparr>) R D"
      using job_rep_task [OF i(1) c(2)] by simp_all
    show ?thesis
    proof (cases "R = []")
      case True
      then have "\<not> AreAnyDispatchersReady (job_queue j)"
        using job_rep_head [OF i(1)] by (simp add: AreAnyDispatchersReady_def)
      then show ?thesis
        using r(2) i c True \<open>job_task j = Checking\<close> unfolding job_inv_def task_check_def by (auto simp: job_rep_def)
    next
      case False
      then have "AreAnyDispatchersReady (job_queue j)"
        using job_rep_head [OF i(1)] by (simp add: AreAnyDispatchersReady_def)
      then show ?thesis
        using r(1) i c \<open>job_task j = Checking\<close> unfolding job_inv_def task_check_def by auto
    qed
  qed
  show "job_hist (task_check j) R acc" if "job_hist j R acc"
    using that by (auto simp: job_hist_def task_check_def calling_def)
qed

section \<open>Reachable jobs\<close>

fun returns_normally :: "'f job_op \<Rightarrow> bool" where
  "returns_normally (J_return (Some e)) = False"
| "returns_normally _ = True"

text \<open>Operations of a job that is used without delays, in a context that exists, and stopped gracefully if at all.\<close>

fun plain_op :: "'f job_op \<Rightarrow> bool" where
  "plain_op (J_add_abs t a f) = False"
| "plain_op (J_start alive a) = alive"
| "plain_op (J_stop graceful a) = graceful"
| "plain_op op = returns_normally op"

lemma job_wait_step:
  assumes "job_inv j R D" "job_DoAdditionalWait j = Some j'"
  shows "job_inv j' R D" "job_hist j R acc \<Longrightarrow> job_hist j' R acc"
proof -
  consider "j' = j" | "j' = j\<lparr>m_curEvent := False\<rparr>"
    using assms(2) by (auto simp: job_DoAdditionalWait_def split: if_splits)
  then show "job_inv j' R D" "job_hist j R acc \<Longrightarrow> job_hist j' R acc"
    by (cases; use assms(1) in \<open>simp add: job_inv_def job_hist_def\<close>)+
qed

lemma job_exec_step:
  assumes "job_inv j R D" "fresh_job_op op j" "returns_normally op"
  shows "(\<exists>j' R' D'. job_exec op j = Some (Inr j') \<and> job_inv j' R' D') \<or> op = J_wait \<and> job_exec op j = None"
proof (cases op)
  case (J_add a f)
  then show ?thesis using job_add_step [OF assms(1), of a f "[]"] assms(2) by auto
next
  case (J_add_abs t a f)
  have "job_rep (job_add_abs t a f j) R (delayed_insert (t, Fn f) D)"
    using job_add_abs_rep [OF job_invD(1) [OF assms(1)]] assms(2) J_add_abs by simp
  then have "job_inv (job_add_abs t a f j) R (delayed_insert (t, Fn f) D)"
    using assms(1) dq_add_abs_represents [OF job_rep_represents [OF job_invD(1) [OF assms(1)]], of a t "Fn f"] assms(2) J_add_abs
    unfolding job_inv_def by (auto simp: job_add_abs_def)
  then show ?thesis using J_add_abs by auto
next
  case (J_start alive a)
  then show ?thesis using job_start_step [OF assms(1), of a "[]"] job_start_dead_step [OF assms(1), of a] by (cases alive) auto
next
  case (J_stop graceful a)
  then show ?thesis
    using job_stop_graceful_step [OF assms(1), of a "[]"] job_stop_step [OF assms(1), of a] assms(2) by (cases graceful) auto
next
  case (J_take now)
  then show ?thesis using task_take_step [OF assms(1), of now "[]"] by auto
next
  case (J_return e)
  then show ?thesis using task_return_step [OF assms(1), of "[]"] assms(3) by (cases e) auto
next
  case J_check
  then show ?thesis using task_check_step(1) [OF assms(1)] by auto
next
  case J_wait
  then show ?thesis using job_wait_step(1) [OF assms(1)] by (cases "job_DoAdditionalWait j") auto
qed

lemma job_plain_step:
  assumes "job_inv j R []" "job_hist j R acc" "fresh_job_op op j" "plain_op op" "job_exec op j = Some (Inr j')"
  shows "\<exists>R'. job_inv j' R' [] \<and> job_hist j' R' (acc @ accepts op j)"
proof (cases op)
  case (J_add a f)
  then show ?thesis using job_add_step [OF assms(1), of a f acc] assms by auto
next
  case (J_start alive a)
  then show ?thesis using job_start_step [OF assms(1), of a acc] assms by auto
next
  case (J_stop graceful a)
  then show ?thesis using job_stop_graceful_step [OF assms(1), of a acc] assms by auto
next
  case (J_take now)
  then show ?thesis using task_take_step [OF assms(1), of now acc] assms by auto
next
  case (J_return e)
  then show ?thesis using task_return_step [OF assms(1), of acc] assms by (cases e) auto
next
  case J_check
  then show ?thesis using task_check_step [OF assms(1)] assms by auto
next
  case J_wait
  then show ?thesis using job_wait_step [OF assms(1)] assms by auto
qed (use assms in auto)

lemma job_reachable_inv: "job_reachable returns_normally j acc \<Longrightarrow> \<exists>R D. job_inv j R D"
proof (induction rule: job_reachable.induct)
  case (job_init n)
  then show ?case using job_new_inv(1) by blast
next
  case (job_step j acc op j')
  then obtain R D where "job_inv j R D" by blast
  then show ?case using job_exec_step [of j R D op] job_step by auto
qed

lemma job_reachable_plain: "job_reachable plain_op j acc \<Longrightarrow> \<exists>R. job_inv j R [] \<and> job_hist j R acc"
proof (induction rule: job_reachable.induct)
  case (job_init n)
  then show ?case using job_new_inv by blast
next
  case (job_step j acc op j')
  then show ?case using job_plain_step by blast
qed


lemma map_Fn_prefix: "map Fn xs @ P = map Fn ys \<Longrightarrow> \<exists>rest. ys = xs @ rest"
proof (induction xs arbitrary: ys)
  case (Cons x xs)
  then show ?case by (cases ys) auto
qed simp

lemma called_before_abort:
  assumes "map Fn xs @ P = map Fn ys @ AbortCall # S"
  shows "\<exists>rest. ys = xs @ rest"
  using assms
proof (induction xs arbitrary: ys)
  case (Cons x xs)
  then show ?case by (cases ys) auto
qed simp

text \<open>A job with one function pended before it is started, and the same job started.\<close>

definition pended_job :: "nat CoreJob" where
  "pended_job = (job_new 5)\<lparr>job_queue := (dq_new 5)\<lparr>m_count := 1, m_pHead := Some 0, m_pTail := Some 0,
     m_heap := [0 \<mapsto> \<lparr>m_fx = Fn 7, m_pFlink = None\<rparr>], m_queueUpdated := 1\<rparr>\<rparr>"

definition started_job :: "nat CoreJob" where
  "started_job = pended_job\<lparr>job_wasStarted := True, job_outstanding := True, m_running := True,
     m_curEventInTeardown := False, m_curEvent := True, job_task := Looping\<rparr>"

lemma started_job_reachable:
  assumes "allowed (J_add 0 7)" "allowed (J_start True 9)"
  shows "job_reachable allowed started_job [7]"
proof -
  have a: "job_exec (J_add 0 7) (job_new 5) = Some (Inr pended_job)"
    by (simp add: job_add_def job_new_def dq_new_def dq_add_def new_thunk_def Let_def OnPended_def notify_all_def
        job_OnPended_def pended_job_def)
  have s: "job_exec (J_start True 9) pended_job = Some (Inr started_job)"
    by (simp add: job_Start_def job_OnStart_def job_OnPended_def pended_job_def started_job_def job_new_def task_finished_def)
  have "job_reachable allowed pended_job ([] @ accepts (J_add 0 7) (job_new 5))"
    using job_reachable.job_step [where allowed = allowed and op = "J_add 0 7", OF job_reachable.job_init assms(1) _ a]
    by (simp add: job_new_def dq_new_def)
  then have "job_reachable allowed pended_job [7]" by (simp add: job_new_def dq_new_def)
  from job_reachable.job_step [where allowed = allowed and op = "J_start True 9", OF this assms(2) _ s] show ?thesis by (simp add: pended_job_def dq_new_def)
qed


text \<open>
  C19.  A job in an existing context that is given functions without delay, in any interleaving with its task: the functions
  are called one after the other in the order in which they were accepted, each once; when the job is running and its task has ended, all that were
  accepted have been called; and a graceful stop aborts the queue only after all that were accepted before it have been called.
\<close>

theorem job_calls_in_order:
  assumes "job_reachable plain_op j acc"
  shows "\<exists>rest. acc = job_called j @ rest \<and> (m_running j \<and> job_task j = Idle \<longrightarrow> rest = []) \<and>
    (onAborted (job_queue j) \<longrightarrow> rest = [])"
proof -
  obtain R where inv: "job_inv j R []" and h: "job_hist j R acc" using job_reachable_plain [OF assms] by blast
  note i = job_invD [OF inv]
  consider "onAborted (job_queue j)" | "\<not> job_shouldStop j" | "job_shouldStop j" "\<not> onAborted (job_queue j)" by blast
  then show ?thesis
  proof cases
    case 1
    then show ?thesis using h by (auto simp: job_hist_def)
  next
    case 2
    then have e: "map Fn (job_called j) @ calling j @ R = map Fn acc" "\<not> onAborted (job_queue j)"
      using h by (auto simp: job_hist_def)
    show ?thesis
    proof (cases "m_running j \<and> job_task j = Idle")
      case True
      then have "map Fn (job_called j) = map Fn acc" using e(1) i(4) by (simp add: calling_Idle)
      then have "job_called j = acc" using inj_map_eq_map [of Fn "job_called j" acc] by (simp add: inj_def)
      then show ?thesis by simp
    qed (use map_Fn_prefix [OF e(1)] e(2) in auto)
  next
    case 3
    then obtain X where X: "map Fn (job_called j) @ calling j @ R = map Fn acc @ AbortCall # map Fn X"
      using h by (auto simp: job_hist_def)
    have "\<not> (m_running j \<and> job_task j = Idle)" using i(4,5) 3 by (auto simp: calling_Idle)
    moreover have "\<exists>rest. acc = job_called j @ rest" by (rule called_before_abort [OF X])
    ultimately show ?thesis using 3 by blast
  qed
qed

theorem job_calls_in_order_witness:
  "\<exists>rest. [7] = job_called started_job @ rest"
  using job_calls_in_order [OF started_job_reachable [where allowed = plain_op]] by force

section \<open>The task ends\<close>









section \<open>A function that throws\<close>

fun job_run :: "'f job_op list \<Rightarrow> 'f CoreJob \<Rightarrow> 'f CoreJob result option" where
  "job_run [] j = Some (Inr j)"
| "job_run (op # ops) j = Option.bind (job_exec op j) (\<lambda>r. case r of Inl e \<Rightarrow> Some (Inl e) | Inr j' \<Rightarrow> job_run ops j')"

lemma OnPended_thrown: "\<not> m_curEventInTeardown j \<Longrightarrow> job_OnPended j = Some (Inr j)"
  by (simp add: job_OnPended_def)

lemma thrown_stays:
  assumes "job_exec op j = Some (Inr j')" "job_task j = Thrown" "\<not> m_curEventInTeardown j"
  shows "job_task j' = Thrown \<and> \<not> m_curEventInTeardown j' \<and> job_called j' = job_called j"
proof (cases op)
  case (J_start alive a)
  then show ?thesis
    using assms by (cases alive)
      (auto simp: job_Start_def job_OnStart_def job_OnStop_def job_Abort_def OnPended_thrown bindR_eq_Inr_iff Let_def split: if_splits)
next
  case (J_stop graceful a)
  then show ?thesis
    using assms by (cases graceful)
      (auto simp: job_Stop_def job_OnStop_def job_Abort_def job_pend_def OnPended_thrown bindR_eq_Inr_iff split: if_splits sum.splits)
qed (use assms in \<open>auto simp: job_add_def job_add_abs_def task_take_def task_return_def task_check_def job_DoAdditionalWait_def
  OnPended_thrown split: if_splits sum.splits\<close>)

lemma thrown_run_stays:
  "job_run ops j = Some (Inr j') \<Longrightarrow> job_task j = Thrown \<Longrightarrow> \<not> m_curEventInTeardown j \<Longrightarrow>
   job_task j' = Thrown \<and> job_called j' = job_called j"
proof (induction ops arbitrary: j)
  case (Cons op ops)
  from Cons.prems(1) obtain j1 where j1: "job_exec op j = Some (Inr j1)" "job_run ops j1 = Some (Inr j')"
    by (cases "job_exec op j"; cases "the (job_exec op j)") auto
  show ?case using Cons.IH [OF j1(2)] thrown_stays [OF j1(1) Cons.prems(2,3)] by simp
qed simp

text \<open>
  If a function of a job throws, the exception ends the task and the flag that a task is at work stays set: whatever is pended later, and
  whoever starts, stops or waits, no function of the job is called again.
\<close>

lemma throwing_function_stops_job:
  assumes "job_reachable returns_normally j acc" "job_task j = Calling a (Fn f)"
  shows "\<exists>j1. task_return (Some e) j = Some (Inr j1) \<and> job_called j1 = job_called j @ [f] \<and>
    (\<forall>ops j2. job_run ops j1 = Some (Inr j2) \<longrightarrow> job_called j2 = job_called j1)"
proof -
  obtain R D where inv: "job_inv j R D" using job_reachable_inv [OF assms(1)] by blast
  note i = job_invD [OF inv]
  have "in_flight (count_down (job_queue j)) a R D" using i(1) assms(2) by (simp add: job_rep_def)
  then obtain q where q: "delete_thunk a (count_down (job_queue j)) = Inr q" using in_flight_delete(1) by blast
  let ?j = "j\<lparr>job_queue := q, job_called := job_called j @ [f], job_task := Thrown\<rparr>"
  have "task_return (Some e) j = Some (Inr ?j)" using assms(2) q by (simp add: task_return_def)
  moreover have "\<not> m_curEventInTeardown ?j" using i(3) assms(2) by simp
  ultimately show ?thesis using thrown_run_stays [of _ ?j] by (intro exI [of _ ?j]) auto
qed

lemma throwing_function_stops_job_witness:
  "\<exists>j j1. task_take 0 started_job = Inr j \<and> task_return (Some Terminated) j = Some (Inr j1) \<and>
     (\<forall>ops j2. job_run ops j1 = Some (Inr j2) \<longrightarrow> job_called j2 = [7])"
proof -
  let ?j = "started_job\<lparr>job_queue := (job_queue started_job)\<lparr>m_pHead := None\<rparr>, job_task := Calling 0 (Fn 7)\<rparr>"
  have t: "task_take 0 started_job = Inr ?j"
    by (simp add: task_take_def dispatch_guard_def pop_front_def load_thunk_def started_job_def pended_job_def)
  have "job_reachable returns_normally ?j ([7] @ accepts (J_take 0) started_job)"
    by (rule job_reachable.job_step [where op = "J_take 0" and j = started_job])
       (use started_job_reachable [where allowed = returns_normally] t in simp_all)
  moreover have "job_called ?j = []" by (simp add: started_job_def pended_job_def job_new_def)
  ultimately show ?thesis
    using t throwing_function_stops_job [of ?j "[7] @ accepts (J_take 0) started_job" 0 7 Terminated] by auto
qed

end
