(* ===== verification/Context_Map.thy ===== *)
theory Context_Map
  imports Prelude
begin

text \<open>
  Context maps (\<open>ContextMap.h\<close>): maps from keys to weak pointers to contexts, whose entries are removed by handlers attached to the teardown
  signal of the contexts.  A context is known by an address that is not used again; \<open>use_count\<close> tells the contexts whose reference count
  is not zero, the ones that a weak pointer can be locked to.  When the last reference to a context goes, its handlers are raised; between that
  moment and the run of a handler other threads may use the map, so a handler waits in \<open>tearing\<close> and each run of one is an operation of its own.

  A \<open>std::map\<close> is the list of its pairs in the order of the keys.
\<close>

section \<open>Ordered maps\<close>

fun map_set :: "'k::linorder \<Rightarrow> 'v \<Rightarrow> ('k \<times> 'v) list \<Rightarrow> ('k \<times> 'v) list" where
  "map_set k v [] = [(k, v)]"
| "map_set k v ((k', v') # xs) =
     (if k < k' then (k, v) # (k', v') # xs else if k = k' then (k, v) # xs else (k', v') # map_set k v xs)"

definition map_erase :: "'k \<Rightarrow> ('k \<times> 'v) list \<Rightarrow> ('k \<times> 'v) list" where
  "map_erase k xs = filter (\<lambda>(k', v). k' \<noteq> k) xs"

definition map_ok :: "('k::linorder \<times> 'v) list \<Rightarrow> bool" where
  "map_ok xs \<longleftrightarrow> sorted_wrt (<) (map fst xs)"

section \<open>State\<close>

record 'k ContextMap =
  m_contexts :: "('k \<times> addr) list"
  tracker_destroyed :: bool

text \<open>\<open>cmaps\<close> has no entry for a map whose tracker is gone.\<close>

record 'k map_world =
  cmaps :: "nat \<rightharpoonup> 'k ContextMap"
  use_count :: "addr \<Rightarrow> nat"
  created :: "addr \<Rightarrow> bool"
  onTeardown :: "(addr \<times> nat \<times> 'k) list"
  tearing :: "(nat \<times> 'k) list"

definition world_new :: "'k map_world" where
  "world_new = \<lparr>cmaps = Map.empty, use_count = (\<lambda>_. 0), created = (\<lambda>_. False), onTeardown = [], tearing = []\<rparr>"

definition expired :: "addr \<Rightarrow> 'k map_world \<Rightarrow> bool" where
  "expired c w \<longleftrightarrow> use_count w c = 0"

definition weak_lock :: "addr \<Rightarrow> 'k map_world \<Rightarrow> ptr" where
  "weak_lock c w = (if expired c w then None else Some c)"

section \<open>Operations\<close>

definition cm_new :: "nat \<Rightarrow> 'k map_world \<Rightarrow> 'k map_world" where
  "cm_new m w = w\<lparr>cmaps := (cmaps w)(m \<mapsto> \<lparr>m_contexts = [], tracker_destroyed = False\<rparr>)\<rparr>"

text \<open>
  The destructor sets the flag under the lock; the tracker goes with its last shared pointer, which a handler may hold
  for a while (\<open>held\<close>).
\<close>

definition cm_dtor :: "nat \<Rightarrow> bool \<Rightarrow> 'k map_world \<Rightarrow> 'k map_world" where
  "cm_dtor m held w =
     (case cmaps w m of
        None \<Rightarrow> w
      | Some M \<Rightarrow> w\<lparr>cmaps := (cmaps w)(m := if held then Some \<lparr>m_contexts = [], tracker_destroyed = True\<rparr> else None)\<rparr>)"

definition cm_size :: "'k ContextMap \<Rightarrow> nat" where
  "cm_size M = length (m_contexts M)"

definition cm_clear :: "'k ContextMap \<Rightarrow> 'k ContextMap" where
  "cm_clear M = M\<lparr>m_contexts := []\<rparr>"

definition cm_Find :: "'k \<Rightarrow> 'k ContextMap \<Rightarrow> 'k map_world \<Rightarrow> ptr" where
  "cm_Find k M w = (case map_of (m_contexts M) k of None \<Rightarrow> None | Some c \<Rightarrow> weak_lock c w)"

definition cm_Add :: "nat \<Rightarrow> 'k::linorder \<Rightarrow> addr \<Rightarrow> 'k ContextMap \<Rightarrow> 'k map_world \<Rightarrow> 'k map_world exn" where
  "cm_Add m k c M w =
     (case map_of (m_contexts M) k of
        Some c' \<Rightarrow>
          if \<not> expired c' w
          then (Some (autowiring_error ''Specified key is already associated with another context''), w)
          else (None, w\<lparr>cmaps := (cmaps w)(m \<mapsto> M\<lparr>m_contexts := map_set k c (m_contexts M)\<rparr>),
                        onTeardown := onTeardown w @ [(c, m, k)]\<rparr>)
      | None \<Rightarrow>
          (None, w\<lparr>cmaps := (cmaps w)(m \<mapsto> M\<lparr>m_contexts := map_set k c (m_contexts M)\<rparr>),
                   onTeardown := onTeardown w @ [(c, m, k)]\<rparr>))"

text \<open>The handler that \<open>Add\<close> attaches.\<close>

definition teardown_handler :: "nat \<Rightarrow> 'k \<Rightarrow> 'k map_world \<Rightarrow> 'k map_world" where
  "teardown_handler m k w =
     (case cmaps w m of
        None \<Rightarrow> w
      | Some M \<Rightarrow>
          if tracker_destroyed M then w
          else (case map_of (m_contexts M) k of
                  None \<Rightarrow> w
                | Some c \<Rightarrow>
                    (case weak_lock c w of
                       Some _ \<Rightarrow> w
                     | None \<Rightarrow> w\<lparr>cmaps := (cmaps w)(m \<mapsto> M\<lparr>m_contexts := map_erase k (m_contexts M)\<rparr>)\<rparr>)))"

text \<open>\<open>Enumerate\<close>: the entries passed to the function, which is called until it returns false.\<close>

fun enumerate_entries :: "('k \<Rightarrow> addr \<Rightarrow> bool) \<Rightarrow> 'k map_world \<Rightarrow> ('k \<times> addr) list \<Rightarrow> ('k \<times> addr) list" where
  "enumerate_entries fn w [] = []"
| "enumerate_entries fn w ((k, c) # xs) =
     (case weak_lock c w of
        None \<Rightarrow> enumerate_entries fn w xs
      | Some c' \<Rightarrow> if \<not> fn k c' then [(k, c')] else (k, c') # enumerate_entries fn w xs)"

definition cm_Enumerate :: "('k \<Rightarrow> addr \<Rightarrow> bool) \<Rightarrow> 'k ContextMap \<Rightarrow> 'k map_world \<Rightarrow> ('k \<times> addr) list" where
  "cm_Enumerate fn M w = enumerate_entries fn w (m_contexts M)"

text \<open>
  The iterator: the key of its entry, or the end, with the context it holds.  \<open>operator++\<close> is undefined at an entry that is no longer
  in the map and at the end.
\<close>

fun first_stable :: "'k map_world \<Rightarrow> ('k \<times> addr) list \<Rightarrow> ('k \<times> addr) option" where
  "first_stable w [] = None"
| "first_stable w ((k, c) # xs) = (case weak_lock c w of None \<Rightarrow> first_stable w xs | Some c' \<Rightarrow> Some (k, c'))"

definition cm_begin :: "'k ContextMap \<Rightarrow> 'k map_world \<Rightarrow> ('k \<times> addr) option" where
  "cm_begin M w = first_stable w (m_contexts M)"

definition cm_inc :: "'k ContextMap \<Rightarrow> 'k map_world \<Rightarrow> ('k \<times> addr) option \<Rightarrow> ('k \<times> addr) option result" where
  "cm_inc M w it =
     (case it of
        None \<Rightarrow> Inl Undefined_behaviour
      | Some (k, c) \<Rightarrow>
          (case dropWhile (\<lambda>(k', v). k' \<noteq> k) (m_contexts M) of
             [] \<Rightarrow> Inl Undefined_behaviour
           | x # xs \<Rightarrow> Inr (first_stable w xs)))"

text \<open>A loop from \<open>begin\<close> to \<open>end\<close>.\<close>

partial_function (option) iterate_from ::
  "'k ContextMap \<Rightarrow> 'k map_world \<Rightarrow> ('k \<times> addr) option \<Rightarrow> ('k \<times> addr) list result option" where
  "iterate_from M w it =
     (case it of
        None \<Rightarrow> Some (Inr [])
      | Some x \<Rightarrow>
          (case cm_inc M w it of
             Inl e \<Rightarrow> Some (Inl e)
           | Inr it' \<Rightarrow> Option.bind (iterate_from M w it') (\<lambda>r. Some (bindR r (\<lambda>xs. Inr (x # xs))))))"

section \<open>Contexts\<close>

definition context_create :: "addr \<Rightarrow> 'k map_world \<Rightarrow> 'k map_world" where
  "context_create c w = w\<lparr>created := (created w)(c := True), use_count := (use_count w)(c := 1)\<rparr>"

definition context_share :: "addr \<Rightarrow> 'k map_world \<Rightarrow> 'k map_world" where
  "context_share c w = w\<lparr>use_count := (use_count w)(c := Suc (use_count w c))\<rparr>"

text \<open>A shared pointer to a context goes; with the last one the context is destroyed and raises its teardown signal.\<close>

definition context_release :: "addr \<Rightarrow> 'k map_world \<Rightarrow> 'k map_world" where
  "context_release c w =
     (let w1 = w\<lparr>use_count := (use_count w)(c := use_count w c - 1)\<rparr> in
      if use_count w1 c = 0
      then w1\<lparr>tearing := tearing w1 @ map snd (filter (\<lambda>h. fst h = c) (onTeardown w1)),
              onTeardown := filter (\<lambda>h. fst h \<noteq> c) (onTeardown w1)\<rparr>
      else w1)"

definition run_handler :: "nat \<Rightarrow> 'k map_world \<Rightarrow> 'k map_world" where
  "run_handler i w =
     (if i < length (tearing w)
      then case tearing w ! i of (m, k) \<Rightarrow>
        teardown_handler m k (w\<lparr>tearing := take i (tearing w) @ drop (Suc i) (tearing w)\<rparr>)
      else w)"

end
