(* ===== verification/Context_Map_Props.thy ===== *)
theory Context_Map_Props
  imports Context_Map
begin

text \<open>
  Context maps refine maps from which contexts disappear at the moment when their last reference goes, whenever the teardown handlers run; and
  once the handlers have run, no entry of a context that is gone is left.
\<close>

section \<open>Ordered maps\<close>

lemma map_ok_Cons: "map_ok ((k, v) # xs) \<longleftrightarrow> (\<forall>x\<in>set xs. k < fst x) \<and> map_ok xs"
  by (simp add: map_ok_def)

lemma set_map_set: "set (map_set k v xs) \<subseteq> insert (k, v) (set xs)"
  by (induction k v xs rule: map_set.induct) auto

lemma map_ok_set: "map_ok xs \<Longrightarrow> map_ok (map_set k v xs)"
proof (induction k v xs rule: map_set.induct)
  case (2 k v k' v' xs)
  then show ?case using set_map_set [of k v xs] by (fastforce simp: map_ok_Cons)
qed (simp add: map_ok_def)

lemma map_of_less: "map_ok ((k', v) # xs) \<Longrightarrow> k < k' \<Longrightarrow> map_of xs k = None"
  by (fastforce simp: map_ok_Cons map_of_eq_None_iff)

lemma map_of_map_set: "map_ok xs \<Longrightarrow> map_of (map_set k v xs) = (map_of xs)(k \<mapsto> v)"
proof (induction k v xs rule: map_set.induct)
  case (2 k v k' v' xs)
  then show ?case by (auto simp: map_ok_Cons fun_eq_iff)
qed simp

lemma map_ok_filter: "map_ok xs \<Longrightarrow> map_ok (filter P xs)"
  unfolding map_ok_def by (induction xs) auto

lemma map_of_erase: "map_of (map_erase k xs) = (map_of xs)(k := None)"
  by (induction xs) (auto simp: map_erase_def fun_eq_iff)

lemma map_ok_in_set: "map_ok xs \<Longrightarrow> (k, v) \<in> set xs \<longleftrightarrow> map_of xs k = Some v"
  by (metis map_of_SomeD map_of_eq_Some_iff map_ok_def strict_sorted_iff)

lemma map_of_filter_val:
  assumes "map_ok xs"
  shows "map_of (filter (\<lambda>(k, v). P v) xs) k = (case map_of xs k of None \<Rightarrow> None | Some v \<Rightarrow> if P v then Some v else None)"
  using assms
proof (induction xs)
  case (Cons x xs)
  obtain k' v' where x: "x = (k', v')" by (cases x)
  have "map_of xs k' = None" using Cons.prems x by (fastforce simp: map_ok_Cons map_of_eq_None_iff)
  then show ?case using Cons x by (auto simp: map_ok_Cons split: option.splits)
qed simp

text \<open>The pairs of a map in the order of the keys.\<close>

definition pairs :: "('k::linorder \<rightharpoonup> addr) \<Rightarrow> ('k \<times> addr) list" where
  "pairs A = map (\<lambda>k. (k, the (A k))) (sorted_list_of_set (dom A))"

lemma pairs_map_of:
  assumes "map_ok xs"
  shows "pairs (map_of xs) = xs"
proof -
  have s: "sorted (map fst xs)" "distinct (map fst xs)" using assms by (simp_all add: map_ok_def strict_sorted_iff)
  have "sorted_list_of_set (dom (map_of xs)) = map fst xs"
    using sorted_list_of_set.idem_if_sorted_distinct [OF s] by (simp add: dom_map_of_conv_image_fst)
  then show ?thesis
    using s(2) by (auto simp: pairs_def intro!: map_idI)
qed

section \<open>The live entries\<close>

definition live_entries :: "'k ContextMap \<Rightarrow> 'k map_world \<Rightarrow> ('k \<times> addr) list" where
  "live_entries M w = filter (\<lambda>(k, c). \<not> expired c w) (m_contexts M)"

lemma cm_Find_live:
  "map_ok (m_contexts M) \<Longrightarrow> cm_Find k M w = map_of (live_entries M w) k"
  by (auto simp: cm_Find_def live_entries_def weak_lock_def map_of_filter_val split: option.splits)

lemma pairs_Find: "map_ok (m_contexts M) \<Longrightarrow> pairs (\<lambda>k. cm_Find k M w) = live_entries M w"
  by (simp add: cm_Find_live live_entries_def pairs_map_of map_ok_filter)

fun visit_until :: "('k \<Rightarrow> addr \<Rightarrow> bool) \<Rightarrow> ('k \<times> addr) list \<Rightarrow> ('k \<times> addr) list" where
  "visit_until fn [] = []"
| "visit_until fn ((k, c) # xs) = (k, c) # (if fn k c then visit_until fn xs else [])"

lemma cm_Enumerate_live: "cm_Enumerate fn M w = visit_until fn (live_entries M w)"
proof -
  have "enumerate_entries fn w xs = visit_until fn (filter (\<lambda>(k, c). \<not> expired c w) xs)" for xs
    by (induction fn w xs rule: enumerate_entries.induct) (auto simp: weak_lock_def)
  then show ?thesis by (simp add: cm_Enumerate_def live_entries_def)
qed

lemma first_stable_filter:
  "first_stable w xs = (case filter (\<lambda>(k, c). \<not> expired c w) xs of [] \<Rightarrow> None | x # _ \<Rightarrow> Some x)"
  by (induction w xs rule: first_stable.induct) (auto simp: weak_lock_def)

lemma iterate_suffix:
  assumes "m_contexts M = ys @ xs" "map_ok (m_contexts M)"
  shows "iterate_from M w (first_stable w xs) = Some (Inr (filter (\<lambda>(k, c). \<not> expired c w) xs))"
  using assms(1)
proof (induction xs arbitrary: ys)
  case Nil
  then show ?case by (simp add: iterate_from.simps [of M w None])
next
  case (Cons x xs)
  obtain k c where x: "x = (k, c)" by (cases x)
  note IH = Cons.IH [of "ys @ [x]"]
  show ?case
  proof (cases "expired c w")
    case True
    then show ?thesis using IH Cons.prems x by (simp add: weak_lock_def)
  next
    case False
    have "\<forall>z\<in>set ys. fst z \<noteq> k"
      using assms(2) Cons.prems x by (fastforce simp: map_ok_def sorted_wrt_append)
    then have "dropWhile (\<lambda>(k', v). k' \<noteq> k) (m_contexts M) = x # xs"
      using Cons.prems x by (subst Cons.prems, subst dropWhile_append2) auto
    then have "cm_inc M w (Some (k, c)) = Inr (first_stable w xs)" by (simp add: cm_inc_def)
    then show ?thesis
      using IH Cons.prems x False by (simp add: weak_lock_def iterate_from.simps [of M w "Some (k, c)"])
  qed
qed

lemma iterate_live:
  "map_ok (m_contexts M) \<Longrightarrow> iterate_from M w (cm_begin M w) = Some (Inr (live_entries M w))"
  using iterate_suffix [of M "[]" "m_contexts M" w] by (simp add: cm_begin_def live_entries_def)

section \<open>Operations and their specification\<close>

datatype 'k cm_op =
    C_new nat | C_dtor nat bool | C_add nat 'k addr | C_find nat 'k | C_enumerate nat "'k \<Rightarrow> addr \<Rightarrow> bool" | C_iterate nat
  | C_clear nat | C_create addr | C_share addr | C_release addr | C_handler nat

text \<open>What the callers of the operations see.\<close>

datatype 'k seen = Added bool | Found ptr | Visited "('k \<times> addr) list"

fun cm_exec :: "'k::linorder cm_op \<Rightarrow> 'k map_world \<times> 'k seen list \<Rightarrow> ('k map_world \<times> 'k seen list) result option" where
  "cm_exec (C_new m) (w, l) = Some (Inr (cm_new m w, l))"
| "cm_exec (C_dtor m held) (w, l) = Some (Inr (cm_dtor m held w, l))"
| "cm_exec (C_add m k c) (w, l) =
     (case cmaps w m of None \<Rightarrow> Some (Inl Undefined_behaviour)
      | Some M \<Rightarrow> case cm_Add m k c M w of (e, w') \<Rightarrow> Some (Inr (w', l @ [Added (e = None)])))"
| "cm_exec (C_find m k) (w, l) =
     (case cmaps w m of None \<Rightarrow> Some (Inl Undefined_behaviour) | Some M \<Rightarrow> Some (Inr (w, l @ [Found (cm_Find k M w)])))"
| "cm_exec (C_enumerate m fn) (w, l) =
     (case cmaps w m of None \<Rightarrow> Some (Inl Undefined_behaviour) | Some M \<Rightarrow> Some (Inr (w, l @ [Visited (cm_Enumerate fn M w)])))"
| "cm_exec (C_iterate m) (w, l) =
     (case cmaps w m of None \<Rightarrow> Some (Inl Undefined_behaviour)
      | Some M \<Rightarrow> map_option (\<lambda>r. bindR r (\<lambda>xs. Inr (w, l @ [Visited xs]))) (iterate_from M w (cm_begin M w)))"
| "cm_exec (C_clear m) (w, l) =
     (case cmaps w m of None \<Rightarrow> Some (Inl Undefined_behaviour)
      | Some M \<Rightarrow> Some (Inr (w\<lparr>cmaps := (cmaps w)(m \<mapsto> cm_clear M)\<rparr>, l)))"
| "cm_exec (C_create c) (w, l) = Some (Inr (context_create c w, l))"
| "cm_exec (C_share c) (w, l) = Some (Inr (context_share c w, l))"
| "cm_exec (C_release c) (w, l) = Some (Inr (context_release c w, l))"
| "cm_exec (C_handler i) (w, l) = Some (Inr (run_handler i w, l))"

text \<open>
  The specification: maps of contexts that exist; handlers do nothing.  An operation is specified (\<open>Some\<close>) if the map or the context that
  it is applied to exists, and creation if the name is new.
\<close>

record 'k cm_spec =
  contents :: "nat \<rightharpoonup> ('k \<rightharpoonup> addr)"
  used :: "nat \<Rightarrow> bool"
  refs :: "addr \<Rightarrow> nat"
  known :: "addr \<Rightarrow> bool"
  seen_log :: "'k seen list"

definition spec_new :: "'k cm_spec" where
  "spec_new = \<lparr>contents = Map.empty, used = (\<lambda>_. False), refs = (\<lambda>_. 0), known = (\<lambda>_. False), seen_log = []\<rparr>"

fun cm_spec_exec :: "'k::linorder cm_op \<Rightarrow> 'k cm_spec \<Rightarrow> 'k cm_spec result option" where
  "cm_spec_exec (C_new m) t =
     (if used t m then None else Some (Inr (t\<lparr>contents := (contents t)(m \<mapsto> Map.empty), used := (used t)(m := True)\<rparr>)))"
| "cm_spec_exec (C_dtor m held) t =
     (if contents t m = None then None else Some (Inr (t\<lparr>contents := (contents t)(m := None)\<rparr>)))"
| "cm_spec_exec (C_add m k c) t =
     (case contents t m of None \<Rightarrow> None
      | Some A \<Rightarrow>
          if refs t c = 0 then None
          else if A k \<noteq> None then Some (Inr (t\<lparr>seen_log := seen_log t @ [Added False]\<rparr>))
          else Some (Inr (t\<lparr>contents := (contents t)(m \<mapsto> A(k \<mapsto> c)), seen_log := seen_log t @ [Added True]\<rparr>)))"
| "cm_spec_exec (C_find m k) t =
     (case contents t m of None \<Rightarrow> None | Some A \<Rightarrow> Some (Inr (t\<lparr>seen_log := seen_log t @ [Found (A k)]\<rparr>)))"
| "cm_spec_exec (C_enumerate m fn) t =
     (case contents t m of None \<Rightarrow> None | Some A \<Rightarrow> Some (Inr (t\<lparr>seen_log := seen_log t @ [Visited (visit_until fn (pairs A))]\<rparr>)))"
| "cm_spec_exec (C_iterate m) t =
     (case contents t m of None \<Rightarrow> None | Some A \<Rightarrow> Some (Inr (t\<lparr>seen_log := seen_log t @ [Visited (pairs A)]\<rparr>)))"
| "cm_spec_exec (C_clear m) t =
     (case contents t m of None \<Rightarrow> None | Some A \<Rightarrow> Some (Inr (t\<lparr>contents := (contents t)(m \<mapsto> Map.empty)\<rparr>)))"
| "cm_spec_exec (C_create c) t =
     (if known t c then None else Some (Inr (t\<lparr>known := (known t)(c := True), refs := (refs t)(c := 1)\<rparr>)))"
| "cm_spec_exec (C_share c) t = (if refs t c = 0 then None else Some (Inr (t\<lparr>refs := (refs t)(c := Suc (refs t c))\<rparr>)))"
| "cm_spec_exec (C_release c) t =
     (if refs t c = 0 then None
      else let t1 = t\<lparr>refs := (refs t)(c := refs t c - 1)\<rparr> in
        Some (Inr (if refs t1 c = 0
          then t1\<lparr>contents := (\<lambda>m. map_option (\<lambda>A k. if A k = Some c then None else A k) (contents t m))\<rparr> else t1)))"
| "cm_spec_exec (C_handler i) t = Some (Inr t)"

section \<open>Simulation\<close>

text \<open>
  The entries of a map: each belongs to a context that was created, which will raise a handler for it, or has raised one that has not run yet.
\<close>

definition entries_ok :: "nat \<Rightarrow> 'k::linorder ContextMap \<Rightarrow> 'k map_world \<Rightarrow> bool" where
  "entries_ok m M w \<longleftrightarrow> map_ok (m_contexts M) \<and>
     (\<forall>(k, c) \<in> set (m_contexts M). created w c \<and>
        (if expired c w then (m, k) \<in> set (tearing w) else (c, m, k) \<in> set (onTeardown w)))"

lemma entries_okD:
  assumes "entries_ok m M w" "(k, c) \<in> set (m_contexts M)"
  shows "created w c" "expired c w \<Longrightarrow> (m, k) \<in> set (tearing w)" "\<not> expired c w \<Longrightarrow> (c, m, k) \<in> set (onTeardown w)"
  using bspec [OF conjunct2 [OF assms(1) [unfolded entries_ok_def]] assms(2)] by simp_all

lemma entries_okI:
  assumes "map_ok (m_contexts M)" "\<And>k c. (k, c) \<in> set (m_contexts M) \<Longrightarrow> created w c"
    and "\<And>k c. (k, c) \<in> set (m_contexts M) \<Longrightarrow> expired c w \<Longrightarrow> (m, k) \<in> set (tearing w)"
    and "\<And>k c. (k, c) \<in> set (m_contexts M) \<Longrightarrow> \<not> expired c w \<Longrightarrow> (c, m, k) \<in> set (onTeardown w)"
  shows "entries_ok m M w"
  using assms unfolding entries_ok_def by auto

definition map_rel :: "nat \<Rightarrow> 'k::linorder map_world \<Rightarrow> ('k \<rightharpoonup> addr) option \<Rightarrow> bool" where
  "map_rel m w A \<longleftrightarrow>
     (case A of
        None \<Rightarrow> (\<forall>M. cmaps w m = Some M \<longrightarrow> tracker_destroyed M)
      | Some A \<Rightarrow> \<exists>M. cmaps w m = Some M \<and> \<not> tracker_destroyed M \<and> entries_ok m M w \<and> A = (\<lambda>k. cm_Find k M w))"

definition cm_rel :: "'k::linorder map_world \<times> 'k seen list \<Rightarrow> 'k cm_spec \<Rightarrow> bool" where
  "cm_rel s t \<longleftrightarrow> (case s of (w, l) \<Rightarrow>
     l = seen_log t \<and> use_count w = refs t \<and> created w = known t \<and> (\<forall>c. use_count w c > 0 \<longrightarrow> created w c) \<and>
     (\<forall>m. map_rel m w (contents t m)) \<and> (\<forall>m. \<not> used t m \<longrightarrow> contents t m = None \<and> cmaps w m = None))"

lemma cm_rel_new: "cm_rel (world_new, []) spec_new"
  by (simp add: cm_rel_def world_new_def spec_new_def map_rel_def)

text \<open>A change that leaves the maps, the reference counts and the handlers as they are for a map keeps its relation.\<close>

lemma map_rel_frame:
  assumes "map_rel m w A" "cmaps w' m = cmaps w m" "\<And>c. expired c w' = expired c w" "\<And>c. created w c \<Longrightarrow> created w' c"
    and "set (tearing w) \<subseteq> set (tearing w')" "set (onTeardown w) \<subseteq> set (onTeardown w')"
  shows "map_rel m w' A"
proof (cases A)
  case None
  then show ?thesis using assms(1,2) by (simp add: map_rel_def)
next
  case (Some B)
  then obtain M where M: "cmaps w m = Some M" "\<not> tracker_destroyed M" "entries_ok m M w" "B = (\<lambda>k. cm_Find k M w)"
    using assms(1) by (auto simp: map_rel_def)
  have "cm_Find k M w' = cm_Find k M w" for k
    using assms(3) by (auto simp: cm_Find_def weak_lock_def split: option.splits)
  moreover have "entries_ok m M w'"
  proof (rule entries_okI)
    show "map_ok (m_contexts M)" using M(3) by (simp add: entries_ok_def)
  next
    fix k c
    assume "(k, c) \<in> set (m_contexts M)"
    note e = entries_okD [OF M(3) this]
    show "created w' c" using assms(4) e(1) by blast
    show "expired c w' \<Longrightarrow> (m, k) \<in> set (tearing w')" using assms(3,5) e(2) by blast
    show "\<not> expired c w' \<Longrightarrow> (c, m, k) \<in> set (onTeardown w')" using assms(3,6) e(3) by blast
  qed
  ultimately show ?thesis using M(1,2,4) Some assms(2) by (auto simp: map_rel_def)
qed

lemma map_relE:
  assumes "map_rel m w (Some A)"
  obtains M where "cmaps w m = Some M" "\<not> tracker_destroyed M" "entries_ok m M w" "A = (\<lambda>k. cm_Find k M w)"
  using assms by (auto simp: map_rel_def)

lemma cm_relE:
  assumes "cm_rel (w, l) t"
  shows "l = seen_log t" "use_count w = refs t" "created w = known t" "use_count w c > 0 \<Longrightarrow> created w c"
    "map_rel m w (contents t m)" "\<not> used t m \<Longrightarrow> contents t m = None \<and> cmaps w m = None"
  using assms by (auto simp: cm_rel_def)

text \<open>Adding a context that exists under a key that finds nothing.\<close>

lemma cm_Add_new:
  assumes "cm_Find k M w = None"
  shows "cm_Add m k c M w = (None, w\<lparr>cmaps := (cmaps w)(m \<mapsto> M\<lparr>m_contexts := map_set k c (m_contexts M)\<rparr>),
     onTeardown := onTeardown w @ [(c, m, k)]\<rparr>)"
  using assms by (auto simp: cm_Add_def cm_Find_def weak_lock_def split: option.splits if_splits)

lemma cm_Add_present:
  assumes "cm_Find k M w \<noteq> None"
  shows "\<exists>e. cm_Add m k c M w = (Some e, w)"
  using assms by (auto simp: cm_Add_def cm_Find_def weak_lock_def split: option.splits if_splits)

lemma cm_Find_frame:
  "cm_Find k M (w\<lparr>cmaps := x, onTeardown := y\<rparr>) = cm_Find k M w"
  "cm_Find k M (w\<lparr>cmaps := x\<rparr>) = cm_Find k M w"
  "cm_Find k M (w\<lparr>tearing := z\<rparr>) = cm_Find k M w"
  by (simp_all add: cm_Find_def weak_lock_def expired_def split: option.splits)

lemma cm_Find_set:
  assumes "map_ok (m_contexts M)" "use_count w c > 0"
  shows "(\<lambda>k'. cm_Find k' (M\<lparr>m_contexts := map_set k c (m_contexts M)\<rparr>) w) = (\<lambda>k'. cm_Find k' M w)(k \<mapsto> c)"
  using assms by (auto simp: cm_Find_def weak_lock_def expired_def map_of_map_set fun_eq_iff)

lemma cm_rel_add:
  assumes "cm_rel (w, l) t" "cm_spec_exec (C_add m k c) t = Some (Inr t')"
  shows "\<exists>s'. cm_exec (C_add m k c) (w, l) = Some (Inr s') \<and> cm_rel s' t'"
proof -
  note r = cm_relE [OF assms(1)]
  from assms(2) obtain A where A: "contents t m = Some A" and c: "refs t c > 0"
    by (auto split: option.splits if_splits)
  obtain M where M: "cmaps w m = Some M" "\<not> tracker_destroyed M" "entries_ok m M w" "A = (\<lambda>k. cm_Find k M w)"
    using r(5) [of m] A map_relE by metis
  show ?thesis
  proof (cases "cm_Find k M w")
    case (Some x)
    then obtain e where e: "cm_Add m k c M w = (Some e, w)" using cm_Add_present [of k M w m c] by auto
    have "t' = t\<lparr>seen_log := seen_log t @ [Added False]\<rparr>" using assms(2) A c Some M(4) by simp
    then show ?thesis using assms(1) e M(1) by (auto simp: cm_rel_def)
  next
    case None
    let ?M = "M\<lparr>m_contexts := map_set k c (m_contexts M)\<rparr>"
    let ?w = "w\<lparr>cmaps := (cmaps w)(m \<mapsto> ?M), onTeardown := onTeardown w @ [(c, m, k)]\<rparr>"
    have t': "t' = t\<lparr>contents := (contents t)(m \<mapsto> A(k \<mapsto> c)), seen_log := seen_log t @ [Added True]\<rparr>"
      using assms(2) A c None M(4) by simp
    have ok: "map_ok (m_contexts M)" using M(3) by (simp add: entries_ok_def)
    have u: "use_count w c > 0" using c r(2) by simp
    have x: "expired d ?w = expired d w" for d by (simp add: expired_def)
    have sub: "(k', d) = (k, c) \<or> (k', d) \<in> set (m_contexts M)" if "(k', d) \<in> set (m_contexts ?M)" for k' d
      using that set_map_set [of k c "m_contexts M"] by auto
    have "entries_ok m ?M ?w"
    proof (rule entries_okI)
      show "map_ok (m_contexts ?M)" using ok by (simp add: map_ok_set)
    next
      fix k' d
      assume "(k', d) \<in> set (m_contexts ?M)"
      from sub [OF this] consider (new) "k' = k" "d = c" | (old) "(k', d) \<in> set (m_contexts M)" by blast
      then have *: "created w d \<and> (expired d w \<longrightarrow> (m, k') \<in> set (tearing w)) \<and>
        (\<not> expired d w \<longrightarrow> (d, m, k') \<in> set (onTeardown w @ [(c, m, k)]))"
      proof cases
        case new
        then show ?thesis using r(4) [of c] u by (simp add: expired_def)
      next
        case old
        then show ?thesis using entries_okD [OF M(3) old] by auto
      qed
      then show "created ?w d" by simp
      show "expired d ?w \<Longrightarrow> (m, k') \<in> set (tearing ?w)" using * unfolding x by simp
      show "\<not> expired d ?w \<Longrightarrow> (d, m, k') \<in> set (onTeardown ?w)" using * unfolding x by simp
    qed
    then have "map_rel m ?w (Some (A(k \<mapsto> c)))"
      using M(2,4) cm_Find_set [OF ok u, of k] by (auto simp: map_rel_def cm_Find_frame)
    moreover have "map_rel m' ?w (contents t m')" if "m' \<noteq> m" for m'
      using map_rel_frame [OF r(5) [of m'], of ?w] that by (auto simp: expired_def)
    moreover have "used t m" using r(6) [of m] A by auto
    ultimately have "cm_rel (?w, l @ [Added True]) t'"
      using assms(1) unfolding t' cm_rel_def by auto
    then show ?thesis using cm_Add_new [OF None, of m c] M(1) by simp
  qed
qed

text \<open>A handler removes an entry that no longer finds anything; other handlers for the key stay.\<close>

lemma teardown_handler_map_rel:
  assumes rel: "map_rel m' w A"
    and w1: "w1 = w\<lparr>tearing := T\<rparr>" and T: "set (tearing w) \<subseteq> insert (m, k) (set T)"
  shows "map_rel m' (teardown_handler m k w1) A"
proof (cases A)
  case None
  then show ?thesis using rel by (auto simp: map_rel_def w1 teardown_handler_def split: option.splits if_splits)
next
  case (Some B)
  then obtain M where M: "cmaps w m' = Some M" "\<not> tracker_destroyed M" "entries_ok m' M w" "B = (\<lambda>k. cm_Find k M w)"
    using rel map_relE by metis
  have x: "expired c (teardown_handler m k w1) = expired c w" for c
    by (simp add: teardown_handler_def w1 expired_def split: option.splits)
  have f: "cm_Find k' N (teardown_handler m k w1) = cm_Find k' N w" for k' N
    by (simp add: cm_Find_def weak_lock_def x split: option.splits)
  have keep: "created (teardown_handler m k w1) = created w" "onTeardown (teardown_handler m k w1) = onTeardown w"
    "tearing (teardown_handler m k w1) = T"
    by (simp_all add: teardown_handler_def w1 split: option.splits)
  define N where "N = (if m' = m \<and> (\<exists>c. map_of (m_contexts M) k = Some c \<and> expired c w)
    then M\<lparr>m_contexts := map_erase k (m_contexts M)\<rparr> else M)"
  have N: "cmaps (teardown_handler m k w1) m' = Some N"
    using M(1,2) by (auto simp: teardown_handler_def w1 N_def weak_lock_def expired_def split: option.splits)
  have ok: "map_ok (m_contexts M)" using M(3) by (simp add: entries_ok_def)
  have "entries_ok m' N (teardown_handler m k w1)"
    unfolding entries_ok_def keep x
  proof (intro conjI ballI, goal_cases)
    case 1
    then show ?case using ok by (simp add: N_def map_erase_def map_ok_filter)
  next
    case (2 p)
    obtain k' c where p: "p = (k', c)" by (cases p)
    have in_M: "(k', c) \<in> set (m_contexts M)" using 2 p by (auto simp: N_def map_erase_def split: if_splits)
    have "(m', k') \<noteq> (m, k)" if "expired c w"
      using that 2 p in_M map_ok_in_set [OF ok, of k' c] by (auto simp: N_def map_erase_def split: if_splits)
    moreover have "created w c" "expired c w \<Longrightarrow> (m', k') \<in> set (tearing w)"
      "\<not> expired c w \<Longrightarrow> (c, m', k') \<in> set (onTeardown w)"
      using entries_okD [OF M(3) in_M] by simp_all
    ultimately show ?case using T p by auto
  qed
  moreover have "cm_Find k' N w = cm_Find k' M w" for k'
    by (auto simp: N_def cm_Find_def weak_lock_def map_of_erase split: option.splits)
  ultimately show ?thesis using Some N M(2,4) by (auto simp: map_rel_def f N_def)
qed

lemma cm_rel_handler:
  assumes "cm_rel (w, l) t"
  shows "cm_rel (run_handler i w, l) t"
proof (cases "i < length (tearing w)")
  case False
  then show ?thesis using assms by (simp add: run_handler_def)
next
  case True
  obtain m k where mk: "tearing w ! i = (m, k)" by (cases "tearing w ! i")
  define T where "T = take i (tearing w) @ drop (Suc i) (tearing w)"
  have T: "set (tearing w) \<subseteq> insert (m, k) (set T)"
    using id_take_nth_drop [OF True] mk unfolding T_def by (metis Un_insert_right list.simps(15) set_append subset_refl)
  have run: "run_handler i w = teardown_handler m k (w\<lparr>tearing := T\<rparr>)"
    using True mk by (simp add: run_handler_def T_def)
  have "use_count (run_handler i w) = use_count w" "created (run_handler i w) = created w"
    unfolding run by (simp_all add: teardown_handler_def split: option.splits)
  moreover have "cmaps (run_handler i w) m' = None" if "cmaps w m' = None" for m'
    using that unfolding run by (auto simp: teardown_handler_def split: option.splits)
  moreover have "map_rel m' (run_handler i w) (contents t m')" for m'
    using teardown_handler_map_rel [OF cm_relE(5) [OF assms] refl T] unfolding run .
  ultimately show ?thesis using assms unfolding cm_rel_def by auto
qed

text \<open>The last reference to a context goes: its entries find nothing, and its handlers are raised.\<close>

lemma cm_rel_release:
  assumes "cm_rel (w, l) t" "refs t c > 0"
  shows "\<exists>t'. cm_spec_exec (C_release c) t = Some (Inr t') \<and> cm_rel (context_release c w, l) t'"
proof (cases "refs t c = 1")
  case False
  note r = cm_relE [OF assms(1)]
  let ?w = "w\<lparr>use_count := (use_count w)(c := use_count w c - 1)\<rparr>"
  let ?t = "t\<lparr>refs := (refs t)(c := refs t c - 1)\<rparr>"
  have n: "use_count w c > 1" using False assms(2) r(2) by simp
  have x: "expired d ?w = expired d w" for d using n by (auto simp: expired_def)
  have "map_rel m ?w (contents t m)" for m
    using map_rel_frame [OF r(5) [of m] _ x] by simp
  then have "cm_rel (?w, l) ?t" using assms(1) n unfolding cm_rel_def by auto
  then show ?thesis using n False assms(2) r(2) by (simp add: context_release_def Let_def)
next
  case True
  note r = cm_relE [OF assms(1)]
  define w1 where "w1 = w\<lparr>use_count := (use_count w)(c := 0),
    tearing := tearing w @ map snd (filter (\<lambda>h. fst h = c) (onTeardown w)), onTeardown := filter (\<lambda>h. fst h \<noteq> c) (onTeardown w)\<rparr>"
  define t1 where "t1 = t\<lparr>refs := (refs t)(c := 0),
    contents := (\<lambda>m. map_option (\<lambda>A k. if A k = Some c then None else A k) (contents t m))\<rparr>"
  have u: "use_count w c = 1" using True r(2) by simp
  have w: "context_release c w = w1" using u by (simp add: context_release_def w1_def)
  have t: "cm_spec_exec (C_release c) t = Some (Inr t1)" using True by (simp add: t1_def)
  have x: "expired d w1 \<longleftrightarrow> d = c \<or> expired d w" for d by (simp add: expired_def w1_def)
  have f: "cm_Find k M w1 = (if cm_Find k M w = Some c then None else cm_Find k M w)" for k M
    by (auto simp: cm_Find_def weak_lock_def x split: option.splits)
  have "map_rel m w1 (contents t1 m)" for m
  proof (cases "contents t m")
    case None
    then show ?thesis using r(5) [of m] by (simp add: map_rel_def t1_def w1_def)
  next
    case (Some A)
    then obtain M where M: "cmaps w m = Some M" "\<not> tracker_destroyed M" "entries_ok m M w" "A = (\<lambda>k. cm_Find k M w)"
      using r(5) [of m] map_relE by metis
    have "entries_ok m M w1"
    proof (rule entries_okI)
      show "map_ok (m_contexts M)" using M(3) by (simp add: entries_ok_def)
    next
      fix k d
      assume "(k, d) \<in> set (m_contexts M)"
      note e = entries_okD [OF M(3) this]
      show "created w1 d" using e(1) by (simp add: w1_def)
      show "\<not> expired d w1 \<Longrightarrow> (d, m, k) \<in> set (onTeardown w1)" using e(3) unfolding x by (simp add: w1_def)
      have "\<not> expired c w" using u by (simp add: expired_def)
      then show "(m, k) \<in> set (tearing w1)" if "expired d w1"
        using that e(2,3) unfolding x by (auto simp: w1_def image_iff)
    qed
    moreover have "(\<lambda>k. cm_Find k M w1) = (\<lambda>k. if A k = Some c then None else A k)" unfolding M(4) f ..
    ultimately show ?thesis using M(1,2) Some by (auto simp: map_rel_def t1_def w1_def)
  qed
  then have "cm_rel (w1, l) t1" using assms(1) unfolding cm_rel_def by (auto simp: t1_def w1_def)
  then show ?thesis using w t by simp
qed

lemma cm_rel_create:
  assumes "cm_rel (w, l) t" "\<not> known t c"
  shows "cm_rel (context_create c w, l) (t\<lparr>known := (known t)(c := True), refs := (refs t)(c := 1)\<rparr>)"
proof -
  note r = cm_relE [OF assms(1)]
  have nc: "\<not> created w c" using assms(2) r(3) by simp
  have "map_rel m (context_create c w) (contents t m)" for m
  proof (cases "contents t m")
    case None
    then show ?thesis using r(5) [of m] by (simp add: map_rel_def context_create_def)
  next
    case (Some A)
    then obtain M where M: "cmaps w m = Some M" "\<not> tracker_destroyed M" "entries_ok m M w" "A = (\<lambda>k. cm_Find k M w)"
      using r(5) [of m] map_relE by metis
    have x: "expired d (context_create c w) = expired d w" if "(k, d) \<in> set (m_contexts M)" for k d
      using entries_okD(1) [OF M(3) that] nc by (auto simp: expired_def context_create_def)
    have "cm_Find k M (context_create c w) = cm_Find k M w" for k
      using x map_of_SomeD by (fastforce simp: cm_Find_def weak_lock_def split: option.splits)
    moreover have "entries_ok m M (context_create c w)"
      using M(3) entries_okD [OF M(3)] x
      by (intro entries_okI) (auto simp: entries_ok_def context_create_def)
    ultimately show ?thesis using M(1,2,4) Some by (auto simp: map_rel_def context_create_def)
  qed
  then show ?thesis using assms(1) unfolding cm_rel_def by (auto simp: context_create_def)
qed

lemma cm_rel_share:
  assumes "cm_rel (w, l) t" "refs t c > 0"
  shows "cm_rel (context_share c w, l) (t\<lparr>refs := (refs t)(c := Suc (refs t c))\<rparr>)"
proof -
  note r = cm_relE [OF assms(1)]
  have u: "use_count w c > 0" using assms(2) r(2) by simp
  have x: "expired d (context_share c w) = expired d w" for d using u by (auto simp: expired_def context_share_def)
  have "map_rel m (context_share c w) (contents t m)" for m
    using map_rel_frame [OF r(5) [of m] _ x] by (simp add: context_share_def)
  then show ?thesis using assms(1) u unfolding cm_rel_def by (auto simp: context_share_def)
qed

text \<open>Operations that change one map and nothing else.\<close>

lemma cm_rel_one_map:
  assumes "cm_rel (w, l) t" "map_rel m (w\<lparr>cmaps := (cmaps w)(m := X)\<rparr>) A"
  shows "used t m \<Longrightarrow> cm_rel (w\<lparr>cmaps := (cmaps w)(m := X)\<rparr>, l) (t\<lparr>contents := (contents t)(m := A)\<rparr>)"
    and "cm_rel (w\<lparr>cmaps := (cmaps w)(m := X)\<rparr>, l) (t\<lparr>contents := (contents t)(m := A), used := (used t)(m := True)\<rparr>)"
proof -
  have "map_rel m' (w\<lparr>cmaps := (cmaps w)(m := X)\<rparr>) (contents t m')" if "m' \<noteq> m" for m'
    using map_rel_frame [OF cm_relE(5) [OF assms(1), of m']] that by (simp add: expired_def)
  then show "used t m \<Longrightarrow> cm_rel (w\<lparr>cmaps := (cmaps w)(m := X)\<rparr>, l) (t\<lparr>contents := (contents t)(m := A)\<rparr>)"
    "cm_rel (w\<lparr>cmaps := (cmaps w)(m := X)\<rparr>, l) (t\<lparr>contents := (contents t)(m := A), used := (used t)(m := True)\<rparr>)"
    using assms unfolding cm_rel_def by auto
qed

lemma cm_rel_clear:
  assumes "cm_rel (w, l) t" "contents t m = Some A" "cmaps w m = Some M" "\<not> tracker_destroyed M"
  shows "cm_rel (w\<lparr>cmaps := (cmaps w)(m \<mapsto> cm_clear M)\<rparr>, l) (t\<lparr>contents := (contents t)(m \<mapsto> Map.empty)\<rparr>)"
proof -
  have "used t m" using cm_relE(6) [OF assms(1), of m] assms(2) by auto
  moreover have "map_rel m (w\<lparr>cmaps := (cmaps w)(m \<mapsto> cm_clear M)\<rparr>) (Some Map.empty)"
    using assms(4) by (auto simp: map_rel_def entries_ok_def cm_clear_def cm_Find_def map_ok_def)
  ultimately show ?thesis using cm_rel_one_map(1) [OF assms(1)] by blast
qed

lemma cm_rel_new_map:
  assumes "cm_rel (w, l) t"
  shows "cm_rel (cm_new m w, l) (t\<lparr>contents := (contents t)(m \<mapsto> Map.empty), used := (used t)(m := True)\<rparr>)"
proof -
  have "map_rel m (cm_new m w) (Some Map.empty)"
    by (auto simp: map_rel_def cm_new_def entries_ok_def cm_Find_def map_ok_def)
  then show ?thesis using cm_rel_one_map(2) [OF assms] unfolding cm_new_def by blast
qed

lemma cm_rel_dtor:
  assumes "cm_rel (w, l) t" "contents t m = Some A"
  shows "cm_rel (cm_dtor m held w, l) (t\<lparr>contents := (contents t)(m := None)\<rparr>)"
proof -
  have u: "used t m" using cm_relE(6) [OF assms(1), of m] assms(2) by auto
  obtain M where M: "cmaps w m = Some M" using cm_relE(5) [OF assms(1), of m] assms(2) by (auto simp: map_rel_def)
  have "map_rel m (cm_dtor m held w) None" by (simp add: map_rel_def cm_dtor_def M)
  then show ?thesis using cm_rel_one_map(1) [OF assms(1) _ u] M by (simp add: cm_dtor_def)
qed

lemma cm_exec_simulates:
  assumes "cm_rel s t" "cm_spec_exec op t = Some (Inr t')"
  shows "\<exists>s'. cm_exec op s = Some (Inr s') \<and> cm_rel s' t'"
proof -
  obtain w l where s: "s = (w, l)" by (cases s)
  note rel = assms(1) [unfolded s]
  note r = cm_relE [OF rel]
  have read: "\<exists>M. cmaps w m = Some M \<and> \<not> tracker_destroyed M \<and> map_ok (m_contexts M) \<and> A = (\<lambda>k. cm_Find k M w)"
    if "contents t m = Some A" for m A
    using r(5) [of m] that by (auto simp: map_rel_def entries_ok_def)
  have log: "cm_rel (w, l @ [x]) (t\<lparr>seen_log := seen_log t @ [x]\<rparr>)" for x
    using rel by (auto simp: cm_rel_def)
  show ?thesis
  proof (cases op)
    case (C_new m)
    then show ?thesis using assms(2) cm_rel_new_map [OF rel, of m] s by (auto split: if_splits)
  next
    case (C_dtor m held)
    then show ?thesis using assms(2) cm_rel_dtor [OF rel, of m _ held] s by (auto split: if_splits)
  next
    case (C_add m k c)
    then show ?thesis using assms(2) cm_rel_add [OF rel, of m k c t'] s by simp
  next
    case (C_find m k)
    then obtain A where A: "contents t m = Some A" "t' = t\<lparr>seen_log := seen_log t @ [Found (A k)]\<rparr>"
      using assms(2) by (auto split: option.splits)
    then show ?thesis using read [OF A(1)] log s C_find by auto
  next
    case (C_enumerate m fn)
    then obtain A where A: "contents t m = Some A" "t' = t\<lparr>seen_log := seen_log t @ [Visited (visit_until fn (pairs A))]\<rparr>"
      using assms(2) by (auto split: option.splits)
    then show ?thesis using read [OF A(1)] log s C_enumerate by (auto simp: cm_Enumerate_live pairs_Find)
  next
    case (C_iterate m)
    then obtain A where A: "contents t m = Some A" "t' = t\<lparr>seen_log := seen_log t @ [Visited (pairs A)]\<rparr>"
      using assms(2) by (auto split: option.splits)
    then show ?thesis using read [OF A(1)] log s C_iterate by (auto simp: iterate_live pairs_Find)
  next
    case (C_clear m)
    then show ?thesis using assms(2) read [of m] cm_rel_clear [OF rel, of m] s by (fastforce split: option.splits)
  next
    case (C_create c)
    then show ?thesis using assms(2) cm_rel_create [OF rel, of c] s by (auto split: if_splits)
  next
    case (C_share c)
    then show ?thesis using assms(2) cm_rel_share [OF rel, of c] s by (auto split: if_splits)
  next
    case (C_release c)
    then have "refs t c > 0" using assms(2) by (auto split: if_splits)
    then show ?thesis using cm_rel_release [OF rel, of c] assms(2) C_release s by auto
  next
    case (C_handler i)
    then show ?thesis using assms(2) cm_rel_handler [OF rel, of i] s by simp
  qed
qed

interpretation cm: forward_simulation cm_exec cm_spec_exec cm_rel
  by unfold_locales (rule cm_exec_simulates)

lemma tearing_empty_exact:
  assumes "cm_rel (w, l) t" "contents t m = Some A" "tearing w = []"
  shows "\<exists>M. cmaps w m = Some M \<and> map_of (m_contexts M) = A \<and> cm_size M = card (dom A)"
proof -
  obtain M where M: "cmaps w m = Some M" "entries_ok m M w" "A = (\<lambda>k. cm_Find k M w)"
    using cm_relE(5) [OF assms(1), of m] assms(2) map_relE by metis
  have ok: "map_ok (m_contexts M)" using M(2) by (simp add: entries_ok_def)
  have "\<not> expired c w" if "(k, c) \<in> set (m_contexts M)" for k c
    using entries_okD(2) [OF M(2) that] assms(3) by auto
  then have "live_entries M w = m_contexts M" by (auto simp: live_entries_def filter_id_conv)
  then have A: "A = map_of (m_contexts M)" using M(3) cm_Find_live [OF ok, of _ w] by auto
  moreover have "card (dom (map_of (m_contexts M))) = length (m_contexts M)"
    using ok distinct_card [of "map fst (m_contexts M)"]
    by (simp add: map_ok_def strict_sorted_iff dom_map_of_conv_image_fst)
  ultimately show ?thesis using M(1) by (auto simp: cm_size_def)
qed

text \<open>
  C21.  Context maps refine maps of existing contexts: for every sequence of additions, lookups, enumerations, clearings, creations and
  releases of contexts, destructions of maps, and runs of teardown handlers at any time and in any order, the operations return the same as
  those of maps from which a context disappears at the moment when its last reference goes; an addition fails exactly if an existing context has
  the key.  Once every raised handler has run, a map has no entry but those of existing contexts, so its size is their number.
\<close>

theorem context_map_refines:
  fixes ops :: "'k::linorder cm_op list"
  assumes "run_all cm_spec_exec ops spec_new = Some (Inr t)"
  shows "\<exists>w. run_all cm_exec ops (world_new, []) = Some (Inr (w, seen_log t)) \<and>
    (\<forall>m A. contents t m = Some A \<longrightarrow> (\<exists>M. cmaps w m = Some M \<and> (\<forall>k. cm_Find k M w = A k) \<and>
       (tearing w = [] \<longrightarrow> map_of (m_contexts M) = A \<and> cm_size M = card (dom A))))"
proof -
  from cm.run [OF cm_rel_new assms] obtain w l where
    run: "run_all cm_exec ops (world_new, []) = Some (Inr (w, l))" and rel: "cm_rel (w, l) t" by auto
  have "l = seen_log t" using cm_relE(1) [OF rel] .
  moreover have "\<exists>M. cmaps w m = Some M \<and> (\<forall>k. cm_Find k M w = A k) \<and>
      (tearing w = [] \<longrightarrow> map_of (m_contexts M) = A \<and> cm_size M = card (dom A))" if cA: "contents t m = Some A" for m A
  proof -
    obtain M where M: "cmaps w m = Some M" "A = (\<lambda>k. cm_Find k M w)"
      by (rule map_relE [OF cm_relE(5) [OF rel, of m, unfolded cA]])
    have "map_of (m_contexts M) = A \<and> cm_size M = card (dom A)" if e: "tearing w = []"
    proof -
      obtain N where N: "cmaps w m = Some N" "map_of (m_contexts N) = A \<and> cm_size N = card (dom A)"
        using tearing_empty_exact [OF rel cA e] by blast
      have "N = M" using N(1) M(1) by simp
      then show ?thesis using N(2) by blast
    qed
    moreover have "cm_Find k M w = A k" for k unfolding M(2) ..
    ultimately show ?thesis using M(1) by blast
  qed
  ultimately show ?thesis using run by blast
qed

text \<open>The same key is taken by a second context while the handler of the first has not run yet.\<close>

theorem context_map_refines_witness:
  "\<exists>w. run_all cm_exec [C_new 0, C_create 1, C_create 2, C_add 0 (5::nat) 1, C_release 1, C_add 0 5 2, C_handler 0, C_find 0 5]
     (world_new, []) = Some (Inr (w, [Added True, Added True, Found (Some 2)]))"
proof -
  let ?ops = "[C_new 0, C_create 1, C_create 2, C_add 0 (5::nat) 1, C_release 1, C_add 0 5 2, C_handler 0, C_find 0 5]"
  have "\<exists>t. run_all cm_spec_exec ?ops spec_new = Some (Inr t) \<and> seen_log t = [Added True, Added True, Found (Some 2)]"
    by (simp add: spec_new_def Let_def)
  then obtain t where t: "run_all cm_spec_exec ?ops spec_new = Some (Inr t)" "seen_log t = [Added True, Added True, Found (Some 2)]"
    by blast
  from context_map_refines [OF t(1)] obtain w where
    "run_all cm_exec ?ops (world_new, []) = Some (Inr (w, seen_log t))" by blast
  then show ?thesis unfolding t(2) by blast
qed

end
