(* ===== verification/Packet_Factory.thy ===== *)
theory Packet_Factory
  imports Auto_Packet "HOL-Library.Word"
begin

text \<open>
  The factory of packets (\<open>AutoPacketFactory.{h,cpp}\<close>).  A packet is known by its address; shared pointers to it are counted in
  \<open>pk_refs\<close>.  Every packet holds a token, the object behind \<open>m_outstandingInternal\<close>, whose use count is \<open>tokens\<close> and which holds the
  outstanding counter of the context while it exists (\<open>token_holds\<close>).  The set of subscribers is the list of its elements in the order of
  \<open>descriptor_less\<close>.  Statistics about durations are floating-point numbers and are left out, except for the number of packets.

  Addresses of new objects are parameters; \<open>invoke\<close> is the effect of filters on the packet, as in \<open>Auto_Packet\<close>.
\<close>

section \<open>The set of subscribers\<close>

fun set_insert :: "AutoFilterDescriptor \<Rightarrow> AutoFilterDescriptor list \<Rightarrow> AutoFilterDescriptor list" where
  "set_insert d [] = [d]"
| "set_insert d (e # es) =
     (if descriptor_less d e then d # e # es
      else if descriptor_less e d then e # set_insert d es else e # es)"

definition set_erase :: "AutoFilterDescriptor \<Rightarrow> AutoFilterDescriptor list \<Rightarrow> AutoFilterDescriptor list" where
  "set_erase d xs = filter (\<lambda>e. descriptor_less d e \<or> descriptor_less e d) xs"

section \<open>State\<close>

record packet =
  pk_refs :: nat
  pk_token :: nat
  pk_state :: AutoPacket

record PacketFactory =
  fac_wasStarted :: bool
  fac_outstanding :: bool
  fac_shouldStop :: bool
  m_outstandingInternal :: "nat option"
  m_curPacket :: ptr
  m_nextPacket :: ptr
  m_autoFilters :: "AutoFilterDescriptor list"
  m_packetCount :: int
  packets :: "addr \<rightharpoonup> packet"
  tokens :: "nat \<Rightarrow> nat"
  token_holds :: "nat \<Rightarrow> bool"
  token_next :: nat

definition factory_new :: PacketFactory where
  "factory_new = \<lparr>fac_wasStarted = False, fac_outstanding = False, fac_shouldStop = False, m_outstandingInternal = None,
     m_curPacket = None, m_nextPacket = None, m_autoFilters = [], m_packetCount = 0, packets = Map.empty,
     tokens = (\<lambda>_. 0), token_holds = (\<lambda>_. False), token_next = 0\<rparr>"

section \<open>Tokens and packets\<close>

definition internal_use_count :: "PacketFactory \<Rightarrow> nat" where
  "internal_use_count fac = (case m_outstandingInternal fac of None \<Rightarrow> 0 | Some t \<Rightarrow> tokens fac t)"

definition GetInternalOutstanding :: "PacketFactory \<Rightarrow> nat \<times> PacketFactory" where
  "GetInternalOutstanding fac =
     (case m_outstandingInternal fac of
        Some t \<Rightarrow>
          if tokens fac t \<noteq> 0 then (t, fac\<lparr>tokens := (tokens fac)(t := Suc (tokens fac t))\<rparr>)
          else (token_next fac, fac\<lparr>m_outstandingInternal := Some (token_next fac), tokens := (tokens fac)(token_next fac := 1),
                  token_holds := (token_holds fac)(token_next fac := fac_outstanding fac), token_next := Suc (token_next fac)\<rparr>)
      | None \<Rightarrow>
          (token_next fac, fac\<lparr>m_outstandingInternal := Some (token_next fac), tokens := (tokens fac)(token_next fac := 1),
             token_holds := (token_holds fac)(token_next fac := fac_outstanding fac), token_next := Suc (token_next fac)\<rparr>))"

definition ConstructPacket :: "addr \<Rightarrow> PacketFactory \<Rightarrow> PacketFactory" where
  "ConstructPacket a fac =
     (case GetInternalOutstanding fac of (t, fac1) \<Rightarrow>
        fac1\<lparr>packets := (packets fac1)(a \<mapsto> \<lparr>pk_refs = 1, pk_token = t, pk_state = packet_new\<rparr>)\<rparr>)"

text \<open>A shared pointer to a packet goes.  With the last one the packet goes, and with the last packet the token.\<close>

definition release_packet :: "addr \<Rightarrow> PacketFactory \<Rightarrow> PacketFactory" where
  "release_packet a fac =
     (case packets fac a of
        None \<Rightarrow> fac
      | Some pk \<Rightarrow>
          if pk_refs pk > 1 then fac\<lparr>packets := (packets fac)(a \<mapsto> pk\<lparr>pk_refs := pk_refs pk - 1\<rparr>)\<rparr>
          else let t = pk_token pk; n = tokens fac t - 1 in
            fac\<lparr>packets := (packets fac)(a := None), tokens := (tokens fac)(t := n),
                token_holds := (if n = 0 then (token_holds fac)(t := False) else token_holds fac)\<rparr>)"

definition release_opt :: "ptr \<Rightarrow> PacketFactory \<Rightarrow> PacketFactory" where
  "release_opt p fac = (case p of None \<Rightarrow> fac | Some a \<Rightarrow> release_packet a fac)"

definition share_packet :: "addr \<Rightarrow> PacketFactory \<Rightarrow> PacketFactory" where
  "share_packet a fac =
     (case packets fac a of None \<Rightarrow> fac
      | Some pk \<Rightarrow> fac\<lparr>packets := (packets fac)(a \<mapsto> pk\<lparr>pk_refs := Suc (pk_refs pk)\<rparr>)\<rparr>)"

section \<open>Subscribers\<close>

definition AddSubscriber :: "AutoFilterDescriptor \<Rightarrow> PacketFactory \<Rightarrow> PacketFactory" where
  "AddSubscriber rhs fac = fac\<lparr>m_autoFilters := set_insert rhs (m_autoFilters fac)\<rparr>"

definition RemoveSubscriber :: "AutoFilterDescriptor \<Rightarrow> PacketFactory \<Rightarrow> PacketFactory" where
  "RemoveSubscriber autoFilter fac = fac\<lparr>m_autoFilters := set_erase autoFilter (m_autoFilters fac)\<rparr>"

definition GetAutoFilters :: "PacketFactory \<Rightarrow> AutoFilterDescriptor list" where
  "GetAutoFilters fac = m_autoFilters fac"

definition AppendAutoFiltersTo :: "AutoFilterDescriptor list \<Rightarrow> PacketFactory \<Rightarrow> AutoFilterDescriptor list" where
  "AppendAutoFiltersTo container fac = container @ m_autoFilters fac"

definition GetTypeDescriptorUnsafe :: "auto_id \<Rightarrow> PacketFactory \<Rightarrow> AutoFilterDescriptor" where
  "GetTypeDescriptorUnsafe nodeType fac =
     (case find (\<lambda>af. m_type af = nodeType) (m_autoFilters fac) of Some af \<Rightarrow> af | None \<Rightarrow> descriptor_empty)"

text \<open>
  The list of counters, built from the front: each new counter is linked before the list so far.  \<open>as\<close> are the addresses of the new
  counters.
\<close>

fun push_counters :: "(AutoFilterDescriptor \<times> addr) list \<Rightarrow> addr \<Rightarrow> (addr \<rightharpoonup> SatCounter) \<Rightarrow> addr \<times> (addr \<rightharpoonup> SatCounter)" where
  "push_counters [] retVal h = (retVal, h)"
| "push_counters ((q, nx) # qs) retVal h =
     push_counters qs nx
       ((case h retVal of None \<Rightarrow> h | Some s \<Rightarrow> h(retVal \<mapsto> s\<lparr>blink := Some nx\<rparr>))(nx \<mapsto> (mk_sat_counter q)\<lparr>flink := Some retVal\<rparr>))"

definition CreateSatCounterList :: "addr list \<Rightarrow> PacketFactory \<Rightarrow> ptr \<times> (addr \<rightharpoonup> SatCounter)" where
  "CreateSatCounterList as fac =
     (case zip (m_autoFilters fac) as of
        [] \<Rightarrow> (None, Map.empty)
      | (q, a) # qs \<Rightarrow> (case push_counters qs a [a \<mapsto> mk_sat_counter q] of (r, h) \<Rightarrow> (Some r, h)))"

section \<open>Life cycle\<close>

definition fac_IsRunning :: "PacketFactory \<Rightarrow> bool" where
  "fac_IsRunning fac \<longleftrightarrow> fac_outstanding fac \<or> internal_use_count fac \<noteq> 0"

definition fac_CurrentPacket :: "PacketFactory \<Rightarrow> ptr" where
  "fac_CurrentPacket fac =
     (case m_curPacket fac of None \<Rightarrow> None | Some a \<Rightarrow> if packets fac a = None then None else Some a)"

definition NewPacket ::
  "unit filter_call \<Rightarrow> addr list \<Rightarrow> addr \<Rightarrow> PacketFactory \<Rightarrow> (aw_error option \<times> ptr \<times> PacketFactory) option" where
  "NewPacket invoke as a fac =
     (if fac_shouldStop fac then
        Some (Some (autowiring_error ''Attempted to create a packet on an AutoPacketFactory that was already terminated''), None, fac)
      else if \<not> fac_IsRunning fac then
        Some (Some (autowiring_error ''Cannot create a packet until the AutoPacketFactory is started''), None, fac)
      else let retVal = m_nextPacket fac;
               fac1 = ConstructPacket a (fac\<lparr>m_packetCount := m_packetCount fac + 1, m_nextPacket := None\<rparr>);
               fac2 = fac1\<lparr>m_nextPacket := Some a, m_curPacket := retVal\<rparr>
           in case Option.bind retVal (packets fac2) of
                None \<Rightarrow> Some (Some Undefined_behaviour, None, fac2)
              | Some pk \<Rightarrow>
                  (case CreateSatCounterList as fac2 of (first, h) \<Rightarrow>
                     Option.bind (Initialize invoke first h (pk_state pk)) (\<lambda>(exc, p).
                       let fac3 = fac2\<lparr>packets := (packets fac2)(the retVal \<mapsto> pk\<lparr>pk_state := p\<rparr>)\<rparr> in
                       case exc of
                         None \<Rightarrow> Some (None, retVal, fac3)
                       | Some e \<Rightarrow> Some (Some e, None, release_opt retVal fac3))))"

definition fac_OnStart :: "addr \<Rightarrow> PacketFactory \<Rightarrow> PacketFactory" where
  "fac_OnStart a fac = (ConstructPacket a fac)\<lparr>m_nextPacket := Some a\<rparr>"

definition fac_OnStop :: "PacketFactory \<Rightarrow> PacketFactory" where
  "fac_OnStop fac = release_opt (m_nextPacket fac) (fac\<lparr>m_autoFilters := [], m_nextPacket := None\<rparr>)"

text \<open>\<open>CoreRunnable::Start\<close> and \<open>CoreRunnable::Stop\<close> on the factory.\<close>

definition fac_Start :: "addr \<Rightarrow> PacketFactory \<Rightarrow> PacketFactory" where
  "fac_Start a fac =
     (if fac_wasStarted fac \<or> fac_outstanding fac \<or> fac_shouldStop fac then fac
      else fac_OnStart a (fac\<lparr>fac_wasStarted := True, fac_outstanding := True\<rparr>))"

definition fac_Stop :: "PacketFactory \<Rightarrow> PacketFactory" where
  "fac_Stop fac =
     (let fac1 = (if \<not> fac_shouldStop fac then fac_OnStop (fac\<lparr>fac_shouldStop := True\<rparr>) else fac)
      in fac1\<lparr>fac_outstanding := False\<rparr>)"

definition fac_Clear :: "PacketFactory \<Rightarrow> PacketFactory" where
  "fac_Clear fac = fac_Stop fac"

definition fac_wait_pred :: "PacketFactory \<Rightarrow> bool" where
  "fac_wait_pred fac \<longleftrightarrow> fac_shouldStop fac \<and> internal_use_count fac = 0"

text \<open>The difference is taken in a signed type and converted to an unsigned one of 64 bits.\<close>

definition GetOutstandingPacketCount :: "PacketFactory \<Rightarrow> nat" where
  "GetOutstandingPacketCount fac = unat (of_int (int (internal_use_count fac) - 1) :: 64 word)"

definition GetTotalPacketCount :: "PacketFactory \<Rightarrow> int" where
  "GetTotalPacketCount fac = m_packetCount fac"

definition ResetPacketStatistics :: "PacketFactory \<Rightarrow> PacketFactory" where
  "ResetPacketStatistics fac = fac\<lparr>m_packetCount := 0\<rparr>"

section \<open>Runs\<close>

datatype fac_op =
    F_start addr | F_stop | F_new "addr list" addr | F_add AutoFilterDescriptor | F_remove AutoFilterDescriptor
  | F_share addr | F_release addr | F_reset

text \<open>
  Clients share and release packets that they have been given.  \<open>NewPacket\<close> leaves the factory in its last state also
  when it throws.
\<close>

fun fac_exec :: "unit filter_call \<Rightarrow> fac_op \<Rightarrow> PacketFactory \<Rightarrow> PacketFactory option" where
  "fac_exec invoke (F_start a) fac = Some (fac_Start a fac)"
| "fac_exec invoke F_stop fac = Some (fac_Stop fac)"
| "fac_exec invoke (F_new as a) fac = map_option (snd \<circ> snd) (NewPacket invoke as a fac)"
| "fac_exec invoke (F_add d) fac = Some (AddSubscriber d fac)"
| "fac_exec invoke (F_remove d) fac = Some (RemoveSubscriber d fac)"
| "fac_exec invoke (F_share a) fac = Some (share_packet a fac)"
| "fac_exec invoke (F_release a) fac = Some (release_packet a fac)"
| "fac_exec invoke F_reset fac = Some (ResetPacketStatistics fac)"

fun fac_allowed :: "fac_op \<Rightarrow> PacketFactory \<Rightarrow> bool" where
  "fac_allowed (F_start a) fac \<longleftrightarrow> packets fac a = None"
| "fac_allowed (F_new as a) fac \<longleftrightarrow> packets fac a = None"
| "fac_allowed (F_share a) fac \<longleftrightarrow> m_nextPacket fac \<noteq> Some a"
| "fac_allowed (F_release a) fac \<longleftrightarrow> m_nextPacket fac \<noteq> Some a"
| "fac_allowed _ fac \<longleftrightarrow> True"

inductive fac_reachable :: "unit filter_call \<Rightarrow> PacketFactory \<Rightarrow> bool" for invoke where
  fac_init: "fac_reachable invoke factory_new"
| fac_step: "fac_reachable invoke fac \<Longrightarrow> fac_allowed op fac \<Longrightarrow> fac_exec invoke op fac = Some fac' \<Longrightarrow> fac_reachable invoke fac'"

end
