(* ===== verification/Packet_Factory_Props.thy ===== *)
theory Packet_Factory_Props
  imports Packet_Factory
begin

text \<open>
  Properties of the packet factory: the set of subscribers is kept in order, the counters of a packet are one per subscriber in the order of
  altitudes, and the tokens count the packets that exist.
\<close>

section \<open>The order of descriptors\<close>

lemma ptr_less_irrefl [simp]: "\<not> ptr_less p p"
  by (cases p) simp_all

lemma ptr_less_trans: "ptr_less p q \<Longrightarrow> ptr_less q r \<Longrightarrow> ptr_less p r"
  by (cases p; cases q; cases r) simp_all

lemma ptr_less_total: "p \<noteq> q \<Longrightarrow> ptr_less p q \<or> ptr_less q p"
  by (cases p; cases q) auto

lemma descriptor_less_irrefl [simp]: "\<not> descriptor_less d d"
  by (simp add: descriptor_less_def)

lemma descriptor_less_trans: "descriptor_less d e \<Longrightarrow> descriptor_less e f \<Longrightarrow> descriptor_less d f"
  unfolding descriptor_less_def by (auto intro: ptr_less_trans)

text \<open>Descriptors that are not ordered agree in altitude, call and object.\<close>

definition same_key :: "AutoFilterDescriptor \<Rightarrow> AutoFilterDescriptor \<Rightarrow> bool" where
  "same_key d e \<longleftrightarrow> m_altitude d = m_altitude e \<and> m_pCall d = m_pCall e \<and> m_autoFilter d = m_autoFilter e"

lemma descriptor_total: "\<not> same_key d e \<longleftrightarrow> descriptor_less d e \<or> descriptor_less e d"
  unfolding same_key_def descriptor_less_def using ptr_less_total by (auto simp: not_less_iff_gr_or_eq)

definition filters_ok :: "AutoFilterDescriptor list \<Rightarrow> bool" where
  "filters_ok xs \<longleftrightarrow> sorted_wrt descriptor_less xs"

lemma set_insert_set:
  "set (set_insert d xs) = (if \<exists>e\<in>set xs. same_key d e then set xs else insert d (set xs))" if "filters_ok xs"
  using that
proof (induction d xs rule: set_insert.induct)
  case (2 d e es)
  have es: "filters_ok es" "\<forall>f\<in>set es. descriptor_less e f" using "2.prems" by (simp_all add: filters_ok_def)
  show ?case
  proof (cases "descriptor_less d e")
    case True
    then have "\<not> same_key d f" if "f \<in> set (e # es)" for f
      using that es(2) descriptor_less_trans descriptor_total by (metis set_ConsD)
    then show ?thesis using True by auto
  next
    case False
    then show ?thesis using 2 es descriptor_total [of d e] by auto
  qed
qed simp

lemma set_insert_ok: "filters_ok xs \<Longrightarrow> filters_ok (set_insert d xs)"
proof (induction d xs rule: set_insert.induct)
  case (2 d e es)
  then have es: "filters_ok es" "\<forall>f\<in>set es. descriptor_less e f" by (simp_all add: filters_ok_def)
  then show ?case
    using 2 set_insert_set [OF es(1), of d] descriptor_less_trans unfolding filters_ok_def by (fastforce split: if_splits)
qed (simp add: filters_ok_def)

lemma set_erase_ok: "filters_ok xs \<Longrightarrow> filters_ok (set_erase d xs)"
  by (simp add: filters_ok_def set_erase_def sorted_wrt_filter)

lemma set_erase_set: "set (set_erase d xs) = {e \<in> set xs. \<not> same_key d e}"
  using descriptor_total by (auto simp: set_erase_def)

section \<open>The list of counters\<close>

definition flinks :: "(addr \<rightharpoonup> SatCounter) \<Rightarrow> addr \<rightharpoonup> ptr" where
  "flinks h = (\<lambda>a. map_option flink (h a))"

definition blinks :: "(addr \<rightharpoonup> SatCounter) \<Rightarrow> addr \<rightharpoonup> ptr" where
  "blinks h = (\<lambda>a. map_option blink (h a))"

text \<open>What a list of counters holds: one counter per pair, linked both ways, with all inputs of its filter missing.\<close>

definition counters_ok :: "(AutoFilterDescriptor \<times> addr) list \<Rightarrow> (addr \<rightharpoonup> SatCounter) \<Rightarrow> bool" where
  "counters_ok ds h \<longleftrightarrow> dom h = snd ` set ds \<and> distinct (map snd ds) \<and>
     chain (flinks h) (case ds of [] \<Rightarrow> None | (d, a) # _ \<Rightarrow> Some a) (map snd ds) None \<and>
     chain (blinks h) (case rev ds of [] \<Rightarrow> None | (d, a) # _ \<Rightarrow> Some a) (map snd (rev ds)) None \<and>
     (\<forall>(d, a)\<in>set ds. \<exists>s. h a = Some s \<and> AutoFilterDescriptor.truncate s = d \<and> remaining s = m_requiredCount d)"

lemma truncate_mk [simp]:
  "AutoFilterDescriptor.truncate (mk_sat_counter d) = d" "remaining (mk_sat_counter d) = m_requiredCount d"
  "flink (mk_sat_counter d) = None" "blink (mk_sat_counter d) = None"
  by (cases d, simp add: mk_sat_counter_def AutoFilterDescriptor.truncate_def AutoFilterDescriptor.extend_def)+

lemma truncate_links [simp]:
  "AutoFilterDescriptor.truncate (s\<lparr>flink := p\<rparr>) = AutoFilterDescriptor.truncate s"
  "AutoFilterDescriptor.truncate (s\<lparr>blink := p\<rparr>) = AutoFilterDescriptor.truncate s"
  by (simp_all add: AutoFilterDescriptor.truncate_def)

lemma counters_ok_push:
  assumes "counters_ok ((d, a) # ds) h" "h b = None" "h a = Some s"
  shows "counters_ok ((e, b) # (d, a) # ds) (h(a \<mapsto> s\<lparr>blink := Some b\<rparr>, b \<mapsto> (mk_sat_counter e)\<lparr>flink := Some a\<rparr>))"
proof -
  let ?h = "h(a \<mapsto> s\<lparr>blink := Some b\<rparr>, b \<mapsto> (mk_sat_counter e)\<lparr>flink := Some a\<rparr>)"
  have dom: "dom h = insert a (snd ` set ds)" and di: "a \<notin> snd ` set ds" "distinct (map snd ds)"
    and fl: "chain (flinks h) (Some a) (a # map snd ds) None"
    and bl: "chain (blinks h) (case rev ((d, a) # ds) of [] \<Rightarrow> None | (d, a) # _ \<Rightarrow> Some a) (map snd (rev ds) @ [a]) None"
    using assms(1) by (auto simp: counters_ok_def)
  have b: "b \<noteq> a" "b \<notin> snd ` set ds" using assms(2) dom by auto
  have f: "flinks ?h = (flinks h)(b \<mapsto> Some a)" using assms(3) b by (auto simp: flinks_def fun_eq_iff)
  have bk: "blinks ?h = (blinks h)(a \<mapsto> Some b, b \<mapsto> None)" by (auto simp: blinks_def fun_eq_iff)
  have "chain (flinks ?h) (Some b) (b # a # map snd ds) None"
    unfolding f using fl b by (simp split: option.splits)
  moreover have "chain (blinks ?h) (case rev ((d, a) # ds) of [] \<Rightarrow> None | (d, a) # _ \<Rightarrow> Some a) (map snd (rev ds) @ [a, b]) None"
  proof -
    obtain r where r: "chain (blinks h) (case rev ((d, a) # ds) of [] \<Rightarrow> None | (d, a) # _ \<Rightarrow> Some a) (map snd (rev ds)) r"
      "chain (blinks h) r [a] None"
      using bl unfolding chain_append by blast
    have "r = Some a" using r(2) by simp
    then have "chain (blinks ?h) r [a, b] None" unfolding bk using b by simp
    moreover have "chain (blinks ?h) (case rev ((d, a) # ds) of [] \<Rightarrow> None | (d, a) # _ \<Rightarrow> Some a) (map snd (rev ds)) r"
      unfolding bk using r(1) b di by simp
    ultimately show ?thesis unfolding chain_append by blast
  qed
  moreover have "(case rev ((e, b) # (d, a) # ds) of [] \<Rightarrow> None | (d, a) # _ \<Rightarrow> Some a) =
      (case rev ((d, a) # ds) of [] \<Rightarrow> None | (d, a) # _ \<Rightarrow> Some a)"
    by (cases "rev ds") auto
  moreover have "\<forall>(f, c)\<in>set ((e, b) # (d, a) # ds). \<exists>s. ?h c = Some s \<and> AutoFilterDescriptor.truncate s = f \<and> remaining s = m_requiredCount f"
    using assms(1,3) b di unfolding counters_ok_def by (auto simp: image_iff)
  ultimately show ?thesis
    unfolding counters_ok_def using dom di b by auto
qed

lemma push_counters_ok:
  assumes "counters_ok ((d, a) # ds) h" "distinct (map snd qs)" "\<forall>(q, b)\<in>set qs. h b = None"
  shows "\<exists>r h'. push_counters qs a h = (r, h') \<and> counters_ok (rev qs @ (d, a) # ds) h' \<and>
     r = snd (hd (rev qs @ (d, a) # ds))"
  using assms
proof (induction qs arbitrary: d a ds h)
  case (Cons q qs)
  obtain e b where q: "q = (e, b)" by (cases q)
  obtain s where s: "h a = Some s" using Cons.prems(1) by (auto simp: counters_ok_def)
  let ?h = "h(a \<mapsto> s\<lparr>blink := Some b\<rparr>, b \<mapsto> (mk_sat_counter e)\<lparr>flink := Some a\<rparr>)"
  have ok: "counters_ok ((e, b) # (d, a) # ds) ?h"
    using counters_ok_push [OF Cons.prems(1) _ s] Cons.prems(3) q by simp
  have fresh: "\<forall>(q, c)\<in>set qs. ?h c = None"
    using Cons.prems(2,3) q s by (auto split: prod.splits) (force simp: image_iff)+
  have "distinct (map snd qs)" using Cons.prems(2) q by simp
  from Cons.IH [OF ok this fresh] obtain r h' where
    "push_counters qs b ?h = (r, h')" "counters_ok (rev qs @ (e, b) # (d, a) # ds) h'" "r = snd (hd (rev qs @ (e, b) # (d, a) # ds))"
    by blast
  then show ?case using q s by (simp add: hd_append split: if_splits)
qed auto

lemma CreateSatCounterList_ok:
  assumes "distinct as" "length as = length (m_autoFilters fac)"
  shows "\<exists>h. CreateSatCounterList as fac =
      (case rev as of [] \<Rightarrow> None | a # _ \<Rightarrow> Some a, h) \<and> counters_ok (rev (zip (m_autoFilters fac) as)) h"
proof (cases "zip (m_autoFilters fac) as")
  case Nil
  then have "as = []" using assms(2) by (cases as; cases "m_autoFilters fac") auto
  then show ?thesis by (auto simp: CreateSatCounterList_def counters_ok_def)
next
  case (Cons x qs)
  obtain q a where x: "x = (q, a)" by (cases x)
  have as: "map snd (zip (m_autoFilters fac) as) = as" using assms(2) by simp
  have d: "distinct (map snd ((q, a) # qs))" using as assms(1) Cons x by simp
  have "counters_ok [(q, a)] [a \<mapsto> mk_sat_counter q]"
    by (auto simp: counters_ok_def flinks_def blinks_def)
  moreover have "distinct (map snd qs)" "\<forall>(p, b)\<in>set qs. [a \<mapsto> mk_sat_counter q] b = None" using d by (auto simp: image_iff)
  ultimately obtain r h where
    "push_counters qs a [a \<mapsto> mk_sat_counter q] = (r, h)" "counters_ok (rev qs @ [(q, a)]) h" "r = snd (hd (rev qs @ [(q, a)]))"
    using push_counters_ok by blast
  moreover have "(case rev as of [] \<Rightarrow> None | a # _ \<Rightarrow> Some a) = Some (snd (hd (rev qs @ [(q, a)])))"
  proof -
    have "as = map snd ((q, a) # qs)" using as Cons x by simp
    then have "rev as = map snd (rev qs @ [(q, a)])" by (simp add: rev_map)
    then show ?thesis by (cases "rev qs") auto
  qed
  ultimately show ?thesis using Cons x by (auto simp: CreateSatCounterList_def)
qed

lemma altitudes_sorted:
  assumes "filters_ok xs"
  shows "sorted (map m_altitude (rev xs))"
  using assms
proof (induction xs)
  case (Cons d xs)
  then have "\<forall>e\<in>set xs. m_altitude e \<le> m_altitude d" by (auto simp: filters_ok_def descriptor_less_def)
  then show ?case using Cons by (auto simp: filters_ok_def sorted_append)
qed simp

section \<open>Tokens and packets\<close>

text \<open>All packets hold the current token, and its use count is their number.\<close>

definition tokens_ok :: "PacketFactory \<Rightarrow> bool" where
  "tokens_ok fac \<longleftrightarrow> finite (dom (packets fac)) \<and> internal_use_count fac = card (dom (packets fac)) \<and>
     (\<forall>a pk. packets fac a = Some pk \<longrightarrow> pk_refs pk > 0 \<and> m_outstandingInternal fac = Some (pk_token pk))"

lemma tokens_ok_frame [simp]:
  "tokens_ok (fac\<lparr>fac_wasStarted := b\<rparr>) = tokens_ok fac" "tokens_ok (fac\<lparr>fac_outstanding := b\<rparr>) = tokens_ok fac"
  "tokens_ok (fac\<lparr>fac_shouldStop := b\<rparr>) = tokens_ok fac" "tokens_ok (fac\<lparr>m_curPacket := p\<rparr>) = tokens_ok fac"
  "tokens_ok (fac\<lparr>m_nextPacket := p\<rparr>) = tokens_ok fac" "tokens_ok (fac\<lparr>m_autoFilters := xs\<rparr>) = tokens_ok fac"
  "tokens_ok (fac\<lparr>m_packetCount := n\<rparr>) = tokens_ok fac"
  by (simp_all add: tokens_ok_def internal_use_count_def cong: option.case_cong)

lemma tokens_ok_update:
  assumes "tokens_ok fac" "packets fac a = Some pk" "pk_token pk' = pk_token pk" "pk_refs pk' > 0"
  shows "tokens_ok (fac\<lparr>packets := (packets fac)(a \<mapsto> pk')\<rparr>)"
proof -
  have d: "dom ((packets fac)(a \<mapsto> pk')) = dom (packets fac)" using assms(2) by auto
  have t: "m_outstandingInternal fac = Some (pk_token pk)" "tokens fac (pk_token pk) = card (dom (packets fac))"
    using assms(1,2) by (auto simp: tokens_ok_def internal_use_count_def)
  let ?f = "fac\<lparr>packets := (packets fac)(a \<mapsto> pk')\<rparr>"
  have "pk_refs p > 0 \<and> m_outstandingInternal ?f = Some (pk_token p)" if "packets ?f b = Some p" for b p
  proof (cases "b = a")
    case True
    then show ?thesis using that assms(3,4) t(1) by simp
  next
    case False
    then have "packets fac b = Some p" using that by simp
    then show ?thesis using assms(1) unfolding tokens_ok_def by simp
  qed
  moreover have "finite (dom (packets ?f))" "internal_use_count ?f = card (dom (packets ?f))"
    using assms(1) d t by (simp_all add: tokens_ok_def internal_use_count_def)
  ultimately show ?thesis unfolding tokens_ok_def by blast
qed

lemma ConstructPacket_tokens:
  assumes "tokens_ok fac" "packets fac a = None"
  shows "tokens_ok (ConstructPacket a fac) \<and>
    (\<exists>t. packets (ConstructPacket a fac) = (packets fac)(a \<mapsto> \<lparr>pk_refs = 1, pk_token = t, pk_state = packet_new\<rparr>)) \<and>
    fac_wasStarted (ConstructPacket a fac) = fac_wasStarted fac \<and> fac_outstanding (ConstructPacket a fac) = fac_outstanding fac \<and>
    fac_shouldStop (ConstructPacket a fac) = fac_shouldStop fac \<and> m_curPacket (ConstructPacket a fac) = m_curPacket fac \<and>
    m_nextPacket (ConstructPacket a fac) = m_nextPacket fac \<and> m_autoFilters (ConstructPacket a fac) = m_autoFilters fac"
proof (cases "internal_use_count fac = 0")
  case True
  then have "packets fac = Map.empty" using assms(1) by (auto simp: tokens_ok_def)
  then show ?thesis
    using True by (auto simp: ConstructPacket_def GetInternalOutstanding_def tokens_ok_def internal_use_count_def split: option.splits)
next
  case False
  then obtain t where t: "m_outstandingInternal fac = Some t" "tokens fac t \<noteq> 0" "tokens fac t = card (dom (packets fac))"
    using assms(1) by (auto simp: internal_use_count_def tokens_ok_def split: option.splits)
  have "card (insert a (dom (packets fac))) = Suc (card (dom (packets fac)))"
    using assms by (simp add: tokens_ok_def domIff)
  then show ?thesis
    using t assms(1) by (auto simp: ConstructPacket_def GetInternalOutstanding_def tokens_ok_def internal_use_count_def)
qed

lemma release_tokens:
  assumes "tokens_ok fac"
  shows "tokens_ok (release_packet a fac)"
proof (cases "packets fac a")
  case None
  then show ?thesis using assms by (simp add: release_packet_def)
next
  case (Some pk)
  show ?thesis
  proof (cases "pk_refs pk > 1")
    case True
    then show ?thesis
      using tokens_ok_update [OF assms Some, of "pk\<lparr>pk_refs := pk_refs pk - 1\<rparr>"] Some by (simp add: release_packet_def)
  next
    case False
    have t: "m_outstandingInternal fac = Some (pk_token pk)" "tokens fac (pk_token pk) = card (dom (packets fac))"
      "finite (dom (packets fac))"
      using assms Some by (auto simp: tokens_ok_def internal_use_count_def)
    have c: "card (dom (packets fac) - {a}) = card (dom (packets fac)) - 1" using t(3) Some by (simp add: domIff)
    have r: "packets (release_packet a fac) = (packets fac)(a := None)"
      "m_outstandingInternal (release_packet a fac) = Some (pk_token pk)"
      "tokens (release_packet a fac) (pk_token pk) = card (dom (packets fac)) - 1"
      using False Some t(1,2) by (simp_all add: release_packet_def Let_def)
    have "pk_refs p > 0 \<and> pk_token p = pk_token pk" if "packets fac b = Some p" for b p
      using assms t(1) that by (auto simp: tokens_ok_def)
    then show ?thesis
      unfolding tokens_ok_def internal_use_count_def r(1,2) using r(3) c t(3) by (auto split: if_splits)
  qed
qed

lemma release_fields [simp]:
  "fac_wasStarted (release_packet a fac) = fac_wasStarted fac" "fac_outstanding (release_packet a fac) = fac_outstanding fac"
  "fac_shouldStop (release_packet a fac) = fac_shouldStop fac" "m_curPacket (release_packet a fac) = m_curPacket fac"
  "m_nextPacket (release_packet a fac) = m_nextPacket fac" "m_autoFilters (release_packet a fac) = m_autoFilters fac"
  by (auto simp: release_packet_def Let_def split: option.splits)

lemma release_other: "b \<noteq> a \<Longrightarrow> packets (release_packet a fac) b = packets fac b"
  by (auto simp: release_packet_def Let_def split: option.splits)

lemma release_dom: "dom (packets (release_packet a fac)) \<subseteq> dom (packets fac)"
  by (auto simp: release_packet_def Let_def domIff split: option.splits if_splits)

lemma release_only:
  "packets fac a = Some pk \<Longrightarrow> pk_refs pk = 1 \<Longrightarrow> packets (release_packet a fac) = (packets fac)(a := None)"
  by (simp add: release_packet_def Let_def)

section \<open>The invariant\<close>

definition fac_inv :: "PacketFactory \<Rightarrow> bool" where
  "fac_inv fac \<longleftrightarrow> tokens_ok fac \<and> filters_ok (m_autoFilters fac) \<and>
     (m_nextPacket fac \<noteq> None \<longleftrightarrow> fac_wasStarted fac \<and> \<not> fac_shouldStop fac) \<and>
     (fac_outstanding fac \<longleftrightarrow> fac_wasStarted fac \<and> \<not> fac_shouldStop fac) \<and>
     (packets fac \<noteq> Map.empty \<or> m_curPacket fac \<noteq> None \<longrightarrow> fac_wasStarted fac) \<and>
     (\<forall>a. m_nextPacket fac = Some a \<longrightarrow>
        (\<exists>t. packets fac a = Some \<lparr>pk_refs = 1, pk_token = t, pk_state = packet_new\<rparr>) \<and> m_curPacket fac \<noteq> Some a)"

lemma fac_inv_new: "fac_inv factory_new"
  by (simp add: fac_inv_def factory_new_def tokens_ok_def internal_use_count_def filters_ok_def)

lemma fac_inv_start:
  assumes "fac_inv fac" "packets fac a = None"
  shows "fac_inv (fac_Start a fac)"
proof (cases "fac_wasStarted fac \<or> fac_outstanding fac \<or> fac_shouldStop fac")
  case True
  then show ?thesis using assms by (simp add: fac_Start_def)
next
  case False
  let ?f = "fac\<lparr>fac_wasStarted := True, fac_outstanding := True\<rparr>"
  have "tokens_ok ?f" "packets ?f a = None" using assms by (simp_all add: fac_inv_def)
  note c = ConstructPacket_tokens [OF this]
  show ?thesis using c False assms unfolding fac_Start_def fac_OnStart_def fac_inv_def by auto
qed

lemma fac_inv_stop:
  assumes "fac_inv fac"
  shows "fac_inv (fac_Stop fac)"
proof (cases "fac_shouldStop fac")
  case True
  then show ?thesis using assms by (auto simp: fac_Stop_def fac_inv_def)
next
  case False
  let ?f = "fac\<lparr>fac_shouldStop := True, m_autoFilters := [], m_nextPacket := None\<rparr>"
  have ok: "tokens_ok (release_opt (m_nextPacket fac) ?f)"
    using assms by (simp add: fac_inv_def release_opt_def release_tokens split: option.splits)
  have f: "fac_shouldStop (release_opt p ?f)" "m_nextPacket (release_opt p ?f) = None" "m_autoFilters (release_opt p ?f) = []"
    "fac_wasStarted (release_opt p ?f) = fac_wasStarted fac" "m_curPacket (release_opt p ?f) = m_curPacket fac" "dom (packets (release_opt p ?f)) \<subseteq> dom (packets fac)" for p
    using release_dom [of _ ?f] by (auto simp: release_opt_def split: option.splits)
  have "fac_wasStarted fac" if "packets (release_opt (m_nextPacket fac) ?f) \<noteq> Map.empty"
    using that f(6) [of "m_nextPacket fac"] assms unfolding fac_inv_def by (metis dom_eq_empty_conv subset_empty)
  moreover have "fac_wasStarted fac" if "m_curPacket fac \<noteq> None"
    using that assms by (auto simp: fac_inv_def)
  ultimately show ?thesis
    using ok f(1-5) False unfolding fac_Stop_def fac_OnStop_def fac_inv_def by (auto simp: filters_ok_def)
qed

lemma fac_inv_share:
  assumes "fac_inv fac" "m_nextPacket fac \<noteq> Some a"
  shows "fac_inv (share_packet a fac)"
proof (cases "packets fac a")
  case None
  then show ?thesis using assms by (simp add: share_packet_def)
next
  case (Some pk)
  have "tokens_ok (fac\<lparr>packets := (packets fac)(a \<mapsto> pk\<lparr>pk_refs := Suc (pk_refs pk)\<rparr>)\<rparr>)"
    using assms(1) by (intro tokens_ok_update [OF _ Some]) (simp_all add: fac_inv_def)
  then show ?thesis using assms Some unfolding fac_inv_def by (auto simp: share_packet_def)
qed

lemma fac_inv_release:
  assumes "fac_inv fac" "m_nextPacket fac \<noteq> Some a"
  shows "fac_inv (release_packet a fac)"
proof -
  have "fac_wasStarted fac" if "packets (release_packet a fac) \<noteq> Map.empty"
    using that release_dom [of a fac] assms unfolding fac_inv_def by (metis dom_eq_empty_conv subset_empty)
  moreover have "packets (release_packet a fac) b = packets fac b" if "m_nextPacket fac = Some b" for b
    using that assms(2) release_other by auto
  ultimately show ?thesis using assms(1) release_tokens unfolding fac_inv_def by auto
qed

text \<open>Issuing a packet: the one prepared before is given out, and a new one is prepared.\<close>

lemma NewPacket_issues:
  assumes "fac_inv fac" "fac_wasStarted fac" "\<not> fac_shouldStop fac" "packets fac a = None"
    and "CreateSatCounterList as fac = (first, h)"
  shows "\<exists>r t fac2. m_nextPacket fac = Some r \<and> packets fac2 r = Some \<lparr>pk_refs = 1, pk_token = t, pk_state = packet_new\<rparr> \<and>
    NewPacket invoke as a fac = Option.bind (Initialize invoke first h packet_new) (\<lambda>(exc, p).
      let fac3 = fac2\<lparr>packets := (packets fac2)(r \<mapsto> \<lparr>pk_refs = 1, pk_token = t, pk_state = p\<rparr>)\<rparr> in
      case exc of None \<Rightarrow> Some (None, Some r, fac3) | Some e \<Rightarrow> Some (Some e, None, release_packet r fac3)) \<and>
    fac_inv fac2 \<and> m_nextPacket fac2 = Some a \<and> m_curPacket fac2 = Some r \<and> r \<noteq> a \<and>
    dom (packets fac2) = insert a (dom (packets fac)) \<and> fac_wasStarted fac2 \<and> \<not> fac_shouldStop fac2"
proof -
  obtain r t where r: "m_nextPacket fac = Some r" "packets fac r = Some \<lparr>pk_refs = 1, pk_token = t, pk_state = packet_new\<rparr>"
    using assms(1-3) by (auto simp: fac_inv_def)
  define f0 where "f0 = fac\<lparr>m_packetCount := m_packetCount fac + 1, m_nextPacket := None\<rparr>"
  define fac2 where "fac2 = (ConstructPacket a f0)\<lparr>m_nextPacket := Some a, m_curPacket := Some r\<rparr>"
  have "tokens_ok f0" "packets f0 a = None" using assms(1,4) by (simp_all add: fac_inv_def f0_def)
  note c = ConstructPacket_tokens [OF this]
  have ra: "r \<noteq> a" using r(2) assms(4) by auto
  obtain t' where p2: "packets fac2 = (packets fac)(a \<mapsto> \<lparr>pk_refs = 1, pk_token = t', pk_state = packet_new\<rparr>)"
    using c by (auto simp: fac2_def f0_def)
  have inv: "fac_inv fac2"
    using c assms(1-3) p2 ra unfolding fac_inv_def by (auto simp: fac2_def f0_def)
  have run: "fac_IsRunning fac" using assms(1-3) by (auto simp: fac_IsRunning_def fac_inv_def)
  have list: "CreateSatCounterList as fac2 = (first, h)"
    using assms(5) c by (simp add: CreateSatCounterList_def fac2_def f0_def)
  have pr: "packets fac2 r = Some \<lparr>pk_refs = 1, pk_token = t, pk_state = packet_new\<rparr>" using p2 r(2) ra by simp
  have "NewPacket invoke as a fac = Option.bind (Initialize invoke first h packet_new) (\<lambda>(exc, p).
      let fac3 = fac2\<lparr>packets := (packets fac2)(r \<mapsto> \<lparr>pk_refs = 1, pk_token = t, pk_state = p\<rparr>)\<rparr> in
      case exc of None \<Rightarrow> Some (None, Some r, fac3) | Some e \<Rightarrow> Some (Some e, None, release_packet r fac3))"
    unfolding NewPacket_def Let_def f0_def [symmetric] r(1) fac2_def [symmetric]
    using assms(3) run pr list by (simp add: release_opt_def cong: option.case_cong)
  moreover have "dom (packets fac2) = insert a (dom (packets fac))" using p2 by auto
  moreover have "m_nextPacket fac2 = Some a" "m_curPacket fac2 = Some r" "fac_wasStarted fac2" "\<not> fac_shouldStop fac2"
    using c assms(2,3) by (simp_all add: fac2_def f0_def)
  ultimately show ?thesis using r(1) pr inv ra by blast
qed

lemma fac_inv_state:
  assumes "fac_inv fac" "packets fac r = Some pk" "m_nextPacket fac \<noteq> Some r"
  shows "fac_inv (fac\<lparr>packets := (packets fac)(r \<mapsto> pk\<lparr>pk_state := p\<rparr>)\<rparr>)"
proof -
  have "pk_refs pk > 0" using assms(1,2) by (auto simp: fac_inv_def tokens_ok_def)
  then have "tokens_ok (fac\<lparr>packets := (packets fac)(r \<mapsto> pk\<lparr>pk_state := p\<rparr>)\<rparr>)"
    using assms(1) by (intro tokens_ok_update [OF _ assms(2)]) (simp_all add: fac_inv_def)
  then show ?thesis using assms unfolding fac_inv_def by auto
qed

lemma fac_inv_NewPacket:
  assumes "fac_inv fac" "packets fac a = None" "NewPacket invoke as a fac = Some (e, p, fac')"
  shows "fac_inv fac'"
proof (cases "fac_wasStarted fac \<and> \<not> fac_shouldStop fac")
  case False
  then have "packets fac = Map.empty \<or> fac_shouldStop fac" using assms(1) by (auto simp: fac_inv_def)
  then have "fac_shouldStop fac \<or> \<not> fac_IsRunning fac"
    using assms(1) False by (auto simp: fac_IsRunning_def fac_inv_def tokens_ok_def)
  then show ?thesis using assms(1,3) by (auto simp: NewPacket_def split: if_splits)
next
  case True
  obtain first h where l: "CreateSatCounterList as fac = (first, h)" by (cases "CreateSatCounterList as fac")
  obtain r t fac2 where n: "packets fac2 r = Some \<lparr>pk_refs = 1, pk_token = t, pk_state = packet_new\<rparr>"
    "NewPacket invoke as a fac = Option.bind (Initialize invoke first h packet_new) (\<lambda>(exc, p).
      let fac3 = fac2\<lparr>packets := (packets fac2)(r \<mapsto> \<lparr>pk_refs = 1, pk_token = t, pk_state = p\<rparr>)\<rparr> in
      case exc of None \<Rightarrow> Some (None, Some r, fac3) | Some e \<Rightarrow> Some (Some e, None, release_packet r fac3))"
    "fac_inv fac2" "m_nextPacket fac2 = Some a" "r \<noteq> a"
    using NewPacket_issues [OF assms(1) _ _ assms(2) l, of invoke] True by blast
  have i: "fac_inv (fac2\<lparr>packets := (packets fac2)(r \<mapsto> \<lparr>pk_refs = 1, pk_token = t, pk_state = q\<rparr>)\<rparr>)" for q
    using fac_inv_state [OF n(3,1), of q] n(4,5) by auto
  then have "fac_inv (release_packet r (fac2\<lparr>packets := (packets fac2)(r \<mapsto> \<lparr>pk_refs = 1, pk_token = t, pk_state = q\<rparr>)\<rparr>))" for q
    using fac_inv_release [where a = r, OF i [of q]] n(4,5) by auto
  with i show ?thesis
    using assms(3) unfolding n(2) by (auto simp: bind_eq_Some_conv Let_def split: option.splits)
qed

lemma fac_reachable_inv: "fac_reachable invoke fac \<Longrightarrow> fac_inv fac"
proof (induction rule: fac_reachable.induct)
  case fac_init
  then show ?case by (rule fac_inv_new)
next
  case (fac_step fac op fac')
  show ?case
  proof (cases op)
    case (F_new as a)
    then obtain e p where "NewPacket invoke as a fac = Some (e, p, fac')" using fac_step.hyps by auto
    then show ?thesis using fac_inv_NewPacket [OF fac_step.IH] fac_step.hyps F_new by auto
  next
    case (F_add d)
    then show ?thesis
      using fac_step by (auto simp: fac_inv_def AddSubscriber_def set_insert_ok)
  next
    case (F_remove d)
    then show ?thesis
      using fac_step by (auto simp: fac_inv_def RemoveSubscriber_def set_erase_ok)
  next
    case F_reset
    then show ?thesis
      using fac_step by (auto simp: fac_inv_def ResetPacketStatistics_def)
  qed (use fac_step fac_inv_start fac_inv_stop fac_inv_share fac_inv_release in auto)
qed

section \<open>Properties\<close>

definition issued :: "PacketFactory \<Rightarrow> addr set" where
  "issued fac = dom (packets fac) - set_option (m_nextPacket fac)"

lemma unat_pred:
  assumes "n < 2 ^ 64"
  shows "unat (of_int (int n - 1) :: 64 word) = (if n = 0 then 2 ^ 64 - 1 else n - 1)"
proof (cases n)
  case 0
  then show ?thesis by (simp add: unsigned_minus_1_eq_mask mask_eq_exp_minus_1)
next
  case (Suc m)
  then show ?thesis using assms by (simp add: unat_of_nat)
qed

text \<open>
  C25.  The packets of a factory in every state that it can reach with fewer than \<open>2 ^ 64\<close> packets: while the factory is started and not stopped,
  \<open>GetOutstandingPacketCount\<close> is the number of packets that have been issued and still exist; before the start and after the stop, when there is
  no prepared packet, it is one less, and \<open>2 ^ 64 - 1\<close> if there are none.  The factory counts as running, and a wait for its end
  goes on, exactly as long as it is started and not stopped or an issued packet exists.
\<close>

theorem packet_factory_counts:
  assumes "fac_reachable invoke fac" "card (dom (packets fac)) < 2 ^ 64"
  shows "GetOutstandingPacketCount fac =
      (if fac_wasStarted fac \<and> \<not> fac_shouldStop fac then card (issued fac)
       else if issued fac = {} then 2 ^ 64 - 1 else card (issued fac) - 1) \<and>
    (fac_IsRunning fac \<longleftrightarrow> fac_wasStarted fac \<and> \<not> fac_shouldStop fac \<or> issued fac \<noteq> {}) \<and>
    (fac_wait_pred fac \<longleftrightarrow> fac_shouldStop fac \<and> issued fac = {})"
proof -
  have inv: "fac_inv fac" by (rule fac_reachable_inv [OF assms(1)])
  then have fin: "finite (dom (packets fac))" and use: "internal_use_count fac = card (dom (packets fac))"
    by (simp_all add: fac_inv_def tokens_ok_def)
  have count: "GetOutstandingPacketCount fac = (if card (dom (packets fac)) = 0 then 2 ^ 64 - 1 else card (dom (packets fac)) - 1)"
    unfolding GetOutstandingPacketCount_def use by (rule unat_pred [OF assms(2)])
  show ?thesis
  proof (cases "m_nextPacket fac")
    case None
    then have "\<not> (fac_wasStarted fac \<and> \<not> fac_shouldStop fac)" "\<not> fac_outstanding fac" using inv by (auto simp: fac_inv_def)
    then show ?thesis
      using None count fin by (auto simp: issued_def fac_IsRunning_def fac_wait_pred_def use)
  next
    case (Some a)
    then have s: "fac_wasStarted fac" "\<not> fac_shouldStop fac" "fac_outstanding fac" "a \<in> dom (packets fac)"
      using inv by (auto simp: fac_inv_def)
    moreover have "card (issued fac) = card (dom (packets fac)) - 1" using Some s(4) fin by (simp add: issued_def)
    moreover have "card (dom (packets fac)) \<noteq> 0" using s(4) fin by auto
    ultimately show ?thesis using count by (auto simp: fac_IsRunning_def fac_wait_pred_def use)
  qed
qed

definition idle_call :: "unit filter_call" where
  "idle_call c obj p = Some (None, p)"

theorem packet_factory_counts_witness:
  "GetOutstandingPacketCount (fac_Stop factory_new) = 2 ^ 64 - 1 \<and> fac_wait_pred (fac_Stop factory_new)"
proof -
  have "fac_reachable idle_call (fac_Stop factory_new)"
    by (rule fac_reachable.fac_step [OF fac_reachable.fac_init, where op = F_stop]) simp_all
  moreover have "packets (fac_Stop factory_new) = Map.empty" "fac_shouldStop (fac_Stop factory_new)"
    "m_nextPacket (fac_Stop factory_new) = None"
    by (simp_all add: fac_Stop_def fac_OnStop_def factory_new_def release_opt_def)
  ultimately show ?thesis
    using packet_factory_counts [of idle_call "fac_Stop factory_new"] by (simp add: issued_def)
qed

text \<open>
  C22.  Asking a started factory for a packet, in every state that it can reach: the packet that was prepared is given out, which nobody had
  before, and becomes the current packet; its counters are one per subscriber, linked in both directions in the order of altitudes, the
  highest (the least number) first, each missing all the inputs of its filter, and the packet is initialised with them; an
  exception of the initialisation leaves \<open>NewPacket\<close> and the packet is gone.  A factory that is not started or is stopped throws.
\<close>

theorem NewPacket_serves_subscribers:
  assumes "fac_reachable invoke fac" "packets fac a = None" "distinct as" "length as = length (m_autoFilters fac)"
  shows "if fac_wasStarted fac \<and> \<not> fac_shouldStop fac
    then \<exists>r h. m_nextPacket fac = Some r \<and> r \<notin> issued fac \<and>
      counters_ok (rev (zip (m_autoFilters fac) as)) h \<and> sorted (map m_altitude (rev (m_autoFilters fac))) \<and>
      (\<forall>exc p. Initialize invoke (case rev as of [] \<Rightarrow> None | a # _ \<Rightarrow> Some a) h packet_new = Some (exc, p) \<longrightarrow>
        (\<exists>fac'. NewPacket invoke as a fac = Some (exc, if exc = None then Some r else None, fac') \<and>
           (exc = None \<longrightarrow> issued fac' = insert r (issued fac) \<and> fac_CurrentPacket fac' = Some r \<and>
              map_option pk_state (packets fac' r) = Some p) \<and>
           (exc \<noteq> None \<longrightarrow> issued fac' = issued fac \<and> fac_CurrentPacket fac' = None)))
    else \<exists>m. NewPacket invoke as a fac = Some (Some (autowiring_error m), None, fac)"
proof (cases "fac_wasStarted fac \<and> \<not> fac_shouldStop fac")
  case False
  have inv: "fac_inv fac" by (rule fac_reachable_inv [OF assms(1)])
  have "fac_shouldStop fac \<or> \<not> fac_IsRunning fac"
    using inv False by (auto simp: fac_IsRunning_def fac_inv_def tokens_ok_def)
  then show ?thesis using False by (auto simp: NewPacket_def)
next
  case True
  have inv: "fac_inv fac" by (rule fac_reachable_inv [OF assms(1)])
  obtain h where h: "CreateSatCounterList as fac = (case rev as of [] \<Rightarrow> None | a # _ \<Rightarrow> Some a, h)"
    "counters_ok (rev (zip (m_autoFilters fac) as)) h"
    using CreateSatCounterList_ok [OF assms(3,4)] by blast
  obtain r t fac2 where n: "m_nextPacket fac = Some r" "packets fac2 r = Some \<lparr>pk_refs = 1, pk_token = t, pk_state = packet_new\<rparr>"
    "NewPacket invoke as a fac = Option.bind (Initialize invoke (case rev as of [] \<Rightarrow> None | a # _ \<Rightarrow> Some a) h packet_new) (\<lambda>(exc, p).
      let fac3 = fac2\<lparr>packets := (packets fac2)(r \<mapsto> \<lparr>pk_refs = 1, pk_token = t, pk_state = p\<rparr>)\<rparr> in
      case exc of None \<Rightarrow> Some (None, Some r, fac3) | Some e \<Rightarrow> Some (Some e, None, release_packet r fac3))"
    "m_nextPacket fac2 = Some a" "m_curPacket fac2 = Some r" "r \<noteq> a" "dom (packets fac2) = insert a (dom (packets fac))"
    using NewPacket_issues [OF inv _ _ assms(2) h(1), of invoke] True by blast
  have r: "r \<in> dom (packets fac)" using n(2,6,7) by auto
  have sorted: "sorted (map m_altitude (rev (m_autoFilters fac)))"
    using inv altitudes_sorted by (simp add: fac_inv_def)
  define f3 where "f3 p = fac2\<lparr>packets := (packets fac2)(r \<mapsto> \<lparr>pk_refs = 1, pk_token = t, pk_state = p\<rparr>)\<rparr>" for p
  have i3: "issued (f3 p) = insert r (issued fac)" for p
    using n(1,4,6,7) r assms(2) by (auto simp: f3_def issued_def)
  have c3: "fac_CurrentPacket (f3 p) = Some r" "map_option pk_state (packets (f3 p) r) = Some p" for p
    using n(5) by (simp_all add: f3_def fac_CurrentPacket_def)
  have p3: "packets (release_packet r (f3 p)) = (packets (f3 p))(r := None)" for p
    by (rule release_only [where pk = "\<lparr>pk_refs = 1, pk_token = t, pk_state = p\<rparr>"]) (simp_all add: f3_def)
  have i4: "issued (release_packet r (f3 p)) = issued fac" "fac_CurrentPacket (release_packet r (f3 p)) = None" for p
  proof -
    have "issued (release_packet r (f3 p)) = issued (f3 p) - {r}" by (auto simp: issued_def p3)
    then show "issued (release_packet r (f3 p)) = issued fac" using i3 [of p] n(1) by (auto simp: issued_def)
    have "m_curPacket (f3 p) = Some r" using n(5) by (simp add: f3_def)
    then show "fac_CurrentPacket (release_packet r (f3 p)) = None" by (simp add: fac_CurrentPacket_def p3)
  qed
  have "\<exists>fac'. NewPacket invoke as a fac = Some (exc, if exc = None then Some r else None, fac') \<and>
      (exc = None \<longrightarrow> issued fac' = insert r (issued fac) \<and> fac_CurrentPacket fac' = Some r \<and>
         map_option pk_state (packets fac' r) = Some p) \<and>
      (exc \<noteq> None \<longrightarrow> issued fac' = issued fac \<and> fac_CurrentPacket fac' = None)"
    if "Initialize invoke (case rev as of [] \<Rightarrow> None | a # _ \<Rightarrow> Some a) h packet_new = Some (exc, p)" for exc p
    using i3 [of p] c3 [of p] i4 [of p] unfolding n(3) that Let_def f3_def [symmetric] by (cases exc) auto
  then show ?thesis using True n(1) h(2) sorted by (auto simp: issued_def)
qed

theorem NewPacket_serves_subscribers_witness:
  "\<exists>fac'. NewPacket idle_call [] 2 (fac_Start 1 factory_new) = Some (None, Some 1, fac') \<and> fac_CurrentPacket fac' = Some 1"
proof -
  let ?f = "fac_Start 1 factory_new"
  have r: "fac_reachable idle_call ?f"
    by (rule fac_reachable.fac_step [OF fac_reachable.fac_init, where op = "F_start 1"]) (simp_all add: factory_new_def)
  have f: "packets ?f 2 = None" "m_autoFilters ?f = []" "fac_wasStarted ?f" "\<not> fac_shouldStop ?f" "m_nextPacket ?f = Some 1"
    by (simp_all add: fac_Start_def fac_OnStart_def ConstructPacket_def GetInternalOutstanding_def factory_new_def)
  have "Initialize idle_call None h packet_new = Some (None, packet_new\<lparr>m_counters := h\<rparr>)" for h
    by (simp add: Initialize_def Let_def counter_list.simps [of _ None] packet_new_def call_all.simps)
  then show ?thesis
    using NewPacket_serves_subscribers [OF r f(1), of "[]"] f(2-5) by fastforce
qed

end
