(* ===== verification/Hetero_Block.thy ===== *)
theory Hetero_Block
  imports Prelude "HOL-Library.Word"
begin

text \<open>
  Heterogeneous blocks (\<open>HeteroBlock.h\<close>, \<open>HeteroBlock.cpp\<close>): several objects in one allocation, each followed by a
  header with its destructor and the distance to the next header.  Addresses are offsets from the base of the
  block.  A constructor is known by the exception that it throws, if it does; constructors and destructors that are run
  are recorded as pairs of the address and the type.  The allocation succeeds.
\<close>

section \<open>Layout\<close>

record HeteroBlockEntry =
  type_id :: nat
  index :: nat
  ncb :: nat
  align :: nat
  ctor_throws :: "aw_error option"

record BlockHeader =
  pfnDtor :: "nat option"
  nextSize :: nat

definition word_bytes :: nat where
  "word_bytes = 8"

definition header_bytes :: nat where
  "header_bytes = 16"

definition entry_align :: "HeteroBlockEntry \<Rightarrow> nat" where
  "entry_align e = (if align e \<le> word_bytes then word_bytes else align e)"

definition max_align :: "HeteroBlockEntry \<Rightarrow> nat \<Rightarrow> nat" where
  "max_align e mx = (if align e \<le> word_bytes then mx else if mx < align e then align e else mx)"

text \<open>\<open>(align - ncb) % align\<close> in the unsigned arithmetic of \<open>size_t\<close>: the difference wraps around.\<close>

definition slack :: "nat \<Rightarrow> nat \<Rightarrow> nat" where
  "slack a n = unat ((of_nat a - of_nat n :: 64 word) mod of_nat a)"

text \<open>
  The first loop: for each entry its offset and the value stored through \<open>sizePrior\<close>, which is the distance from the end of the
  previous header to the next one; and the end of the last header and the greatest alignment.
\<close>

fun layout :: "HeteroBlockEntry list \<Rightarrow> nat \<Rightarrow> nat \<Rightarrow> (nat \<times> nat) list \<times> nat \<times> nat" where
  "layout [] n mx = ([], n, mx)"
| "layout (e # es) n mx =
     (let off = n + slack (entry_align e) n;
          n' = off + ncb e
      in case layout es (n' + header_bytes) (max_align e mx) of
           (r, final, mx') \<Rightarrow> ((off, n' - n) # r, final, mx'))"

fun mk_headers :: "HeteroBlockEntry list \<Rightarrow> (nat \<times> nat) list \<Rightarrow> BlockHeader list" where
  "mk_headers (e # es) (x # y # r) = \<lparr>pfnDtor = Some (type_id e), nextSize = snd y\<rparr> # mk_headers es (y # r)"
| "mk_headers [e] [x] = [\<lparr>pfnDtor = Some (type_id e), nextSize = 0\<rparr>]"
| "mk_headers es xs = []"

fun mk_entries :: "HeteroBlockEntry list \<Rightarrow> (nat \<times> nat) list \<Rightarrow> (nat \<times> nat \<rightharpoonup> nat) \<Rightarrow> nat \<times> nat \<rightharpoonup> nat" where
  "mk_entries (e # es) (x # xs) m = mk_entries es xs (m((type_id e, index e) \<mapsto> fst x))"
| "mk_entries es xs m = m"

section \<open>Construction and destruction\<close>

type_synonym header_memory = "nat \<rightharpoonup> BlockHeader"

fun construct ::
  "HeteroBlockEntry list \<Rightarrow> BlockHeader list \<Rightarrow> nat \<Rightarrow> nat \<Rightarrow> header_memory \<Rightarrow> aw_error option \<times> header_memory \<times> (nat \<times> nat) list" where
  "construct (e # es) (h # hs) pCurHeader curSize mem =
     (case ctor_throws e of
        Some x \<Rightarrow> (Some x, mem(pCurHeader \<mapsto> \<lparr>pfnDtor = None, nextSize = 0\<rparr>), [])
      | None \<Rightarrow>
          (case construct es hs (pCurHeader + nextSize h + header_bytes) (nextSize h) (mem(pCurHeader \<mapsto> h)) of
             (x, mem', made) \<Rightarrow> (x, mem', (pCurHeader - curSize, type_id e) # made)))"
| "construct es hs pCurHeader curSize mem = (None, mem, [])"

text \<open>The deleter of the block; a header that was never written is undefined behaviour.\<close>

partial_function (option) run_deleters :: "header_memory \<Rightarrow> nat \<Rightarrow> nat \<Rightarrow> (nat \<times> nat) list result option" where
  "run_deleters mem pCur curSize =
     (case mem pCur of
        None \<Rightarrow> Some (Inl Undefined_behaviour)
      | Some h \<Rightarrow>
          (case pfnDtor h of
             None \<Rightarrow> Some (Inr [])
           | Some t \<Rightarrow>
               Option.bind (run_deleters mem (pCur + nextSize h + header_bytes) (nextSize h))
                 (\<lambda>r. Some (bindR r (\<lambda>ds. Inr ((pCur - curSize, t) # ds))))))"

record HeteroBlock =
  block :: header_memory
  block_bytes :: nat
  firstSize :: nat
  entry_offsets :: "nat \<times> nat \<rightharpoonup> nat"
  entry_ptrs :: "nat \<times> nat \<rightharpoonup> nat"
  constructed :: "(nat \<times> nat) list"

definition hetero_new :: "HeteroBlockEntry list \<Rightarrow> (aw_error option \<times> HeteroBlock) result" where
  "hetero_new es =
     (case es of
        [] \<Rightarrow> Inl Undefined_behaviour
      | e # _ \<Rightarrow>
          (case layout es 0 word_bytes of
             (xs, final, mx) \<Rightarrow>
               let request = final + header_bytes;
                   bytes = request + slack mx request;
                   sentinel = Map.empty(final \<mapsto> \<lparr>pfnDtor = None, nextSize = 0\<rparr>)
               in case construct es (mk_headers es xs) (ncb e) (ncb e) sentinel of
                    (x, mem, made) \<Rightarrow>
                      Inr (x, \<lparr>block = mem, block_bytes = bytes, firstSize = ncb e,
                        entry_offsets = mk_entries es xs Map.empty, entry_ptrs = Map.empty, constructed = made\<rparr>)))"

definition hetero_destroy :: "HeteroBlock \<Rightarrow> (nat \<times> nat) list result option" where
  "hetero_destroy b = run_deleters (block b) (firstSize b) (firstSize b)"

definition hetero_get :: "nat \<Rightarrow> nat \<Rightarrow> HeteroBlock \<Rightarrow> nat result" where
  "hetero_get t i b =
     (case entry_offsets b (t, i) of
        None \<Rightarrow> Inl (runtime_error ''Attempted to obtain a type or index not initialized on this block'')
      | Some off \<Rightarrow> Inr off)"


section \<open>The alignment formula\<close>

lemma slack_reference:
  assumes "a = 2 ^ k" "k < 64" "n < 2 ^ 64"
  shows "slack a n = (a - n mod a) mod a"
proof -
  have a: "a < 2 ^ 64" "0 < a" using power_strict_increasing [of k 64 "2::nat"] assms(1,2) by simp_all
  have "(2::int) ^ k dvd 2 ^ 64" using assms(2) by (intro le_imp_power_dvd) simp
  then have dvd: "int a dvd 2 ^ 64" using assms(1) by simp
  have "uint (of_nat a - of_nat n :: 64 word) = (int a - int n) mod 2 ^ 64"
    unfolding uint_word_arith_bintrs(2) by (simp add: unsigned_of_nat take_bit_eq_mod zmod_int mod_simps)
  moreover have "uint (of_nat a :: 64 word) = int a" using a by (simp add: unsigned_of_nat take_bit_eq_mod)
  ultimately have "int (slack a n) = (int a - int n) mod 2 ^ 64 mod int a"
    unfolding slack_def by (simp add: uint_mod flip: uint_nat)
  also have "\<dots> = (int a - int n) mod int a" using dvd by (rule mod_mod_cancel)
  also have "\<dots> = int ((a - n mod a) mod a)"
    using a(2) by (simp add: of_nat_diff zmod_int mod_diff_right_eq mod_minus_eq)
  finally show ?thesis by simp
qed

section \<open>Layout lemmas\<close>

lemma layout_length: "layout es n mx = (xs, final, mx') \<Longrightarrow> length xs = length es"
  by (induction es arbitrary: n mx xs final mx') (auto simp: Let_def split: prod.splits)

lemma layout_final: "layout es n mx = (xs, final, mx') \<Longrightarrow> n + length es * header_bytes \<le> final"
proof (induction es arbitrary: n mx xs final mx')
  case (Cons e es)
  then show ?case by (fastforce simp: Let_def split: prod.splits)
qed simp

lemma layout_Cons:
  assumes "layout (e # es) n mx = (xs, final, mx')"
  obtains r where "xs = (n + slack (entry_align e) n, slack (entry_align e) n + ncb e) # r"
    "layout es (n + slack (entry_align e) n + ncb e + header_bytes) (max_align e mx) = (r, final, mx')"
  using assms by (auto simp: Let_def split: prod.splits)

lemma layout_Nil: "layout [] n mx = (xs, final, mx') \<longleftrightarrow> xs = [] \<and> final = n \<and> mx' = mx"
  by auto

text \<open>Construction writes no header before the current one.\<close>

lemma construct_frame:
  "construct es hs p c mem = (x, mem', made) \<Longrightarrow> q < p \<Longrightarrow> mem' q = mem q"
proof (induction es hs p c mem arbitrary: x mem' made rule: construct.induct)
  case (1 e es h hs p c mem)
  show ?case
  proof (cases "ctor_throws e")
    case None
    obtain y m2 m3 where c: "construct es hs (p + nextSize h + header_bytes) (nextSize h) (mem(p \<mapsto> h)) = (y, m2, m3)"
      by (cases "construct es hs (p + nextSize h + header_bytes) (nextSize h) (mem(p \<mapsto> h))")
    then have "m2 q = (mem(p \<mapsto> h)) q" using "1.IH" [OF None c] "1.prems"(2) by simp
    then show ?thesis using "1.prems" None c by simp
  qed (use 1 in auto)
qed auto

definition no_throw :: "HeteroBlockEntry \<Rightarrow> bool" where
  "no_throw e \<longleftrightarrow> ctor_throws e = None"

fun starts :: "HeteroBlockEntry list \<Rightarrow> nat \<Rightarrow> (nat \<times> nat) list" where
  "starts [] n = []"
| "starts (e # es) n = (n, type_id e) # starts es (n + slack (entry_align e) n + ncb e + header_bytes)"

lemma mk_headers_Cons:
  "length r = length es \<Longrightarrow> mk_headers (e # es) (x # r) =
     \<lparr>pfnDtor = Some (type_id e), nextSize = (case r of [] \<Rightarrow> 0 | y # _ \<Rightarrow> snd y)\<rparr> # mk_headers es r"
  by (cases r; cases es) simp_all

lemma construct_starts:
  assumes "layout es n mx = (xs, final, mx')"
    and "construct es (mk_headers es xs) (n + snd (hd xs)) (snd (hd xs)) mem = (x, mem', made)"
  shows "made = take (length (takeWhile no_throw es)) (starts es n) \<and>
    x = (case dropWhile no_throw es of [] \<Rightarrow> None | e # _ \<Rightarrow> ctor_throws e)"
  using assms
proof (induction es arbitrary: n mx xs mem x mem' made)
  case (Cons e es)
  define p where "p = n + slack (entry_align e) n + ncb e"
  obtain r where r: "xs = (n + slack (entry_align e) n, slack (entry_align e) n + ncb e) # r"
    "layout es (p + header_bytes) (max_align e mx) = (r, final, mx')"
    using layout_Cons [OF Cons.prems(1)] unfolding p_def by blast
  note heads = mk_headers_Cons [OF layout_length [OF r(2)]]
  show ?case
  proof (cases "ctor_throws e")
    case (Some a)
    then have "\<not> no_throw e" by (simp add: no_throw_def)
    then show ?thesis using Cons.prems(2) Some by (simp add: r(1) heads)
  next
    case None
    then have nt: "no_throw e" by (simp add: no_throw_def)
    define s where "s = (case r of [] \<Rightarrow> 0 | y # _ \<Rightarrow> snd y)"
    obtain made' where m: "construct es (mk_headers es r) (p + header_bytes + s) s
        (mem(p \<mapsto> \<lparr>pfnDtor = Some (type_id e), nextSize = s\<rparr>)) = (x, mem', made')" "made = (n, type_id e) # made'"
      using Cons.prems(2) None by (auto simp: r(1) heads p_def s_def algebra_simps split: prod.splits)
    have "made' = take (length (takeWhile no_throw es)) (starts es (p + header_bytes)) \<and>
        x = (case dropWhile no_throw es of [] \<Rightarrow> None | e # _ \<Rightarrow> ctor_throws e)"
    proof (cases es)
      case Nil
      then show ?thesis using m(1) by simp
    next
      case (Cons e' es')
      then have "s = snd (hd r)" using layout_length [OF r(2)] by (cases r) (auto simp: s_def)
      then show ?thesis using Cons.IH [OF r(2)] m(1) by simp
    qed
    then show ?thesis using m(2) nt by (simp add: p_def)
  qed
qed simp

section \<open>What is destroyed\<close>

lemma run_deleters_at:
  assumes "mem p = Some h"
  shows "run_deleters mem p c =
    (case pfnDtor h of None \<Rightarrow> Some (Inr [])
     | Some t \<Rightarrow> Option.bind (run_deleters mem (p + nextSize h + header_bytes) (nextSize h))
         (\<lambda>r. Some (bindR r (\<lambda>ds. Inr ((p - c, t) # ds)))))"
  using assms by (subst run_deleters.simps) simp

lemma deleters_run_what_was_made:
  assumes "layout es n mx = (xs, final, mx')" "es \<noteq> []" "mem final = Some \<lparr>pfnDtor = None, nextSize = 0\<rparr>"
    and "construct es (mk_headers es xs) (n + snd (hd xs)) (snd (hd xs)) mem = (x, mem', made)"
  shows "run_deleters mem' (n + snd (hd xs)) (snd (hd xs)) = Some (Inr made)"
  using assms
proof (induction es arbitrary: n mx xs mem x mem' made)
  case (Cons e es)
  define p where "p = n + slack (entry_align e) n + ncb e"
  obtain r where r: "xs = (n + slack (entry_align e) n, slack (entry_align e) n + ncb e) # r"
    "layout es (p + header_bytes) (max_align e mx) = (r, final, mx')"
    using layout_Cons [OF Cons.prems(1)] unfolding p_def by blast
  have p: "n + snd (hd xs) = p" using r by (simp add: p_def)
  have above: "p < final" using layout_final [OF r(2)] by (simp add: header_bytes_def)
  show ?case
  proof (cases "ctor_throws e")
    case (Some a)
    have "mem' p = Some \<lparr>pfnDtor = None, nextSize = 0\<rparr> \<and> made = []"
      using Cons.prems(4) Some r(1) layout_length [OF r(2)] by (cases es; cases r) (auto simp: p_def)
    then show ?thesis unfolding p by (simp add: run_deleters_at)
  next
    case None
    show ?thesis
    proof (cases es)
      case Nil
      define h where "h = \<lparr>pfnDtor = Some (type_id e), nextSize = 0\<rparr>"
      have "mem' = mem(p \<mapsto> h)" "made = [(p - snd (hd xs), type_id e)]" "final = p + header_bytes"
        using Cons.prems(4) None r Nil by (auto simp: p_def h_def)
      then show ?thesis
        using Cons.prems(3) above unfolding p by (simp add: run_deleters_at h_def)
    next
      case (Cons e' es')
      then obtain y ys where r': "r = y # ys" using layout_length [OF r(2)] by (cases r) auto
      define h where "h = \<lparr>pfnDtor = Some (type_id e), nextSize = snd y\<rparr>"
      obtain made' where m: "construct es (mk_headers es r) (p + header_bytes + snd (hd r)) (snd (hd r)) (mem(p \<mapsto> h)) = (x, mem', made')"
        "made = (p - snd (hd xs), type_id e) # made'"
        using Cons.prems(4) None r(1) r' Cons by (auto simp: p_def h_def algebra_simps split: prod.splits)
      have run: "run_deleters mem' (p + header_bytes + snd y) (snd y) = Some (Inr made')"
        using Cons.IH [OF r(2) _ _ m(1)] Cons Cons.prems(3) above r' by simp
      have "mem' p = Some h"
        using construct_frame [OF m(1), of p] by (simp add: header_bytes_def)
      then show ?thesis
        using run m(2) unfolding p by (simp add: run_deleters_at h_def add.commute add.left_commute)
    qed
  qed
qed simp

section \<open>Where objects are\<close>

text \<open>The space of each object, and the header behind it, ends where that of the next starts.\<close>

lemma starts_length [simp]: "length (starts es n) = length es"
  by (induction es n rule: starts.induct) auto

lemma starts_types: "map snd (starts es n) = map type_id es"
  by (induction es n rule: starts.induct) auto

lemma starts_above: "p \<in> set (starts es n) \<Longrightarrow> n \<le> fst p"
  by (induction es n rule: starts.induct) fastforce+

lemma starts_apart:
  "sorted_wrt (\<lambda>(p, e) (q, f). fst p + ncb e + header_bytes \<le> fst q) (zip (starts es n) es)"
proof (induction es n rule: starts.induct)
  case (2 e es n)
  then show ?case using starts_above by (fastforce dest: set_zip_leftD)
qed simp

lemma starts_inside:
  assumes "layout es n mx = (xs, final, mx')" "(p, e) \<in> set (zip (starts es n) es)"
  shows "fst p + ncb e + header_bytes \<le> final"
  using assms
proof (induction es arbitrary: n mx xs)
  case (Cons f es)
  from Cons.prems(1) obtain r where
    r: "layout es (n + slack (entry_align f) n + ncb f + header_bytes) (max_align f mx) = (r, final, mx')"
    using layout_Cons by blast
  then show ?case using Cons.IH [OF r] Cons.prems(2) layout_final [OF r] by auto
qed simp








section \<open>Blocks\<close>

lemma zip_take_left: "zip (take k xs) ys = take k (zip xs ys)"
proof (induction xs arbitrary: k ys)
  case (Cons x xs)
  then show ?case by (cases k; cases ys) simp_all
qed simp

text \<open>The pieces of a block that has been made.\<close>

lemma hetero_newE:
  assumes "es \<noteq> []"
  obtains xs final mx x b where "layout es 0 word_bytes = (xs, final, mx)" "hetero_new es = Inr (x, b)"
    "constructed b = take (length (takeWhile no_throw es)) (starts es 0)"
    "x = (case dropWhile no_throw es of [] \<Rightarrow> None | e # _ \<Rightarrow> ctor_throws e)"
    "hetero_destroy b = Some (Inr (constructed b))"
    "final + header_bytes \<le> block_bytes b" "entry_offsets b = mk_entries es xs Map.empty" "entry_ptrs b = Map.empty"
proof -
  obtain e es' where es: "es = e # es'" using assms by (cases es) auto
  obtain xs final mx where l: "layout es 0 word_bytes = (xs, final, mx)" by (cases "layout es 0 word_bytes")
  have first: "snd (hd xs) = ncb e"
    using l unfolding es by (elim layout_Cons) (simp add: slack_def)
  define mem where "mem = (Map.empty :: header_memory)(final \<mapsto> \<lparr>pfnDtor = None, nextSize = 0\<rparr>)"
  obtain x mem' made where c: "construct es (mk_headers es xs) (0 + snd (hd xs)) (snd (hd xs)) mem = (x, mem', made)"
    by (cases "construct es (mk_headers es xs) (0 + snd (hd xs)) (snd (hd xs)) mem")
  have mem: "mem final = Some \<lparr>pfnDtor = None, nextSize = 0\<rparr>" by (simp add: mem_def)
  define b where "b = \<lparr>block = mem', block_bytes = final + header_bytes + slack mx (final + header_bytes),
    firstSize = ncb e, entry_offsets = mk_entries es xs Map.empty, entry_ptrs = Map.empty, constructed = made\<rparr>"
  have "hetero_new es = Inr (x, b)"
    using l c unfolding hetero_new_def b_def first mem_def by (simp add: es Let_def)
  moreover have "hetero_destroy b = Some (Inr made)"
    using deleters_run_what_was_made [OF l assms mem c] by (simp add: hetero_destroy_def b_def first)
  ultimately show thesis
    using that [OF l, of x b] construct_starts [OF l c] by (simp add: b_def)
qed

text \<open>
  C23.  A block of at least one entry: construction stops at the first constructor that throws and lets that exception out;
  the deleter returns and destroys exactly the objects that were constructed, at the addresses where they were constructed, with the
  destructors of their types and in the same order, whether or not a constructor threw; and the objects do not overlap
  each other, the headers between them or the end of the block.
\<close>

theorem hetero_block_lifetime:
  assumes "es \<noteq> []"
  shows "\<exists>x b. hetero_new es = Inr (x, b) \<and>
    x = (case dropWhile no_throw es of [] \<Rightarrow> None | e # _ \<Rightarrow> ctor_throws e) \<and>
    map snd (constructed b) = map type_id (takeWhile no_throw es) \<and>
    hetero_destroy b = Some (Inr (constructed b)) \<and>
    sorted_wrt (\<lambda>(p, e) (q, f). fst p + ncb e + header_bytes \<le> fst q) (zip (constructed b) es) \<and>
    (\<forall>(p, e) \<in> set (zip (constructed b) es). fst p + ncb e + header_bytes \<le> block_bytes b)"
proof -
  obtain xs final mx x b where b: "layout es 0 word_bytes = (xs, final, mx)" "hetero_new es = Inr (x, b)"
    "constructed b = take (length (takeWhile no_throw es)) (starts es 0)"
    "x = (case dropWhile no_throw es of [] \<Rightarrow> None | e # _ \<Rightarrow> ctor_throws e)"
    "hetero_destroy b = Some (Inr (constructed b))" "final + header_bytes \<le> block_bytes b"
    by (rule hetero_newE [OF assms])
  define k where "k = length (takeWhile no_throw es)"
  have z: "zip (constructed b) es = take k (zip (starts es 0) es)"
    by (simp add: b(3) k_def zip_take_left)
  have "map snd (constructed b) = map type_id (takeWhile no_throw es)"
    unfolding b(3) k_def [symmetric] take_map [symmetric] starts_types
    using takeWhile_eq_take [of no_throw es] by (simp add: take_map k_def)
  moreover have "sorted_wrt (\<lambda>(p, e) (q, f). fst p + ncb e + header_bytes \<le> fst q) (zip (constructed b) es)"
    unfolding z by (intro sorted_wrt_take starts_apart)
  moreover have "\<forall>(p, e) \<in> set (zip (constructed b) es). fst p + ncb e + header_bytes \<le> block_bytes b"
    using starts_inside [OF b(1)] b(6) unfolding z by (fastforce dest: in_set_takeD)
  ultimately show ?thesis using b(2,4,5) by blast
qed

theorem hetero_block_lifetime_witness:
  "\<exists>x b. hetero_new [\<lparr>type_id = 0, index = 0, ncb = 24, align = 8, ctor_throws = None\<rparr>,
        \<lparr>type_id = 1, index = 0, ncb = 5, align = 1, ctor_throws = Some Terminated\<rparr>] = Inr (x, b) \<and>
     x = Some Terminated \<and> hetero_destroy b = Some (Inr (constructed b)) \<and> map snd (constructed b) = [0]"
  using hetero_block_lifetime [of "[\<lparr>type_id = 0, index = 0, ncb = 24, align = 8, ctor_throws = None\<rparr>,
        \<lparr>type_id = 1, index = 0, ncb = 5, align = 1, ctor_throws = Some Terminated\<rparr>]"]
  by (fastforce simp: no_throw_def)



text \<open>
  An object whose space does not start at a multiple of its alignment is constructed at the start of the space, while \<open>get\<close> returns the
  rounded address: after an object of 5 bytes, an object of 8 bytes is constructed at 21 and found at 24.
\<close>

lemma hetero_get_misses_object:
  "\<exists>b. hetero_new [\<lparr>type_id = 0, index = 0, ncb = 5, align = 1, ctor_throws = None\<rparr>,
        \<lparr>type_id = 1, index = 0, ncb = 8, align = 8, ctor_throws = None\<rparr>] = Inr (None, b) \<and>
     constructed b = [(0, 0), (21, 1)] \<and> hetero_get 1 0 b = Inr 24"
proof -
  have s: "slack 8 0 = 0" "slack 8 21 = 3" by (simp_all add: slack_reference [of 8 3])
  show ?thesis
    by (simp add: hetero_new_def hetero_get_def entry_align_def max_align_def word_bytes_def header_bytes_def s Let_def)
qed

end
