(* ===== verification/Teardown_Notifier.thy ===== *)
theory Teardown_Notifier
  imports Prelude
begin

text \<open>
  Teardown notifiers (\<open>TeardownNotifier.{h,cpp}\<close>): a singly linked list of listeners to which any thread adds at the front with
  \<open>compare_exchange_weak\<close>, and which is called and deleted from front to back.  What other threads do before an attempt to exchange is a
  parameter, and so is whether the attempt fails spuriously.
\<close>

section \<open>State\<close>

record 'f Entry =
  entry_fx :: 'f
  pFlink :: ptr

record 'f TeardownNotifier =
  m_pFirstTeardownListener :: ptr
  listeners :: "addr \<rightharpoonup> 'f Entry"
  notified :: "'f list"

definition notifier_new :: "'f TeardownNotifier" where
  "notifier_new = \<lparr>m_pFirstTeardownListener = None, listeners = Map.empty, notified = []\<rparr>"

section \<open>Operations\<close>

type_synonym 'f interference = "'f TeardownNotifier \<Rightarrow> 'f TeardownNotifier"

text \<open>The attempts to exchange: each after a change by other threads; the one after the list of attempts is not disturbed.\<close>

fun exchange_loop :: "('f interference \<times> bool) list \<Rightarrow> ptr \<Rightarrow> addr \<Rightarrow> 'f TeardownNotifier \<Rightarrow> 'f TeardownNotifier result" where
  "exchange_loop [] priorHead listener s =
     (if m_pFirstTeardownListener s = priorHead then Inr (s\<lparr>m_pFirstTeardownListener := Some listener\<rparr>)
      else case listeners s listener of
             None \<Rightarrow> Inl Undefined_behaviour
           | Some e \<Rightarrow> Inr (s\<lparr>listeners := (listeners s)(listener \<mapsto> e\<lparr>pFlink := m_pFirstTeardownListener s\<rparr>),
                          m_pFirstTeardownListener := Some listener\<rparr>))"
| "exchange_loop ((env, spurious) # as) priorHead listener s =
     (let s1 = env s in
      if m_pFirstTeardownListener s1 = priorHead \<and> \<not> spurious then Inr (s1\<lparr>m_pFirstTeardownListener := Some listener\<rparr>)
      else case listeners s1 listener of
             None \<Rightarrow> Inl Undefined_behaviour
           | Some e \<Rightarrow>
               exchange_loop as (m_pFirstTeardownListener s1) listener
                 (s1\<lparr>listeners := (listeners s1)(listener \<mapsto> e\<lparr>pFlink := m_pFirstTeardownListener s1\<rparr>)\<rparr>))"

definition AddTeardownListenerInternal ::
  "('f interference \<times> bool) list \<Rightarrow> addr \<Rightarrow> 'f TeardownNotifier \<Rightarrow> 'f TeardownNotifier result" where
  "AddTeardownListenerInternal as listener s = exchange_loop as (m_pFirstTeardownListener s) listener s"

definition AddTeardownListener ::
  "('f interference \<times> bool) list \<Rightarrow> addr \<Rightarrow> 'f \<Rightarrow> 'f TeardownNotifier \<Rightarrow> 'f TeardownNotifier result" where
  "AddTeardownListener as a f s =
     AddTeardownListenerInternal as a (s\<lparr>listeners := (listeners s)(a \<mapsto> \<lparr>entry_fx = f, pFlink = None\<rparr>)\<rparr>)"

text \<open>\<open>run f\<close> is what the listener \<open>f\<close> does to the notifier; the calls are recorded.\<close>

partial_function (option) notify_loop ::
  "('f \<Rightarrow> 'f interference) \<Rightarrow> ptr \<Rightarrow> 'f TeardownNotifier \<Rightarrow> 'f TeardownNotifier result option" where
  "notify_loop run cur s =
     (case cur of
        None \<Rightarrow> Some (Inr s)
      | Some a \<Rightarrow>
          (case listeners s a of
             None \<Rightarrow> Some (Inl Undefined_behaviour)
           | Some e \<Rightarrow>
               (let s1 = run (entry_fx e) (s\<lparr>notified := notified s @ [entry_fx e]\<rparr>) in
                if listeners s1 a = None then Some (Inl Undefined_behaviour)
                else notify_loop run (pFlink e) (s1\<lparr>listeners := (listeners s1)(a := None)\<rparr>))))"

definition NotifyTeardownListeners :: "('f \<Rightarrow> 'f interference) \<Rightarrow> 'f TeardownNotifier \<Rightarrow> 'f TeardownNotifier result option" where
  "NotifyTeardownListeners run s =
     map_option (\<lambda>r. bindR r (\<lambda>s1. Inr (s1\<lparr>m_pFirstTeardownListener := None\<rparr>)))
       (notify_loop run (m_pFirstTeardownListener s) s)"

definition notifier_dtor :: "('f \<Rightarrow> 'f interference) \<Rightarrow> 'f TeardownNotifier \<Rightarrow> 'f TeardownNotifier result option" where
  "notifier_dtor run s = NotifyTeardownListeners run s"

section \<open>The list of listeners\<close>

definition flinks :: "'f TeardownNotifier \<Rightarrow> addr \<rightharpoonup> ptr" where
  "flinks s = (\<lambda>a. map_option pFlink (listeners s a))"

definition listed :: "'f TeardownNotifier \<Rightarrow> addr list \<Rightarrow> bool" where
  "listed s as \<longleftrightarrow> chain (flinks s) (m_pFirstTeardownListener s) as None"

definition fx_of :: "'f TeardownNotifier \<Rightarrow> addr \<Rightarrow> 'f" where
  "fx_of s a = entry_fx (the (listeners s a))"

lemma listed_distinct: "listed s as \<Longrightarrow> distinct as"
  unfolding listed_def by (rule chain_distinct)

text \<open>Listeners that do not touch the notifier.\<close>

definition no_effect :: "'f \<Rightarrow> 'f interference" where
  "no_effect f s = s"

lemma notify_loop_chain:
  assumes "chain (flinks s) cur as None"
  shows "notify_loop no_effect cur s =
    Some (Inr (s\<lparr>listeners := listeners s |` (- set as), notified := notified s @ map (fx_of s) as\<rparr>))"
  using assms
proof (induction as arbitrary: cur s)
  case Nil
  have "listeners s |` UNIV = listeners s" by (auto simp: restrict_map_def)
  then show ?case using Nil by (simp add: notify_loop.simps [of _ None])
next
  case (Cons a as)
  then obtain e where e: "cur = Some a" "listeners s a = Some e" "chain (flinks s) (pFlink e) as None"
    by (auto simp: flinks_def split: option.splits)
  have d: "a \<notin> set as" using chain_distinct [OF Cons.prems] by simp
  define s1 where "s1 = s\<lparr>notified := notified s @ [entry_fx e], listeners := (listeners s)(a := None)\<rparr>"
  have f: "flinks s1 = (flinks s)(a := None)" by (auto simp: flinks_def s1_def fun_eq_iff)
  have "chain (flinks s1) (pFlink e) as None" unfolding f using e(3) d by simp
  note IH = Cons.IH [OF this]
  have m: "map (fx_of s1) as = map (fx_of s) as" using d by (auto simp: fx_of_def s1_def)
  have r: "listeners s1 |` (- set as) = listeners s |` (- set (a # as))"
    by (auto simp: s1_def restrict_map_def fun_eq_iff)
  have "notify_loop no_effect cur s = notify_loop no_effect (pFlink e) s1"
    using e by (simp add: notify_loop.simps [of _ "Some a"] no_effect_def s1_def)
  then show ?case unfolding IH r m using e(2) by (simp add: s1_def fx_of_def)
qed

lemma Notify_listed:
  assumes "listed s as"
  shows "NotifyTeardownListeners no_effect s =
    Some (Inr (s\<lparr>listeners := listeners s |` (- set as), notified := notified s @ map (fx_of s) as, m_pFirstTeardownListener := None\<rparr>))"
  using notify_loop_chain [OF assms [unfolded listed_def]] by (simp add: NotifyTeardownListeners_def)

text \<open>Spurious failures: the exchange is tried again with the link set.\<close>

lemma exchange_spurious:
  assumes "listeners s l = Some e"
  shows "exchange_loop (replicate (Suc k) (\<lambda>s. s, True)) p l s =
    Inr (s\<lparr>listeners := (listeners s)(l \<mapsto> e\<lparr>pFlink := m_pFirstTeardownListener s\<rparr>), m_pFirstTeardownListener := Some l\<rparr>)"
  using assms
proof (induction k arbitrary: p s e)
  case 0
  then show ?case by (simp add: fun_upd_def cong: if_cong)
next
  case (Suc k)
  let ?s = "s\<lparr>listeners := (listeners s)(l \<mapsto> e\<lparr>pFlink := m_pFirstTeardownListener s\<rparr>)\<rparr>"
  have "listeners ?s l = Some (e\<lparr>pFlink := m_pFirstTeardownListener s\<rparr>)" by simp
  from Suc.IH [OF this] show ?case using Suc.prems by (simp add: fun_upd_def cong: if_cong)
qed

text \<open>
  Adding a listener to a notifier with listeners \<open>as\<close>: if the first exchange succeeds, the link of the new listener is not set and the list is
  the new listener alone, so that teardown calls none of those that were added before and never deletes them; if the exchange fails
  spuriously any positive number of times, the list is the new listener followed by all the others, and teardown calls and deletes
  them in this order.
\<close>

lemma uncontended_add_loses_listeners:
  assumes "listed s as" "listeners s a = None"
  shows "\<exists>s1 s2. AddTeardownListener (replicate k (\<lambda>s. s, True)) a f s = Inr s1 \<and> NotifyTeardownListeners no_effect s1 = Some (Inr s2) \<and>
    notified s2 = notified s @ (if k = 0 then [f] else f # map (fx_of s) as) \<and>
    (\<forall>b\<in>set as. listeners s2 b = (if k = 0 then listeners s b else None))"
proof -
  have na: "a \<notin> set as" using assms chain_allocated by (fastforce simp: listed_def flinks_def)
  define s0 where "s0 = s\<lparr>listeners := (listeners s)(a \<mapsto> \<lparr>entry_fx = f, pFlink = None\<rparr>)\<rparr>"
  define new where "new = (if k = 0 then [a] else a # as)"
  define s1 where "s1 = s0\<lparr>listeners := (listeners s)(a \<mapsto> \<lparr>entry_fx = f, pFlink = (if k = 0 then None else m_pFirstTeardownListener s)\<rparr>),
    m_pFirstTeardownListener := Some a\<rparr>"
  have "AddTeardownListener (replicate k (\<lambda>s. s, True)) a f s = Inr s1"
  proof (cases k)
    case 0
    then show ?thesis by (simp add: AddTeardownListener_def AddTeardownListenerInternal_def s1_def s0_def fun_upd_def)
  next
    case (Suc n)
    have "listeners s0 a = Some \<lparr>entry_fx = f, pFlink = None\<rparr>" by (simp add: s0_def)
    from exchange_spurious [OF this] show ?thesis
      unfolding AddTeardownListener_def AddTeardownListenerInternal_def s0_def [symmetric] Suc using Suc by (simp add: s1_def s0_def fun_upd_def cong: if_cong)
  qed
  moreover have f: "flinks s1 = (flinks s)(a \<mapsto> (if k = 0 then None else m_pFirstTeardownListener s))"
    by (auto simp: flinks_def s1_def fun_eq_iff)
  then have "listed s1 new"
    using assms(1) na by (simp add: listed_def new_def s1_def f)
  from Notify_listed [OF this] have "NotifyTeardownListeners no_effect s1 =
    Some (Inr (s1\<lparr>listeners := listeners s1 |` (- set new), notified := notified s @ map (fx_of s1) new, m_pFirstTeardownListener := None\<rparr>))"
    by (simp add: s1_def s0_def)
  moreover have "map (fx_of s1) new = (if k = 0 then [f] else f # map (fx_of s) as)"
    using na by (auto simp: new_def fx_of_def s1_def)
  ultimately show ?thesis using na by (auto simp: new_def s1_def restrict_map_def)
qed

lemma uncontended_add_loses_listeners_witness:
  "\<exists>s1 s2. AddTeardownListener [] 1 (8::nat)
      \<lparr>m_pFirstTeardownListener = Some 0, listeners = [0 \<mapsto> \<lparr>entry_fx = 7, pFlink = None\<rparr>], notified = []\<rparr> = Inr s1 \<and>
     NotifyTeardownListeners no_effect s1 = Some (Inr s2) \<and> notified s2 = [8] \<and> listeners s2 0 \<noteq> None"
proof -
  let ?s = "\<lparr>m_pFirstTeardownListener = Some 0, listeners = [0 \<mapsto> \<lparr>entry_fx = 7::nat, pFlink = None\<rparr>], notified = []\<rparr>"
  have "listed ?s [0]" "listeners ?s 1 = None" by (simp_all add: listed_def flinks_def)
  from uncontended_add_loses_listeners [OF this, of 0 8] show ?thesis by force
qed

end
