(* ===== verification/Thread_Pool.thy ===== *)
theory Thread_Pool
  imports Dispatch_Queue_Clear
begin

text \<open>
  Thread pools: the interface of \<open>ThreadPool.{h,cpp}\<close>, the placeholder \<open>NullPool.{h,cpp}\<close>, which keeps work until it has a successor, the
  pool over worker threads \<open>SystemThreadPoolStl.{h,cpp}\<close>, and \<open>ManualThreadPool.{h,cpp}\<close>, whose workers are the callers of \<open>Join\<close>.

  The start token of a pool is a shared pointer; \<open>start_token\<close> is its use count, and the weak pointer \<open>m_startToken\<close> is expired if
  that is zero.  Worker threads are alike and are counted; what one of them does between two waits is a step.  The call that \<open>OnStop\<close> pends is
  \<open>StopPool\<close>.
\<close>

section \<open>Pools over worker threads\<close>

datatype 'f pool_fn = Work 'f | StopPool

record 'f StlPool =
  m_toBeDone :: "'f pool_fn DispatchQueue"
  stl_outstanding :: nat
  start_token :: nat
  pool_called :: "'f list"


definition IsStarted :: "'f StlPool \<Rightarrow> bool" where
  "IsStarted P \<longleftrightarrow> start_token P \<noteq> 0"

definition AddWorkerThreadUnsafe :: "'f StlPool \<Rightarrow> 'f StlPool" where
  "AddWorkerThreadUnsafe P = P\<lparr>stl_outstanding := Suc (stl_outstanding P)\<rparr>"

fun add_workers :: "nat \<Rightarrow> 'f StlPool \<Rightarrow> 'f StlPool" where
  "add_workers 0 P = P"
| "add_workers (Suc k) P = add_workers k (AddWorkerThreadUnsafe P)"

definition stl_OnStartUnsafe :: "'f StlPool \<Rightarrow> 'f StlPool" where
  "stl_OnStartUnsafe P = (if stl_outstanding P \<noteq> 0 then P else add_workers (2 - stl_outstanding P) P)"

definition SuggestThreadPoolSize :: "nat \<Rightarrow> 'f StlPool \<Rightarrow> 'f StlPool" where
  "SuggestThreadPoolSize nThreads P = add_workers (nThreads - stl_outstanding P) P"

definition stl_OnStop :: "addr \<Rightarrow> 'f StlPool \<Rightarrow> 'f StlPool result" where
  "stl_OnStop a P = bindR (dq_add a StopPool (m_toBeDone P)) (\<lambda>(_, q). Inr (P\<lparr>m_toBeDone := q\<rparr>))"

text \<open>\<open>ThreadPool::Start\<close>, and the end of a copy of the token it returns.\<close>

definition stl_Start :: "'f StlPool \<Rightarrow> 'f StlPool" where
  "stl_Start P =
     (let P1 = (if start_token P = 0 then stl_OnStartUnsafe P else P) in P1\<lparr>start_token := Suc (start_token P1)\<rparr>)"

definition stl_release :: "addr \<Rightarrow> 'f StlPool \<Rightarrow> 'f StlPool result" where
  "stl_release a P =
     (let P1 = P\<lparr>start_token := start_token P - 1\<rparr> in if start_token P1 = 0 then stl_OnStop a P1 else Inr P1)"

text \<open>\<open>Submit\<close> of a thunk with the function \<open>f\<close>, allocated at \<open>a\<close>.  It returns false in every case.\<close>

definition stl_Submit :: "addr \<Rightarrow> 'f \<Rightarrow> 'f StlPool \<Rightarrow> (bool \<times> 'f StlPool) result" where
  "stl_Submit a f P =
     bindR (AddExisting a (new_thunk a (Work f) (m_toBeDone P))) (\<lambda>q.
       let P1 = P\<lparr>m_toBeDone := q\<rparr> in
       Inr (False, if stl_outstanding P1 = 0 \<and> start_token P1 \<noteq> 0 then AddWorkerThreadUnsafe P1 else P1))"

text \<open>\<open>Consume\<close>; \<open>drain dq\<close> is the function that dispatches all events of \<open>dq\<close>.\<close>

definition Consume :: "('q \<Rightarrow> 'f) \<Rightarrow> addr \<Rightarrow> 'q \<Rightarrow> 'f StlPool \<Rightarrow> 'f StlPool result" where
  "Consume drain a dq P = bindR (stl_Submit a (drain dq) P) (\<lambda>(_, P'). Inr P')"

text \<open>
  The step of a worker: an aborted queue throws \<open>dispatch_aborted_exception\<close> and the worker ends; a ready function is called, and if it
  throws (\<open>throws f\<close> is the exception of \<open>f\<close>, if any), the worker ends too; else the worker waits.  Steps of different workers follow each other.
\<close>

definition pool_call :: "('f \<Rightarrow> aw_error option) \<Rightarrow> 'f pool_fn \<Rightarrow> 'f pool_fn DispatchQueue \<Rightarrow> aw_error option \<times> 'f pool_fn DispatchQueue" where
  "pool_call throws g q =
     (case g of
        Work f \<Rightarrow> (throws f, q)
      | StopPool \<Rightarrow> (case Abort (\<lambda>f q. (None, q)) q of Some (Inr q') \<Rightarrow> (None, q') | _ \<Rightarrow> (Some Undefined_behaviour, q)))"

definition worker_step :: "('f \<Rightarrow> aw_error option) \<Rightarrow> 'f StlPool \<Rightarrow> 'f StlPool result" where
  "worker_step throws P =
     (if stl_outstanding P = 0 then Inr P
      else if onAborted (m_toBeDone P) then Inr (P\<lparr>stl_outstanding := stl_outstanding P - 1\<rparr>)
      else if m_pHead (m_toBeDone P) = None then Inr P
      else bindR (load_thunk (m_pHead (m_toBeDone P)) (m_toBeDone P)) (\<lambda>(a, c).
        bindR (DispatchEventUnsafe (pool_call throws) (m_toBeDone P)) (\<lambda>(exc, q).
          Inr (P\<lparr>m_toBeDone := q, stl_outstanding := (if exc = None then stl_outstanding P else stl_outstanding P - 1),
                 pool_called := (case m_fx c of Work f \<Rightarrow> pool_called P @ [f] | StopPool \<Rightarrow> pool_called P)\<rparr>))))"

fun worker_steps :: "('f \<Rightarrow> aw_error option) \<Rightarrow> nat \<Rightarrow> 'f StlPool \<Rightarrow> 'f StlPool result" where
  "worker_steps throws 0 P = Inr P"
| "worker_steps throws (Suc n) P = bindR (worker_step throws P) (worker_steps throws n)"

section \<open>The placeholder pool\<close>

record 'f NullPool =
  m_dispatchers :: "'f list"
  m_successor :: "'f StlPool option"


definition null_Submit :: "'f \<Rightarrow> 'f NullPool \<Rightarrow> bool \<times> 'f NullPool" where
  "null_Submit thunk N = (True, N\<lparr>m_dispatchers := m_dispatchers N @ [thunk]\<rparr>)"






section \<open>The manual pool\<close>

text \<open>
  The pool is a dispatch queue; \<open>cancelled\<close> is the flag of the token of one participant.  The count of participants, \<open>m_outstanding\<close>, is not
  read by anything and is left out.  \<open>manual_called\<close> records the calls.
\<close>

record 'f ManualThreadPool = "'f DispatchQueue" +
  cancelled :: bool
  manual_called :: "'f list"

text \<open>The pool after \<open>PrepareJoin\<close>; 1024 is the default cap of a dispatch queue.\<close>

definition manual_prepared :: "'f ManualThreadPool" where
  "manual_prepared = DispatchQueue.extend (dq_new 1024) \<lparr>cancelled = False, manual_called = []\<rparr>"

definition Leave :: "'f ManualThreadPool \<Rightarrow> 'f ManualThreadPool" where
  "Leave q = WakeAllWaitingThreads (q\<lparr>cancelled := True\<rparr>)"

definition manual_Submit :: "addr \<Rightarrow> 'f \<Rightarrow> 'f ManualThreadPool \<Rightarrow> (bool \<times> 'f ManualThreadPool) result" where
  "manual_Submit a f q = bindR (AddExisting a (new_thunk a f q)) (\<lambda>q'. Inr (True, q'))"

text \<open>
  \<open>Join\<close>: wait for events until the token is cancelled.  \<open>pre i\<close> is what other threads do between the \<open>i\<close>-th look at the token and the
  wait, \<open>env i\<close> what they do during the wait.  Every exception ends the loop; \<open>Inl e\<close> is a loop that has ended with an exception of
  the queue, after which the queue is as other threads have left it.
\<close>

partial_function (option) Join ::
  "('f, ('f, 'w) ManualThreadPool_ext) call \<Rightarrow> (nat \<Rightarrow> int) \<Rightarrow> (nat \<Rightarrow> ('f, 'w) ManualThreadPool_scheme \<Rightarrow> ('f, 'w) ManualThreadPool_scheme)
     \<Rightarrow> (nat \<Rightarrow> nat \<Rightarrow> ('f, 'w) ManualThreadPool_scheme \<Rightarrow> ('f, 'w) ManualThreadPool_scheme)
     \<Rightarrow> (nat \<Rightarrow> nat \<Rightarrow> int \<Rightarrow> ('f, 'w) ManualThreadPool_scheme \<Rightarrow> bool \<times> ('f, 'w) ManualThreadPool_scheme)
     \<Rightarrow> nat \<Rightarrow> ('f, 'w) ManualThreadPool_scheme \<Rightarrow> ('f, 'w) ManualThreadPool_scheme result option" where
  "Join run clock pre env tenv i q =
     (if cancelled q then Some (Inr q)
      else case WaitForEvent run clock (env i) (tenv i) (pre i q) of
             None \<Rightarrow> None
           | Some (Inl e) \<Rightarrow> Some (Inl e)
           | Some (Inr (Some exc, q')) \<Rightarrow> Some (Inr q')
           | Some (Inr (None, q')) \<Rightarrow> Join run clock pre env tenv (Suc i) q')"

section \<open>Submitting\<close>

lemma AddExisting_new:
  assumes "m_heap q a = None"
  shows "AddExisting a (new_thunk a f q) = (if m_count q < m_dispatchCap q then Pend a f q else Inr q)"
  using assms by (simp add: AddExisting_def Pend_def)

text \<open>A pool in good order: the queue represents the work to be done, and there is room.\<close>

definition pool_ok :: "'f StlPool \<Rightarrow> 'f pool_fn list \<Rightarrow> bool" where
  "pool_ok P R \<longleftrightarrow> represents (m_toBeDone P) R [] \<and> m_count (m_toBeDone P) = length R"




section \<open>Workers\<close>

text \<open>A worker calls the first function.\<close>

lemma worker_step_Work:
  assumes "pool_ok P (Work f # R)" "stl_outstanding P \<noteq> 0" "\<not> onAborted (m_toBeDone P)"
  shows "\<exists>P'. worker_step throws P = Inr P' \<and> pool_ok P' R \<and> pool_called P' = pool_called P @ [f] \<and>
    stl_outstanding P' = (if throws f = None then stl_outstanding P else stl_outstanding P - 1) \<and> \<not> onAborted (m_toBeDone P')"
proof -
  let ?q = "m_toBeDone P"
  have r: "represents ?q (Work f # R) []" "m_count ?q = Suc (length R)" using assms(1) by (simp_all add: pool_ok_def)
  obtain a c where pop: "pop_front ?q = Inr (a, c, ?q\<lparr>m_pHead := m_pFlink c\<rparr>)" "m_fx c = Work f" "m_heap ?q a = Some c"
    "in_flight (?q\<lparr>m_pHead := m_pFlink c\<rparr>) a R []"
    using pop_front_represents [OF r(1)] by blast
  have head: "m_pHead ?q = Some a"
    using pop(1) by (auto simp: pop_front_def load_thunk_def bindR_eq_Inr_iff split: option.splits)
  have fl: "in_flight (count_down (?q\<lparr>m_pHead := m_pFlink c\<rparr>)) a R []" using pop(4) by simp
  let ?q3 = "(count_down (?q\<lparr>m_pHead := m_pFlink c\<rparr>))\<lparr>m_heap := (m_heap (count_down (?q\<lparr>m_pHead := m_pFlink c\<rparr>)))(a := None)\<rparr>"
  let ?n = "if throws f = None then stl_outstanding P else stl_outstanding P - 1"
  have "DispatchEventUnsafe (pool_call throws) ?q = Inr (throws f, ?q3)"
    using pop(1,2) in_flight_delete(1) [OF fl] by (simp add: DispatchEventUnsafe_def pool_call_def)
  then have "worker_step throws P = Inr (P\<lparr>m_toBeDone := ?q3, stl_outstanding := ?n, pool_called := pool_called P @ [f]\<rparr>)"
    using assms(2,3) head pop(2,3) by (simp add: worker_step_def load_thunk_def)
  moreover have "pool_ok (P\<lparr>m_toBeDone := ?q3, stl_outstanding := ?n, pool_called := pool_called P @ [f]\<rparr>) R"
    using in_flight_delete(2) [OF fl] r(2) by (simp add: pool_ok_def)
  ultimately show ?thesis using assms(3) by auto
qed




text \<open>
  A worker whose function throws ends.  When the last one has ended, the rest of the work waits for the next \<open>Submit\<close>, which starts a worker.
\<close>

lemma throwing_work_strands_pool:
  assumes "pool_ok P (Work f # R)" "stl_outstanding P = 1" "\<not> onAborted (m_toBeDone P)" "throws f \<noteq> None"
  shows "\<exists>P'. worker_step throws P = Inr P' \<and> pool_ok P' R \<and> (\<forall>n. worker_steps throws n P' = Inr P')"
proof -
  obtain P' where P': "worker_step throws P = Inr P'" "pool_ok P' R" "stl_outstanding P' = 0"
    using worker_step_Work [OF assms(1) _ assms(3), of throws] assms(2,4) by auto
  have "worker_steps throws n P' = Inr P'" for n
    using P'(3) by (induction n) (simp_all add: worker_step_def)
  then show ?thesis using P' by blast
qed

text \<open>
  A pool whose last token has gone and whose workers have come to the pended stop has an aborted queue; when it is started again, what is submitted to it is
  deleted without being called.
\<close>

lemma worker_step_StopPool:
  assumes "pool_ok P [StopPool]" "stl_outstanding P \<noteq> 0" "\<not> onAborted (m_toBeDone P)"
  shows "\<exists>P'. worker_step throws P = Inr P' \<and> pool_ok P' [] \<and> m_dispatchCap (m_toBeDone P') = 0 \<and> pool_called P' = pool_called P"
proof -
  let ?q = "m_toBeDone P"
  have r: "represents ?q [StopPool] []" "m_count ?q = 1" using assms(1) by (simp_all add: pool_ok_def)
  obtain a c where pop: "pop_front ?q = Inr (a, c, ?q\<lparr>m_pHead := m_pFlink c\<rparr>)" "m_fx c = StopPool" "m_heap ?q a = Some c"
    "in_flight (?q\<lparr>m_pHead := m_pFlink c\<rparr>) a [] []"
    using pop_front_represents [OF r(1)] by blast
  have head: "m_pHead ?q = Some a"
    using pop(1) by (auto simp: pop_front_def load_thunk_def bindR_eq_Inr_iff split: option.splits)
  obtain q2 where q2: "Abort (\<lambda>f q. (None, q)) (?q\<lparr>m_pHead := m_pFlink c\<rparr>) = Some (Inr q2)" "in_flight q2 a [] []"
    "m_count q2 = 1" "m_dispatchCap q2 = 0"
    using Abort_in_flight [OF pop(4)] r(2) by auto
  have fl: "in_flight (count_down q2) a [] []" using q2(2) by simp
  let ?q3 = "(count_down q2)\<lparr>m_heap := (m_heap (count_down q2))(a := None)\<rparr>"
  have "DispatchEventUnsafe (pool_call throws) ?q = Inr (None, ?q3)"
    using pop(1,2) q2(1) in_flight_delete(1) [OF fl] by (simp add: DispatchEventUnsafe_def pool_call_def)
  then have "worker_step throws P = Inr (P\<lparr>m_toBeDone := ?q3, stl_outstanding := stl_outstanding P, pool_called := pool_called P\<rparr>)"
    using assms(2,3) head pop(2,3) by (simp add: worker_step_def load_thunk_def)
  then show ?thesis using in_flight_delete(2) [OF fl] q2(3,4) by (auto simp: pool_ok_def)
qed

lemma restarted_pool_drops_work:
  assumes "pool_ok P []" "start_token P = 1" "stl_outstanding P \<noteq> 0" "\<not> onAborted (m_toBeDone P)"
    and "0 < m_dispatchCap (m_toBeDone P)" "m_heap (m_toBeDone P) a = None"
  shows "\<exists>P1 P2. stl_release a P = Inr P1 \<and> worker_step throws P1 = Inr P2 \<and>
    (\<forall>b f. m_heap (m_toBeDone P2) b = None \<longrightarrow>
      (\<exists>P3. stl_Submit b f (stl_Start P2) = Inr (False, P3) \<and> pool_ok P3 [] \<and> pool_called P3 = pool_called P))"
proof -
  obtain q where q: "dq_add a StopPool (m_toBeDone P) = Inr (True, q)" "represents q [StopPool] []" "m_count q = 1" "\<not> onAborted q"
    using dq_add_represents [of "m_toBeDone P" "[]" "[]" a StopPool] assms by (auto simp: pool_ok_def)
  define P1 where "P1 = P\<lparr>start_token := 0, m_toBeDone := q\<rparr>"
  have P1: "stl_release a P = Inr P1" using assms(2) q(1) by (simp add: stl_release_def stl_OnStop_def P1_def)
  obtain P2 where P2: "worker_step throws P1 = Inr P2" "pool_ok P2 []" "m_dispatchCap (m_toBeDone P2) = 0" "pool_called P2 = pool_called P"
    using worker_step_StopPool [of P1 throws] q(2-4) assms(3) by (auto simp: P1_def pool_ok_def)
  have add: "m_toBeDone (add_workers k X) = m_toBeDone X" "pool_called (add_workers k X) = pool_called X" for k and X :: "'a StlPool"
    by (induction k arbitrary: X) (simp_all add: AddWorkerThreadUnsafe_def)
  have st: "m_toBeDone (stl_Start P2) = m_toBeDone P2" "pool_called (stl_Start P2) = pool_called P"
    using P2(4) by (simp_all add: stl_Start_def stl_OnStartUnsafe_def Let_def add)
  have "\<exists>P3. stl_Submit b f (stl_Start P2) = Inr (False, P3) \<and> pool_ok P3 [] \<and> pool_called P3 = pool_called P"
    if "m_heap (m_toBeDone P2) b = None" for b f
    using that P2(2,3) st by (auto simp: stl_Submit_def AddExisting_new Let_def pool_ok_def AddWorkerThreadUnsafe_def)
  then show ?thesis using P1 P2(1) by blast
qed

section \<open>Participants of a manual pool\<close>

text \<open>Functions that return; \<open>leaves f\<close> tells whether \<open>f\<close> leaves the pool.\<close>

definition manual_call :: "('f \<Rightarrow> bool) \<Rightarrow> 'f \<Rightarrow> 'f ManualThreadPool \<Rightarrow> aw_error option \<times> 'f ManualThreadPool" where
  "manual_call leaves f q =
     (None, (if leaves f then Leave q else q)\<lparr>manual_called := manual_called q @ [f]\<rparr>)"

lemma WaitForEvent_manual:
  assumes "represents q (f # R) []" "\<not> onAborted q"
  shows "\<exists>q'. WaitForEvent (manual_call leaves) clock env tenv q = Some (Inr (None, q')) \<and> represents q' R [] \<and> \<not> onAborted q' \<and>
    cancelled q' = (cancelled q \<or> leaves f) \<and> manual_called q' = manual_called q @ [f]"
proof -
  obtain a c where pop: "pop_front q = Inr (a, c, q\<lparr>m_pHead := m_pFlink c\<rparr>)" "m_fx c = f" "m_heap q a = Some c"
    "in_flight (q\<lparr>m_pHead := m_pFlink c\<rparr>) a R []"
    using pop_front_represents [OF assms(1)] by blast
  have head: "m_pHead q = Some a"
    using pop(1) by (auto simp: pop_front_def load_thunk_def bindR_eq_Inr_iff split: option.splits)
  let ?q2 = "snd (manual_call leaves f (q\<lparr>m_pHead := m_pFlink c\<rparr>))"
  have "in_flight ?q2 a R []"
    using pop(4) by (auto simp: manual_call_def Leave_def WakeAllWaitingThreads_def in_flight_def dq_rep_def links_def fx_at_def delayed_fns_def notify_all_def)
  then have fl: "in_flight (count_down ?q2) a R []" by simp
  let ?q3 = "(count_down ?q2)\<lparr>m_heap := (m_heap (count_down ?q2))(a := None)\<rparr>"
  have "DispatchEventUnsafe (manual_call leaves) q = Inr (None, ?q3)"
    using pop(1,2) in_flight_delete(1) [OF fl] by (simp add: DispatchEventUnsafe_def manual_call_def)
  then have "WaitForEvent (manual_call leaves) clock env tenv q = Some (Inr (None, ?q3))"
    using head assms(2) by (simp add: WaitForEvent_def cv_wait.simps wait_pred_def)
  moreover have "\<not> onAborted ?q3" "cancelled ?q3 = (cancelled q \<or> leaves f)" "manual_called ?q3 = manual_called q @ [f]"
    using assms(2) by (simp_all add: manual_call_def Leave_def WakeAllWaitingThreads_def notify_all_def count_down_def Let_def)
  ultimately show ?thesis using in_flight_delete(2) [OF fl] by blast
qed

text \<open>A participant calls the functions in order until one of them leaves the pool; the rest stays in the queue.\<close>

lemma Join_calls_until_left:
  assumes "represents q (fs @ l # gs) []" "\<not> onAborted q" "\<not> cancelled q" "\<forall>f\<in>set fs. \<not> leaves f" "leaves l"
  shows "\<exists>q'. Join (manual_call leaves) clock (\<lambda>i q. q) env tenv i q = Some (Inr q') \<and> represents q' gs [] \<and>
    cancelled q' \<and> manual_called q' = manual_called q @ fs @ [l]"
  using assms
proof (induction fs arbitrary: q i)
  case Nil
  then obtain q' where "WaitForEvent (manual_call leaves) clock (env i) (tenv i) q = Some (Inr (None, q'))" "represents q' gs []"
    "cancelled q'" "manual_called q' = manual_called q @ [l]"
    using WaitForEvent_manual [of q l gs leaves clock "env i" "tenv i"] by auto
  then show ?case using Nil.prems(3) by (auto simp: Join.simps)
next
  case (Cons f fs)
  then obtain q' where "WaitForEvent (manual_call leaves) clock (env i) (tenv i) q = Some (Inr (None, q'))" "represents q' (fs @ l # gs) []"
    "\<not> onAborted q'" "\<not> cancelled q'" "manual_called q' = manual_called q @ [f]"
    using WaitForEvent_manual [of q f "fs @ l # gs" leaves clock "env i" "tenv i"] by auto
  moreover from this Cons.IH [of q' "Suc i"] Cons.prems(4,5)
  obtain q'' where "Join (manual_call leaves) clock (\<lambda>i q. q) env tenv (Suc i) q' = Some (Inr q'')" "represents q'' gs []" "cancelled q''"
    "manual_called q'' = manual_called q' @ fs @ [l]" by auto
  ultimately show ?case using Cons.prems(3) by (subst Join.simps) auto
qed

text \<open>A participant that waits is released by \<open>Leave\<close>.\<close>

lemma Leave_releases_waiting:
  assumes "m_pHead q = None" "m_delayedQueue q = []" "\<not> onAborted q" "\<not> cancelled q" "env 0 0 = Leave"
  shows "Join run clock (\<lambda>i q. q) env tenv 0 q = Some (Inr (Leave q))"
proof -
  have "cv_wait (wait_pred (m_version q)) (env 0) 0 q = Some (Inr (Leave q))"
    using assms by (simp add: cv_wait.simps wait_pred_def Leave_def WakeAllWaitingThreads_def notify_all_def)
  then have "WaitForEvent run clock (env 0) (tenv 0) q = Some (Inr (None, Leave q))"
    using assms by (simp add: WaitForEvent_def Leave_def WakeAllWaitingThreads_def notify_all_def pq_top_def)
  then show ?thesis using assms(4) by (simp add: Join.simps Leave_def WakeAllWaitingThreads_def notify_all_def)
qed

text \<open>
  If \<open>Leave\<close> is called after the participant has looked at the token and before it waits, the wait begins with the new version: the
  participant does not return while the queue stays empty.
\<close>

lemma cv_wait_diverges:
  assumes "pred q = Inr False" "\<forall>k. env k q = q"
  shows "cv_wait pred env i q = None"
proof (rule ccontr)
  assume "cv_wait pred env i q \<noteq> None"
  then obtain y where "cv_wait pred env i q = Some y" by blast
  then have "\<not> (pred q = Inr False \<and> (\<forall>k. env k q = q))"
    by (rule cv_wait.raw_induct [rotated]) (fastforce split: sum.splits if_splits)
  then show False using assms by blast
qed

lemma early_Leave_is_lost:
  assumes "m_pHead q = None" "m_delayedQueue q = []" "\<not> onAborted q" "\<not> cancelled q"
    and "pre 0 = Leave" "\<forall>k. env 0 k (Leave q) = Leave q"
  shows "Join run clock pre env tenv 0 q = None"
proof -
  let ?q = "Leave q"
  have same: "m_pHead ?q = None" "m_delayedQueue ?q = []" "\<not> onAborted ?q"
    using assms by (simp_all add: Leave_def WakeAllWaitingThreads_def notify_all_def)
  then have "cv_wait (wait_pred (m_version ?q)) (env 0) 0 ?q = None"
    using assms(6) by (intro cv_wait_diverges) (simp_all add: wait_pred_def)
  then have "WaitForEvent run clock (env 0) (tenv 0) ?q = None" using same by (simp add: WaitForEvent_def)
  then show ?thesis using assms(4,5) by (simp add: Join.simps)
qed

end
