(* ===== verification/Parallel.thy ===== *)
theory Parallel
  imports Prelude "HOL-Library.Multiset" "HOL-Library.AList"
begin

text \<open>
  Fan-out and gathering (\<open>Parallel.{h,cpp}\<close>): functions that a number of threads take from a dispatch queue, and whose results are collected by type.
  The dispatch queue of the status block is the sequence that \<open>Dispatch_Queue_Clear\<close> shows a dispatch queue to represent: functions that wait, functions
  that a thread has taken and not yet returned from, and the cap on their number.  What a thread does to the status block while it holds the
  lock is a step.  \<open>rv f\<close> is the value that the function \<open>f\<close> returns; functions do not throw.
\<close>

section \<open>State\<close>

text \<open>A function that is given to \<open>operator+=\<close>: one that returns a value of the type with identifier \<open>t\<close>, or one that returns none.\<close>

datatype 'f job = Returning nat 'f | NoResult 'f

text \<open>\<open>m_block\<close> is a shared pointer; \<open>has_block\<close> tells whether it is set.  \<open>dq_waiting\<close>, \<open>dq_running\<close> and \<open>dq_cap\<close> are the dispatch queue.\<close>

record ('f, 'r) parallel =
  has_block :: bool
  par_threads :: nat
  m_queue :: "(nat \<times> 'r list) list"
  m_nVoidEntries :: nat
  m_outstandingCount :: nat
  dq_waiting :: "'f job list"
  dq_running :: "'f job list"
  dq_cap :: nat

text \<open>The constructor; \<open>hardware\<close> is \<open>hardware_concurrency()\<close>.\<close>

definition parallel_new :: "nat \<Rightarrow> nat \<Rightarrow> ('f, 'r) parallel" where
  "parallel_new hardware concurrency =
     \<lparr>has_block = True, par_threads = (if concurrency = 0 then hardware else concurrency), m_queue = [], m_nVoidEntries = 0,
      m_outstandingCount = 0, dq_waiting = [], dq_running = [], dq_cap = 1024\<rparr>"

definition results :: "nat \<Rightarrow> ('f, 'r) parallel \<Rightarrow> 'r list" where
  "results t P = (case map_of (m_queue P) t of None \<Rightarrow> [] | Some rs \<Rightarrow> rs)"

definition set_results :: "nat \<Rightarrow> 'r list \<Rightarrow> ('f, 'r) parallel \<Rightarrow> ('f, 'r) parallel" where
  "set_results t rs P = P\<lparr>m_queue := AList.update t rs (m_queue P)\<rparr>"

section \<open>Operations\<close>

definition par_add :: "'f job \<Rightarrow> ('f, 'r) parallel \<Rightarrow> ('f, 'r) parallel" where
  "par_add j P =
     (if \<not> has_block P then P
      else let P1 = P\<lparr>m_outstandingCount := Suc (m_outstandingCount P)\<rparr> in
        if dq_cap P1 \<le> length (dq_waiting P1) + length (dq_running P1) then P1
        else P1\<lparr>dq_waiting := dq_waiting P1 @ [j]\<rparr>)"

text \<open>The end of the function that \<open>operator+=\<close> puts into the queue, after the call.\<close>

fun store_result :: "('f \<Rightarrow> 'r) \<Rightarrow> 'f job \<Rightarrow> ('f, 'r) parallel \<Rightarrow> ('f, 'r) parallel" where
  "store_result rv (Returning t f) P = set_results t (results t P @ [rv f]) P"
| "store_result rv (NoResult f) P = P\<lparr>m_nVoidEntries := Suc (m_nVoidEntries P)\<rparr>"

text \<open>The whole function, on a thread that holds the lock of the block or one that does not: \<open>None\<close> is a thread that waits for itself.\<close>

definition job_body :: "bool \<Rightarrow> ('f \<Rightarrow> 'r) \<Rightarrow> 'f job \<Rightarrow> ('f, 'r) parallel \<Rightarrow> ('f, 'r) parallel option" where
  "job_body locked rv j P = (if \<not> has_block P then Some P else if locked then None else Some (store_result rv j P))"

text \<open>
  A worker takes the first function if one waits, and calls it only if the block is there; and returns from the \<open>i\<close>-th of the functions that
  workers are calling.
\<close>

definition par_take :: "('f, 'r) parallel \<Rightarrow> ('f, 'r) parallel option" where
  "par_take P =
     (case dq_waiting P of
        [] \<Rightarrow> None
      | j # js \<Rightarrow>
          if length (dq_running P) < par_threads P then
            Some (if has_block P then P\<lparr>dq_waiting := js, dq_running := dq_running P @ [j]\<rparr> else P\<lparr>dq_waiting := js\<rparr>)
          else None)"

definition par_finish :: "('f \<Rightarrow> 'r) \<Rightarrow> nat \<Rightarrow> ('f, 'r) parallel \<Rightarrow> ('f, 'r) parallel option" where
  "par_finish rv i P =
     (if i < length (dq_running P) then
        Some (store_result rv (dq_running P ! i) (P\<lparr>dq_running := take i (dq_running P) @ drop (Suc i) (dq_running P)\<rparr>))
      else None)"

text \<open>\<open>Pop\<close> and \<open>Top\<close>: \<open>None\<close> is a call that waits.  \<open>dflt\<close> is the value \<open>T{}\<close>.\<close>

definition Pop_void :: "('f, 'r) parallel \<Rightarrow> ('f, 'r) parallel result option" where
  "Pop_void P =
     (if \<not> has_block P then Some (Inr P)
      else if m_outstandingCount P = 0 then Some (Inl (out_of_range ''No outstanding jobs''))
      else if m_nVoidEntries P = 0 then None
      else Some (Inr (P\<lparr>m_nVoidEntries := m_nVoidEntries P - 1, m_outstandingCount := m_outstandingCount P - 1\<rparr>)))"

definition Pop :: "nat \<Rightarrow> ('f, 'r) parallel \<Rightarrow> ('f, 'r) parallel result option" where
  "Pop t P =
     (if \<not> has_block P then Some (Inr P)
      else if m_outstandingCount P = 0 then Some (Inl (out_of_range ''No outstanding jobs''))
      else if results t P = [] then None
      else Some (Inr ((set_results t (tl (results t P)) P)\<lparr>m_outstandingCount := m_outstandingCount P - 1\<rparr>)))"


text \<open>What \<open>barrier\<close> waits for.\<close>

definition barrier_pred :: "('f, 'r) parallel \<Rightarrow> bool" where
  "barrier_pred P \<longleftrightarrow> \<not> has_block P \<or> m_outstandingCount P = m_nVoidEntries P + (\<Sum>e\<leftarrow>m_queue P. length (snd e))"



text \<open>
  \<open>stop_unsafe\<close> is called with the lock of the block held.  \<open>Rundown\<close> closes the queue and calls the functions that wait on the calling thread.
\<close>

fun par_rundown :: "bool \<Rightarrow> ('f \<Rightarrow> 'r) \<Rightarrow> 'f job list \<Rightarrow> ('f, 'r) parallel \<Rightarrow> ('f, 'r) parallel option" where
  "par_rundown locked rv [] P = Some P"
| "par_rundown locked rv (j # js) P = Option.bind (job_body locked rv j P) (par_rundown locked rv js)"

definition stop_unsafe :: "('f \<Rightarrow> 'r) \<Rightarrow> ('f, 'r) parallel \<Rightarrow> ('f, 'r) parallel option" where
  "stop_unsafe rv P =
     (if \<not> has_block P then Some P
      else map_option (\<lambda>P1. P1\<lparr>has_block := False\<rparr>) (par_rundown True rv (dq_waiting P) (P\<lparr>dq_cap := 0, dq_waiting := []\<rparr>)))"

definition par_stop :: "('f \<Rightarrow> 'r) \<Rightarrow> ('f, 'r) parallel \<Rightarrow> ('f, 'r) parallel option" where
  "par_stop rv P = (if \<not> has_block P then Some P else stop_unsafe rv P)"

section \<open>The values of functions by type\<close>






lemma results_set_results [simp]: "results u (set_results t rs P) = (if u = t then rs else results u P)"
  by (simp add: results_def set_results_def update_conv')

lemma results_frame [simp]:
  "results t (P\<lparr>m_nVoidEntries := n\<rparr>) = results t P" "results t (P\<lparr>m_outstandingCount := n\<rparr>) = results t P"
  "results t (P\<lparr>dq_waiting := js\<rparr>) = results t P" "results t (P\<lparr>dq_running := js\<rparr>) = results t P"
  by (simp_all add: results_def)


lemma store_result_fields [simp]:
  "has_block (store_result rv j P) = has_block P" "m_outstandingCount (store_result rv j P) = m_outstandingCount P"
  "dq_waiting (store_result rv j P) = dq_waiting P" "dq_running (store_result rv j P) = dq_running P"
  "dq_cap (store_result rv j P) = dq_cap P" "par_threads (store_result rv j P) = par_threads P"
  by (cases j; simp add: set_results_def)+

lemma set_results_fields [simp]:
  "has_block (set_results t rs P) = has_block P" "m_outstandingCount (set_results t rs P) = m_outstandingCount P"
  "m_nVoidEntries (set_results t rs P) = m_nVoidEntries P"
  "dq_waiting (set_results t rs P) = dq_waiting P" "dq_running (set_results t rs P) = dq_running P"
  "dq_cap (set_results t rs P) = dq_cap P" "par_threads (set_results t rs P) = par_threads P"
  by (simp_all add: set_results_def)

section \<open>Gathering\<close>













section \<open>Barriers and stopping\<close>

text \<open>What users and threads do before \<open>stop\<close>; \<open>lost\<close> is the number of functions that the full queue has refused.\<close>

inductive par_reach :: "('f \<Rightarrow> 'r) \<Rightarrow> nat \<Rightarrow> ('f, 'r) parallel \<Rightarrow> bool" for rv where
  new: "par_reach rv 0 (parallel_new hw k)"
| add: "par_reach rv lost P \<Longrightarrow> par_reach rv (if dq_cap P \<le> length (dq_waiting P) + length (dq_running P) then Suc lost else lost) (par_add j P)"
| take: "par_reach rv lost P \<Longrightarrow> par_take P = Some P' \<Longrightarrow> par_reach rv lost P'"
| finish: "par_reach rv lost P \<Longrightarrow> par_finish rv i P = Some P' \<Longrightarrow> par_reach rv lost P'"
| pop: "par_reach rv lost P \<Longrightarrow> Pop t P = Some (Inr P') \<Longrightarrow> par_reach rv lost P'"
| pop_void: "par_reach rv lost P \<Longrightarrow> Pop_void P = Some (Inr P') \<Longrightarrow> par_reach rv lost P'"

definition total_results :: "('f, 'r) parallel \<Rightarrow> nat" where
  "total_results P = m_nVoidEntries P + (\<Sum>e\<leftarrow>m_queue P. length (snd e))"

lemma sum_update:
  assumes "distinct (map fst al)"
  shows "(\<Sum>e\<leftarrow>AList.update t rs al. length (snd e)) + (case map_of al t of None \<Rightarrow> 0 | Some r \<Rightarrow> length r) = (\<Sum>e\<leftarrow>al. length (snd e)) + length rs"
  using assms by (induction al) (auto simp: update.simps split: option.splits dest: weak_map_of_SomeI)

lemma total_set_results:
  assumes "distinct (map fst (m_queue P))"
  shows "total_results (set_results t rs P) + length (results t P) = total_results P + length rs"
  using sum_update [OF assms, of t rs] by (auto simp: total_results_def set_results_def results_def split: option.splits)

lemma total_store_result:
  assumes "distinct (map fst (m_queue P))"
  shows "total_results (store_result rv j P) = Suc (total_results P)"
proof (cases j)
  case (Returning t f)
  then show ?thesis using total_set_results [OF assms, of t "results t P @ [rv f]"] by simp
qed (simp add: total_results_def)

lemma store_result_distinct:
  "distinct (map fst (m_queue P)) \<Longrightarrow> distinct (map fst (m_queue (store_result rv j P)))"
  by (cases j) (simp_all add: set_results_def distinct_update)

definition par_inv :: "nat \<Rightarrow> ('f, 'r) parallel \<Rightarrow> bool" where
  "par_inv lost P \<longleftrightarrow> has_block P \<and> distinct (map fst (m_queue P)) \<and>
     m_outstandingCount P = total_results P + length (dq_waiting P) + length (dq_running P) + lost"

lemma total_results_frame [simp]:
  "total_results (P\<lparr>m_outstandingCount := n\<rparr>) = total_results P" "total_results (P\<lparr>dq_waiting := js\<rparr>) = total_results P"
  "total_results (P\<lparr>dq_running := js\<rparr>) = total_results P"
  by (simp_all add: total_results_def)

lemma Pop_inv:
  assumes "par_inv lost P" "Pop t P = Some (Inr P')"
  shows "par_inv lost P'"
proof -
  have r: "results t P \<noteq> []" "m_outstandingCount P \<noteq> 0"
    "P' = (set_results t (tl (results t P)) P)\<lparr>m_outstandingCount := m_outstandingCount P - 1\<rparr>"
    using assms by (auto simp: Pop_def par_inv_def split: if_splits)
  have "Suc (total_results (set_results t (tl (results t P)) P)) = total_results P"
    using total_set_results [of P t "tl (results t P)"] assms(1) r(1) by (cases "results t P") (auto simp: par_inv_def)
  then show ?thesis using assms(1) r by (auto simp: par_inv_def set_results_def distinct_update)
qed

lemma par_reach_inv: "par_reach rv lost P \<Longrightarrow> par_inv lost P"
proof (induction rule: par_reach.induct)
  case (new hw k)
  then show ?case by (simp add: par_inv_def parallel_new_def total_results_def)
next
  case (add lost P j)
  then show ?case by (simp add: par_inv_def par_add_def)
next
  case (take lost P P')
  then show ?case by (auto simp: par_inv_def par_take_def split: list.splits if_splits)
next
  case (finish lost P i P')
  then show ?case
    by (auto simp: par_inv_def par_finish_def total_store_result store_result_distinct split: if_splits)
next
  case (pop lost P t P')
  then show ?case by (blast intro: Pop_inv)
next
  case (pop_void lost P P')
  then show ?case by (auto simp: par_inv_def Pop_void_def total_results_def split: if_splits)
qed

text \<open>
  \<open>barrier\<close> waits exactly until no function waits or runs, if the queue has refused none.  A refused function was counted, so after one the
  condition never holds again.
\<close>

lemma barrier_exact:
  assumes "par_reach rv lost P"
  shows "barrier_pred P \<longleftrightarrow> dq_waiting P = [] \<and> dq_running P = [] \<and> lost = 0"
  using par_reach_inv [OF assms] by (auto simp: par_inv_def barrier_pred_def total_results_def)

lemma full_queue_loses_job:
  assumes "par_reach rv lost P" "dq_cap P \<le> length (dq_waiting P) + length (dq_running P)"
  shows "par_reach rv (Suc lost) (par_add j P)" "dq_waiting (par_add j P) = dq_waiting P"
  using assms par_reach.add [OF assms(1), of j] by (simp_all add: par_add_def)

text \<open>
  \<open>stop\<close>, and the destructor that calls it, return only if no function waits: otherwise the first one, called by the rundown, waits for
  the lock that the caller of \<open>stop\<close> holds.
\<close>

lemma par_stop_deadlocks:
  assumes "par_reach rv lost P"
  shows "par_stop rv P = (if dq_waiting P = [] then Some (P\<lparr>dq_cap := 0, dq_waiting := [], has_block := False\<rparr>) else None)"
  using par_reach_inv [OF assms] by (cases "dq_waiting P") (auto simp: par_inv_def par_stop_def stop_unsafe_def job_body_def)

end
