(* ===== verification/Core_Thread.thy ===== *)
theory Core_Thread
  imports Dispatch_Queue "HOL-Library.Sublist"
begin

text \<open>
  Threads with a dispatch queue (\<open>CoreThread.{h,cpp}\<close> over \<open>BasicThread.{h,cpp}\<close> and \<open>CoreRunnable.{h,cpp}\<close>): starting, the run loop, stopping from other
  threads, and the clean-up at the end.  The dispatch queue is the sequence of ready functions that \<open>Dispatch_Queue_Clear\<close> shows it to
  represent, with its count, its cap and its abort flag; delayed functions and names of threads are left out.

  The thread is a program counter; a step is what it does between two places where other threads can come in.  \<open>Stop\<close> by another thread has
  three steps: it raises the flag, tells the queue, and lets the clean-up go on.
\<close>

section \<open>State\<close>

datatype 'f thread_fn = Call 'f | AbortSelf

datatype 'f thread_pc =
    NotStarted | AtCheck | AtWait | InCall "'f thread_fn" | AtCleanup | RunningDown "'f thread_fn list" | AtFinish | Finished

datatype stop_phase = NoStop | Begun bool | Told

record 'f CoreThread =
  thr_ready :: "'f thread_fn list"
  thr_count :: nat
  thr_cap :: nat
  thr_aborted :: bool
  run_wasStarted :: bool
  run_shouldStop :: bool
  run_outstanding :: bool
  bt_wasStarted :: bool
  bt_stop :: bool
  bt_running :: bool
  m_completed :: bool
  m_onStopCompleted :: bool
  thr_stop :: stop_phase
  thr_pc :: "'f thread_pc"
  thr_called :: "'f list"

definition thread_new :: "nat \<Rightarrow> 'f CoreThread" where
  "thread_new cap = \<lparr>thr_ready = [], thr_count = 0, thr_cap = cap, thr_aborted = False, run_wasStarted = False, run_shouldStop = False,
     run_outstanding = False, bt_wasStarted = False, bt_stop = False, bt_running = False, m_completed = False, m_onStopCompleted = False,
     thr_stop = NoStop, thr_pc = NotStarted, thr_called = []\<rparr>"

section \<open>Operations of other threads\<close>

definition thread_add :: "'f \<Rightarrow> 'f CoreThread \<Rightarrow> 'f CoreThread" where
  "thread_add f t =
     (if thr_cap t \<le> thr_count t then t else t\<lparr>thr_ready := thr_ready t @ [Call f], thr_count := Suc (thr_count t)\<rparr>)"

definition queue_Pend :: "'f thread_fn \<Rightarrow> 'f CoreThread \<Rightarrow> 'f CoreThread" where
  "queue_Pend g t = t\<lparr>thr_ready := thr_ready t @ [g], thr_count := Suc (thr_count t)\<rparr>"

definition queue_Abort :: "'f CoreThread \<Rightarrow> 'f CoreThread" where
  "queue_Abort t = t\<lparr>thr_aborted := True, thr_cap := 0, thr_ready := [], thr_count := thr_count t - length (thr_ready t)\<rparr>"

definition BasicThread_OnStart :: "bool \<Rightarrow> 'f CoreThread \<Rightarrow> bool \<times> 'f CoreThread" where
  "BasicThread_OnStart context_alive t =
     (if \<not> context_alive then (False, t)
      else (True, t\<lparr>bt_running := True, bt_wasStarted := True, thr_pc := AtCheck\<rparr>))"

definition BasicThread_OnStop :: "'f CoreThread \<Rightarrow> 'f CoreThread" where
  "BasicThread_OnStop t = (if \<not> bt_wasStarted t then t\<lparr>m_completed := True\<rparr> else t)"

text \<open>\<open>CoreThread::OnStop\<close> up to the last critical section, and that section.\<close>

definition OnStop_tell :: "bool \<Rightarrow> 'f CoreThread \<Rightarrow> 'f CoreThread" where
  "OnStop_tell graceful t =
     (let t1 = BasicThread_OnStop t in if graceful then queue_Pend AbortSelf t1 else queue_Abort t1)"

definition OnStop_complete :: "'f CoreThread \<Rightarrow> 'f CoreThread" where
  "OnStop_complete t = t\<lparr>m_onStopCompleted := True\<rparr>"

definition CoreThread_OnStop :: "bool \<Rightarrow> 'f CoreThread \<Rightarrow> 'f CoreThread" where
  "CoreThread_OnStop graceful t = OnStop_complete (OnStop_tell graceful t)"

text \<open>\<open>CoreRunnable::Start\<close>, which holds its lock throughout, and \<open>CoreRunnable::Stop\<close> as the thread itself calls it.\<close>

definition thread_Start :: "bool \<Rightarrow> 'f CoreThread \<Rightarrow> 'f CoreThread" where
  "thread_Start context_alive t =
     (if run_wasStarted t \<or> run_outstanding t \<or> run_shouldStop t then t
      else case BasicThread_OnStart context_alive (t\<lparr>run_wasStarted := True, run_outstanding := True\<rparr>) of
             (True, t1) \<Rightarrow> t1
           | (False, t1) \<Rightarrow> CoreThread_OnStop False (t1\<lparr>run_shouldStop := True, run_outstanding := False\<rparr>))"

definition thread_Stop :: "bool \<Rightarrow> 'f CoreThread \<Rightarrow> 'f CoreThread" where
  "thread_Stop graceful t =
     (if \<not> run_shouldStop t then CoreThread_OnStop graceful (t\<lparr>run_shouldStop := True\<rparr>) else t)\<lparr>run_outstanding := False\<rparr>"

text \<open>\<open>Stop\<close> by another thread; its last step needs the lock that the clean-up holds while it runs the queue down.\<close>

definition stop_begin :: "bool \<Rightarrow> 'f CoreThread \<Rightarrow> 'f CoreThread" where
  "stop_begin graceful t =
     (if \<not> run_shouldStop t then t\<lparr>run_shouldStop := True, thr_stop := Begun graceful\<rparr> else t\<lparr>run_outstanding := False\<rparr>)"

definition stop_tell :: "'f CoreThread \<Rightarrow> 'f CoreThread option" where
  "stop_tell t = (case thr_stop t of Begun graceful \<Rightarrow> Some ((OnStop_tell graceful t)\<lparr>thr_stop := Told\<rparr>) | _ \<Rightarrow> None)"

definition in_rundown :: "'f CoreThread \<Rightarrow> bool" where
  "in_rundown t \<longleftrightarrow> (case thr_pc t of RunningDown rd \<Rightarrow> True | _ \<Rightarrow> False)"

definition stop_complete :: "'f CoreThread \<Rightarrow> 'f CoreThread option" where
  "stop_complete t =
     (if thr_stop t = Told \<and> \<not> in_rundown t
      then Some ((OnStop_complete t)\<lparr>thr_stop := NoStop, run_outstanding := False\<rparr>) else None)"

text \<open>What \<open>Wait\<close> waits for, its additional wait included.\<close>

definition Wait_pred :: "'f CoreThread \<Rightarrow> bool" where
  "Wait_pred t \<longleftrightarrow> run_shouldStop t \<and> \<not> run_outstanding t \<and> m_completed t"

section \<open>The thread\<close>

text \<open>
  \<open>throws f\<close> is the exception that \<open>f\<close> ends with, if any; after an exception the context is shut down, which stops this thread gracefully
  unless the context was shut down already (\<open>down\<close>).
\<close>

definition call_return :: "('f \<Rightarrow> aw_error option) \<Rightarrow> bool \<Rightarrow> 'f thread_fn \<Rightarrow> 'f CoreThread \<Rightarrow> 'f CoreThread" where
  "call_return throws down g t =
     (case g of
        AbortSelf \<Rightarrow> (let t1 = queue_Abort t in t1\<lparr>thr_count := thr_count t1 - 1, thr_pc := AtCheck\<rparr>)
      | Call f \<Rightarrow>
          (let t1 = t\<lparr>thr_count := thr_count t - 1, thr_called := thr_called t @ [f]\<rparr> in
           case throws f of
             None \<Rightarrow> t1\<lparr>thr_pc := AtCheck\<rparr>
           | Some e \<Rightarrow>
               if is_dispatch_aborted e \<or> down then t1\<lparr>thr_pc := AtCleanup\<rparr> else (thread_Stop True t1)\<lparr>thr_pc := AtCleanup\<rparr>))"

text \<open>The loop of \<open>Rundown\<close>: a \<open>dispatch_aborted_exception\<close> calls the same function again, another exception deletes the rest.\<close>

definition rundown_call :: "('f \<Rightarrow> aw_error option) \<Rightarrow> 'f thread_fn \<Rightarrow> 'f thread_fn list \<Rightarrow> 'f CoreThread \<Rightarrow> 'f CoreThread" where
  "rundown_call throws g rd t =
     (case g of
        AbortSelf \<Rightarrow> (let t1 = queue_Abort t in t1\<lparr>thr_count := thr_count t1 - 1, thr_pc := RunningDown rd\<rparr>)
      | Call f \<Rightarrow>
          (let t1 = t\<lparr>thr_called := thr_called t @ [f]\<rparr> in
           case throws f of
             None \<Rightarrow> t1\<lparr>thr_count := thr_count t - 1, thr_pc := RunningDown rd\<rparr>
           | Some e \<Rightarrow> if is_dispatch_aborted e then t1 else t1\<lparr>thr_count := thr_count t - length (g # rd), thr_pc := AtFinish\<rparr>))"

definition thread_step :: "('f \<Rightarrow> aw_error option) \<Rightarrow> bool \<Rightarrow> 'f CoreThread \<Rightarrow> 'f CoreThread option" where
  "thread_step throws down t =
     (case thr_pc t of
        NotStarted \<Rightarrow> None
      | AtCheck \<Rightarrow> Some (t\<lparr>thr_pc := (if run_shouldStop t then AtCleanup else AtWait)\<rparr>)
      | AtWait \<Rightarrow>
          if thr_aborted t then Some (t\<lparr>thr_pc := AtCleanup\<rparr>)
          else (case thr_ready t of [] \<Rightarrow> None | g # R \<Rightarrow> Some (t\<lparr>thr_ready := R, thr_pc := InCall g\<rparr>))
      | InCall g \<Rightarrow> Some (call_return throws down g t)
      | AtCleanup \<Rightarrow>
          if run_shouldStop t \<and> \<not> m_onStopCompleted t then None
          else Some (t\<lparr>thr_aborted := True, thr_cap := 0, thr_ready := [], thr_pc := RunningDown (thr_ready t)\<rparr>)
      | RunningDown [] \<Rightarrow> Some (t\<lparr>thr_pc := AtFinish\<rparr>)
      | RunningDown (g # rd) \<Rightarrow> Some (rundown_call throws g rd t)
      | AtFinish \<Rightarrow>
          Some ((thread_Stop False (t\<lparr>bt_stop := True, bt_running := False\<rparr>))\<lparr>m_completed := True, thr_pc := Finished\<rparr>)
      | Finished \<Rightarrow> None)"

section \<open>Priorities\<close>

text \<open>
  The order of the source; \<open>os_calls\<close> are the priorities that were handed to the operating system, which happens while there is a
  thread (\<open>has_thread\<close>).
\<close>

datatype ThreadPriority = Default | Idle | Lowest | BelowNormal | Normal | AboveNormal | Highest | TimeCritical | Multimedia

datatype SchedulingPolicy = StandardRoundRobin | RealtimeFIFO | RealtimeRoundRobin

fun priority_rank :: "ThreadPriority \<Rightarrow> nat" where
  "priority_rank Default = 0"
| "priority_rank Idle = 1"
| "priority_rank Lowest = 2"
| "priority_rank BelowNormal = 3"
| "priority_rank Normal = 4"
| "priority_rank AboveNormal = 5"
| "priority_rank Highest = 6"
| "priority_rank TimeCritical = 7"
| "priority_rank Multimedia = 8"

instantiation ThreadPriority :: linorder
begin

definition less_eq_ThreadPriority :: "ThreadPriority \<Rightarrow> ThreadPriority \<Rightarrow> bool" where
  "less_eq_ThreadPriority p q \<longleftrightarrow> priority_rank p \<le> priority_rank q"

definition less_ThreadPriority :: "ThreadPriority \<Rightarrow> ThreadPriority \<Rightarrow> bool" where
  "less_ThreadPriority p q \<longleftrightarrow> priority_rank p < priority_rank q"

instance
proof
  have inj: "priority_rank p = priority_rank q \<Longrightarrow> p = q" for p q by (cases p; cases q) simp_all
  show "p \<le> q \<Longrightarrow> q \<le> p \<Longrightarrow> p = q" for p q :: ThreadPriority by (rule inj) (simp add: less_eq_ThreadPriority_def)
qed (auto simp: less_eq_ThreadPriority_def less_ThreadPriority_def)

end

record BasicThreadStateBlock =
  m_threadPriority :: ThreadPriority
  m_schedPolicy :: SchedulingPolicy
  has_thread :: bool
  os_calls :: "(ThreadPriority \<times> SchedulingPolicy) list"

definition UpdateThreadPriority :: "BasicThreadStateBlock \<Rightarrow> BasicThreadStateBlock" where
  "UpdateThreadPriority b = (if \<not> has_thread b then b else b\<lparr>os_calls := os_calls b @ [(m_threadPriority b, m_schedPolicy b)]\<rparr>)"

definition SetThreadPriority :: "ThreadPriority \<Rightarrow> BasicThreadStateBlock \<Rightarrow> ThreadPriority \<times> BasicThreadStateBlock" where
  "SetThreadPriority p b = (m_threadPriority b, UpdateThreadPriority (b\<lparr>m_threadPriority := p\<rparr>))"

definition SetThreadPriority_policy ::
  "ThreadPriority \<Rightarrow> SchedulingPolicy \<Rightarrow> BasicThreadStateBlock \<Rightarrow> ThreadPriority \<times> BasicThreadStateBlock" where
  "SetThreadPriority_policy p s b = (m_threadPriority b, UpdateThreadPriority (b\<lparr>m_threadPriority := p, m_schedPolicy := s\<rparr>))"

definition ElevateThreadPriority :: "ThreadPriority \<Rightarrow> BasicThreadStateBlock \<Rightarrow> ThreadPriority \<times> BasicThreadStateBlock" where
  "ElevateThreadPriority p b =
     (let prev = m_threadPriority b in
      if p < prev then (prev, b) else (prev, UpdateThreadPriority (b\<lparr>m_threadPriority := p\<rparr>)))"

definition DeelevateThreadPriority :: "ThreadPriority \<Rightarrow> BasicThreadStateBlock \<Rightarrow> ThreadPriority \<times> BasicThreadStateBlock" where
  "DeelevateThreadPriority p b =
     (let prev = m_threadPriority b in
      if p \<ge> prev then (prev, b) else (prev, UpdateThreadPriority (b\<lparr>m_threadPriority := p\<rparr>)))"

text \<open>An \<open>ElevatePriority\<close> object around a piece of code.\<close>

definition ElevatePriority ::
  "ThreadPriority \<Rightarrow> (BasicThreadStateBlock \<Rightarrow> BasicThreadStateBlock) \<Rightarrow> BasicThreadStateBlock \<Rightarrow> BasicThreadStateBlock" where
  "ElevatePriority p body b = (case ElevateThreadPriority p b of (old, b1) \<Rightarrow> snd (DeelevateThreadPriority old (body b1)))"

section \<open>Runs\<close>

text \<open>
  Reachable threads, with the functions that were accepted before a stop began; \<open>ok\<close> tells which stops other threads ask for.
\<close>

inductive thread_reach :: "('f \<Rightarrow> aw_error option) \<Rightarrow> (bool \<Rightarrow> bool) \<Rightarrow> 'f CoreThread \<Rightarrow> 'f list \<Rightarrow> bool" for throws ok where
  thread_init: "thread_reach throws ok (thread_new cap) []"
| thread_adds: "thread_reach throws ok t acc \<Longrightarrow>
    thread_reach throws ok (thread_add f t) (if run_shouldStop t \<or> thr_cap t \<le> thr_count t then acc else acc @ [f])"
| thread_starts: "thread_reach throws ok t acc \<Longrightarrow> thread_reach throws ok (thread_Start alive t) acc"
| thread_stops: "thread_reach throws ok t acc \<Longrightarrow> ok graceful \<Longrightarrow> thread_reach throws ok (stop_begin graceful t) acc"
| thread_tells: "thread_reach throws ok t acc \<Longrightarrow> stop_tell t = Some t' \<Longrightarrow> thread_reach throws ok t' acc"
| thread_completes: "thread_reach throws ok t acc \<Longrightarrow> stop_complete t = Some t' \<Longrightarrow> thread_reach throws ok t' acc"
| thread_steps: "thread_reach throws ok t acc \<Longrightarrow> thread_step throws down t = Some t' \<Longrightarrow> thread_reach throws ok t' acc"

text \<open>What goes on in a thread that nobody else touches any more: its own steps, and the stop that is under way.\<close>

inductive inner_step :: "('f \<Rightarrow> aw_error option) \<Rightarrow> 'f CoreThread \<Rightarrow> 'f CoreThread \<Rightarrow> bool" for throws where
  inner_thread: "thread_step throws down t = Some t' \<Longrightarrow> inner_step throws t t'"
| inner_tell: "stop_tell t = Some t' \<Longrightarrow> inner_step throws t t'"
| inner_complete: "stop_complete t = Some t' \<Longrightarrow> inner_step throws t t'"

end
