(* ===== verification/Core_Thread_Props.thy ===== *)
theory Core_Thread_Props
  imports Core_Thread
begin

text \<open>
  Properties of threads: the invariant of the flags in every interleaving, that a stopped thread ends and \<open>Wait\<close> returns, and that a
  graceful stop calls everything that was accepted before it.
\<close>

section \<open>The flags\<close>

definition past_abort :: "'f CoreThread \<Rightarrow> bool" where
  "past_abort t \<longleftrightarrow> thr_aborted t \<or> AbortSelf \<in> set (thr_ready t) \<or> thr_pc t = InCall AbortSelf"

definition thr_inv :: "'f CoreThread \<Rightarrow> bool" where
  "thr_inv t \<longleftrightarrow>
     (thr_pc t = NotStarted \<longleftrightarrow> \<not> bt_wasStarted t) \<and> (bt_wasStarted t \<longrightarrow> run_wasStarted t) \<and>
     (thr_stop t \<noteq> NoStop \<longrightarrow> run_shouldStop t \<and> \<not> m_onStopCompleted t) \<and>
     (m_onStopCompleted t \<longrightarrow> run_shouldStop t) \<and>
     (run_shouldStop t \<and> thr_stop t = NoStop \<longrightarrow> m_onStopCompleted t \<and> \<not> run_outstanding t) \<and>
     (run_shouldStop t \<and> \<not> bt_wasStarted t \<and> (\<forall>g. thr_stop t \<noteq> Begun g) \<longrightarrow> m_completed t) \<and>
     (thr_pc t = Finished \<longrightarrow> m_completed t \<and> run_shouldStop t) \<and>
     (thr_stop t = Told \<or> m_onStopCompleted t \<longrightarrow> past_abort t) \<and>
     (in_rundown t \<or> thr_pc t = AtFinish \<or> thr_pc t = Finished \<longrightarrow> thr_aborted t)"

lemmas thr_op_defs =
  thread_add_def thread_Start_def BasicThread_OnStart_def CoreThread_OnStop_def OnStop_tell_def OnStop_complete_def BasicThread_OnStop_def
  queue_Pend_def queue_Abort_def stop_begin_def stop_tell_def stop_complete_def thread_Stop_def

lemma thr_inv_new: "thr_inv (thread_new cap)"
  by (simp add: thr_inv_def thread_new_def past_abort_def in_rundown_def)

lemma thr_inv_add: "thr_inv t \<Longrightarrow> thr_inv (thread_add f t)"
  by (auto simp: thr_inv_def thread_add_def past_abort_def in_rundown_def)

lemma thr_inv_start:
  assumes "thr_inv t"
  shows "thr_inv (thread_Start alive t)"
  using assms
  by (cases "run_wasStarted t \<or> run_outstanding t \<or> run_shouldStop t"; cases alive)
    (simp_all add: thr_inv_def thr_op_defs past_abort_def in_rundown_def Let_def)

lemma thr_inv_stop: "thr_inv t \<Longrightarrow> thr_inv (stop_begin graceful t)"
  by (auto simp: thr_inv_def stop_begin_def past_abort_def in_rundown_def)

lemma thr_inv_tell:
  assumes "thr_inv t" "stop_tell t = Some t'"
  shows "thr_inv t'"
proof -
  obtain g where g: "thr_stop t = Begun g" "t' = (OnStop_tell g t)\<lparr>thr_stop := Told\<rparr>"
    using assms(2) by (auto simp: stop_tell_def split: stop_phase.splits)
  then show ?thesis
    using assms(1) by (cases g; cases "bt_wasStarted t"; simp add: thr_inv_def OnStop_tell_def BasicThread_OnStop_def queue_Pend_def queue_Abort_def past_abort_def in_rundown_def)
qed

lemma thr_inv_complete:
  assumes "thr_inv t" "stop_complete t = Some t'"
  shows "thr_inv t'"
proof -
  have "thr_stop t = Told" "t' = t\<lparr>m_onStopCompleted := True, thr_stop := NoStop, run_outstanding := False\<rparr>"
    using assms(2) by (auto simp: stop_complete_def OnStop_complete_def split: if_splits)
  then show ?thesis using assms(1) by (simp add: thr_inv_def past_abort_def in_rundown_def)
qed

lemma thr_inv_call_return:
  "thr_inv t \<Longrightarrow> thr_pc t = InCall g \<Longrightarrow> thr_inv (call_return throws down g t)"
  by (cases g) (auto simp: thr_inv_def call_return_def thr_op_defs past_abort_def in_rundown_def Let_def split: option.splits)

lemma thr_inv_rundown_call:
  "thr_inv t \<Longrightarrow> thr_pc t = RunningDown (g # rd) \<Longrightarrow> thr_inv (rundown_call throws g rd t)"
  by (cases g) (auto simp: thr_inv_def rundown_call_def thr_op_defs past_abort_def in_rundown_def Let_def split: option.splits)

lemma thr_inv_step: "thr_inv t \<Longrightarrow> thread_step throws down t = Some t' \<Longrightarrow> thr_inv t'"
  by (cases "thr_pc t")
    (auto simp: thread_step_def thr_inv_call_return thr_inv_rundown_call split: if_splits list.splits;
     auto simp: thr_inv_def thr_op_defs past_abort_def in_rundown_def Let_def)+

lemma thread_reach_inv: "thread_reach throws ok t acc \<Longrightarrow> thr_inv t"
  by (induction rule: thread_reach.induct)
    (auto intro: thr_inv_new thr_inv_add thr_inv_start thr_inv_stop thr_inv_tell thr_inv_complete thr_inv_step)

section \<open>A stopped thread ends\<close>

fun pc_weight :: "'f thread_pc \<Rightarrow> nat" where
  "pc_weight NotStarted = 0"
| "pc_weight AtCheck = 5"
| "pc_weight AtWait = 4"
| "pc_weight (InCall g) = 6"
| "pc_weight AtCleanup = 3"
| "pc_weight (RunningDown rd) = 2 + length rd"
| "pc_weight AtFinish = 1"
| "pc_weight Finished = 0"

fun phase_weight :: "stop_phase \<Rightarrow> nat" where
  "phase_weight NoStop = 0"
| "phase_weight (Begun g) = 6"
| "phase_weight Told = 1"

definition work_left :: "'f CoreThread \<Rightarrow> nat" where
  "work_left t = 4 * length (thr_ready t) + pc_weight (thr_pc t) + phase_weight (thr_stop t)"

definition no_abort_exceptions :: "('f \<Rightarrow> aw_error option) \<Rightarrow> bool" where
  "no_abort_exceptions throws \<longleftrightarrow> (\<forall>f e. throws f = Some e \<longrightarrow> \<not> is_dispatch_aborted e)"

lemma call_return_progress:
  assumes "run_shouldStop t" "thr_pc t = InCall g"
  shows "run_shouldStop (call_return throws down g t)" "work_left (call_return throws down g t) < work_left t"
  using assms by (cases g; auto simp: call_return_def queue_Abort_def thread_Stop_def work_left_def Let_def split: option.splits)+

lemma rundown_call_progress:
  assumes "run_shouldStop t" "thr_pc t = RunningDown (g # rd)" "no_abort_exceptions throws"
  shows "run_shouldStop (rundown_call throws g rd t)" "work_left (rundown_call throws g rd t) < work_left t"
  using assms by (cases g; auto simp: rundown_call_def queue_Abort_def work_left_def no_abort_exceptions_def Let_def split: option.splits)+

lemma thread_step_progress:
  assumes "run_shouldStop t" "no_abort_exceptions throws" "thread_step throws down t = Some t'"
  shows "run_shouldStop t' \<and> work_left t' < work_left t"
proof (cases "thr_pc t")
  case (InCall g)
  then show ?thesis using call_return_progress [OF assms(1)] assms(3) by (auto simp: thread_step_def)
next
  case (RunningDown rd)
  then show ?thesis
    using rundown_call_progress [OF assms(1) _ assms(2)] assms(1,3)
    by (cases rd) (auto simp: thread_step_def work_left_def)
qed (use assms(1,3) in \<open>auto simp: thread_step_def work_left_def thread_Stop_def split: if_splits list.splits\<close>)

lemma inner_step_progress:
  assumes "inner_step throws t t'" "run_shouldStop t" "no_abort_exceptions throws"
  shows "run_shouldStop t' \<and> work_left t' < work_left t"
  using assms(1)
proof cases
  case (inner_thread down)
  then show ?thesis using thread_step_progress assms(2,3) by blast
next
  case inner_tell
  then obtain g where "thr_stop t = Begun g" "t' = (OnStop_tell g t)\<lparr>thr_stop := Told\<rparr>"
    by (auto simp: stop_tell_def split: stop_phase.splits)
  then show ?thesis using assms(2)
    by (cases g) (simp_all add: work_left_def OnStop_tell_def BasicThread_OnStop_def queue_Pend_def queue_Abort_def Let_def)
next
  case inner_complete
  then show ?thesis using assms(2) by (auto simp: stop_complete_def OnStop_complete_def work_left_def split: if_splits)
qed

lemma inner_step_inv: "inner_step throws t t' \<Longrightarrow> thr_inv t \<Longrightarrow> thr_inv t'"
  by (auto elim!: inner_step.cases intro: thr_inv_step thr_inv_tell thr_inv_complete)

interpretation stopping: measured_system "inner_step throws" "\<lambda>t. thr_inv t \<and> run_shouldStop t \<and> no_abort_exceptions throws" work_left for throws
  by unfold_locales (use inner_step_inv inner_step_progress in blast)

lemma not_in_step:
  assumes "\<nexists>u. inner_step throws t u"
  shows "thread_step throws down t = None" "stop_tell t = None" "stop_complete t = None"
  using assms by (metis inner_thread inner_tell inner_complete not_Some_eq)+

lemma stopped_stuck:
  assumes "\<nexists>u. inner_step throws t u" "thr_inv t" "run_shouldStop t"
  shows "Wait_pred t" "thr_pc t = Finished \<or> \<not> bt_wasStarted t"
proof -
  note no = not_in_step [OF assms(1)]
  have nb: "thr_stop t \<noteq> Begun g" for g using no(2) by (auto simp: stop_tell_def split: stop_phase.splits)
  have nr: "\<not> in_rundown t"
    using no(1) by (auto simp: in_rundown_def thread_step_def split: thread_pc.splits list.splits)
  have "thr_stop t \<noteq> Told" using no(3) nr by (simp add: stop_complete_def split: if_splits)
  then have ns: "thr_stop t = NoStop" using nb by (cases "thr_stop t") auto
  then have c: "m_onStopCompleted t" "\<not> run_outstanding t" "past_abort t" using assms(2,3) by (auto simp: thr_inv_def)
  have fin: "thr_pc t = Finished \<or> thr_pc t = NotStarted"
    using no(1) [of False] c(1,3) nr by (auto simp: thread_step_def past_abort_def in_rundown_def split: thread_pc.splits list.splits if_splits)
  then show "thr_pc t = Finished \<or> \<not> bt_wasStarted t" using assms(2) by (auto simp: thr_inv_def)
  then show "Wait_pred t" using assms(2,3) c(2) ns by (auto simp: Wait_pred_def thr_inv_def)
qed

section \<open>Graceful stops\<close>

text \<open>The functions that wait, the one being called first, and those of them that are called before the pended abort.\<close>

definition pending :: "'f CoreThread \<Rightarrow> 'f thread_fn list" where
  "pending t = (case thr_pc t of InCall g \<Rightarrow> [g] | RunningDown rd \<Rightarrow> rd | _ \<Rightarrow> []) @ thr_ready t"

fun before_abort :: "'f thread_fn list \<Rightarrow> 'f list" where
  "before_abort [] = []"
| "before_abort (Call f # gs) = f # before_abort gs"
| "before_abort (AbortSelf # gs) = []"

lemma before_abort_append: "before_abort (gs @ hs) = before_abort gs @ (if AbortSelf \<in> set gs then [] else before_abort hs)"
  by (induction gs rule: before_abort.induct) auto

lemma prefix_before_abort:
  assumes "prefix acc (xs @ before_abort gs)"
  shows "prefix acc (xs @ before_abort (gs @ hs))"
  using prefix_prefix [OF assms] unfolding before_abort_append append_assoc .

definition grace_inv :: "'f CoreThread \<Rightarrow> 'f list \<Rightarrow> bool" where
  "grace_inv t acc \<longleftrightarrow>
     prefix acc (thr_called t @ before_abort (pending t)) \<and>
     (\<not> run_shouldStop t \<longrightarrow> acc = thr_called t @ before_abort (pending t) \<and> AbortSelf \<notin> set (pending t)) \<and>
     (thr_aborted t \<or> AbortSelf \<in> set (pending t) \<longrightarrow> thr_stop t = Told \<or> m_onStopCompleted t) \<and>
     (thr_pc t = AtCleanup \<longrightarrow> run_shouldStop t) \<and>
     (in_rundown t \<or> thr_pc t = AtFinish \<or> thr_pc t = Finished \<longrightarrow> thr_ready t = [] \<and> thr_cap t = 0 \<and> m_onStopCompleted t)"

text \<open>A thread that is stopped without having been started is left out.\<close>

definition stopped_early :: "'f CoreThread \<Rightarrow> bool" where
  "stopped_early t \<longleftrightarrow> \<not> bt_wasStarted t \<and> run_shouldStop t"

lemma grace_add:
  assumes "grace_inv t acc"
  shows "grace_inv (thread_add f t) (if run_shouldStop t \<or> thr_cap t \<le> thr_count t then acc else acc @ [f])"
proof (cases "thr_cap t \<le> thr_count t")
  case False
  have "pending (thread_add f t) = pending t @ [Call f]" using False by (simp add: pending_def thread_add_def)
  moreover have "prefix acc (thr_called t @ before_abort (pending t @ [Call f]))"
    using assms by (intro prefix_before_abort) (simp add: grace_inv_def)
  ultimately show ?thesis
    using assms False by (simp add: grace_inv_def thread_add_def before_abort_append in_rundown_def)
qed (use assms in \<open>simp add: thread_add_def\<close>)

lemma grace_start:
  assumes "thr_inv t" "grace_inv t acc" "\<not> stopped_early (thread_Start alive t)"
  shows "grace_inv (thread_Start alive t) acc"
  using assms
  by (cases "run_wasStarted t \<or> run_outstanding t \<or> run_shouldStop t"; cases alive)
    (auto simp: thr_inv_def grace_inv_def stopped_early_def pending_def in_rundown_def thr_op_defs Let_def)

lemma grace_stop:
  assumes "thr_inv t" "grace_inv t acc"
  shows "grace_inv (stop_begin graceful t) acc"
  using assms by (cases "run_shouldStop t") (auto simp: thr_inv_def grace_inv_def stop_begin_def pending_def in_rundown_def)

lemma grace_tell:
  assumes "thr_inv t" "grace_inv t acc" "thr_stop t = Begun True" "stop_tell t = Some t'"
  shows "grace_inv t' acc"
proof -
  let ?u = "(BasicThread_OnStop t)\<lparr>thr_ready := thr_ready t @ [AbortSelf], thr_count := Suc (thr_count t), thr_stop := Told\<rparr>"
  have t': "t' = ?u" using assms(3,4) by (auto simp: stop_tell_def OnStop_tell_def queue_Pend_def BasicThread_OnStop_def)
  have "pending t' = pending t @ [AbortSelf]" unfolding t' by (simp add: pending_def BasicThread_OnStop_def)
  then show ?thesis
    using assms(1,2,3) by (auto simp: t' grace_inv_def thr_inv_def BasicThread_OnStop_def before_abort_append in_rundown_def)
qed

lemma grace_complete:
  assumes "grace_inv t acc" "stop_complete t = Some t'"
  shows "grace_inv t' acc"
proof -
  have "t' = t\<lparr>m_onStopCompleted := True, thr_stop := NoStop, run_outstanding := False\<rparr>"
    using assms(2) by (auto simp: stop_complete_def OnStop_complete_def split: if_splits)
  then show ?thesis using assms(1) by (simp add: grace_inv_def pending_def in_rundown_def)
qed

lemma grace_call_return:
  assumes "thr_inv t" "grace_inv t acc" "thr_pc t = InCall g"
  shows "grace_inv (call_return (\<lambda>f. None) down g t) acc"
proof -
  have p: "pending t = g # thr_ready t" using assms(3) by (simp add: pending_def)
  show ?thesis
  proof (cases g)
    case (Call f)
    then have "pending (call_return (\<lambda>f. None) down g t) = thr_ready t" by (simp add: call_return_def pending_def Let_def)
    then show ?thesis using assms p Call by (simp add: call_return_def grace_inv_def in_rundown_def Let_def)
  next
    case AbortSelf
    then have "run_shouldStop t" "prefix acc (thr_called t)" using assms(2) p by (auto simp: grace_inv_def)
    moreover from this have "thr_stop t = Told \<or> m_onStopCompleted t" using assms AbortSelf p by (auto simp: grace_inv_def)
    ultimately show ?thesis
      using AbortSelf by (simp add: call_return_def queue_Abort_def grace_inv_def pending_def in_rundown_def Let_def)
  qed
qed

lemma grace_rundown_call:
  assumes "grace_inv t acc" "thr_inv t" "thr_pc t = RunningDown (g # rd)"
  shows "grace_inv (rundown_call (\<lambda>f. None) g rd t) acc"
proof -
  have i: "thr_ready t = []" "thr_cap t = 0" "m_onStopCompleted t" "run_shouldStop t"
    using assms by (auto simp: grace_inv_def thr_inv_def in_rundown_def)
  have "prefix acc (thr_called t @ before_abort (g # rd))" using assms(1,3) i(1) by (simp add: grace_inv_def pending_def)
  then show ?thesis
    using i by (cases g) (auto simp: rundown_call_def queue_Abort_def grace_inv_def pending_def in_rundown_def Let_def prefix_def)
qed

lemma grace_step:
  assumes "thr_inv t" "grace_inv t acc" "thread_step (\<lambda>f. None) down t = Some t'"
  shows "grace_inv t' acc"
proof (cases "thr_pc t")
  case (InCall g)
  then show ?thesis using grace_call_return [OF assms(1,2)] assms(3) by (auto simp: thread_step_def)
next
  case (RunningDown rd)
  then show ?thesis
    using grace_rundown_call [OF assms(2,1)] assms(2,3)
    by (cases rd) (auto simp: thread_step_def grace_inv_def pending_def in_rundown_def)
next
  case AtFinish
  then have "t' = t\<lparr>bt_stop := True, bt_running := False, run_outstanding := False, m_completed := True, thr_pc := Finished\<rparr>"
    using assms by (auto simp: thread_step_def thread_Stop_def grace_inv_def thr_inv_def)
  then show ?thesis using AtFinish assms(2) by (auto simp: grace_inv_def pending_def in_rundown_def)
next
  case AtWait
  show ?thesis
  proof (cases "thr_aborted t")
    case True
    then have "run_shouldStop t" "t' = t\<lparr>thr_pc := AtCleanup\<rparr>"
      using assms AtWait by (auto simp: thread_step_def grace_inv_def thr_inv_def)
    then show ?thesis using AtWait assms(2) by (simp add: grace_inv_def pending_def in_rundown_def)
  next
    case False
    then obtain g R where "thr_ready t = g # R" "t' = t\<lparr>thr_ready := R, thr_pc := InCall g\<rparr>"
      using assms(3) AtWait by (auto simp: thread_step_def split: list.splits)
    then show ?thesis using AtWait False assms(2) by (simp add: grace_inv_def pending_def in_rundown_def)
  qed
next
  case AtCleanup
  then have "m_onStopCompleted t" "t' = t\<lparr>thr_aborted := True, thr_cap := 0, thr_ready := [], thr_pc := RunningDown (thr_ready t)\<rparr>"
    using assms by (auto simp: thread_step_def grace_inv_def split: if_splits)
  then show ?thesis using AtCleanup assms(2) by (simp add: grace_inv_def pending_def in_rundown_def)
next
  case AtCheck
  then have "t' = t\<lparr>thr_pc := (if run_shouldStop t then AtCleanup else AtWait)\<rparr>" using assms(3) by (simp add: thread_step_def)
  then show ?thesis using AtCheck assms(2) by (cases "run_shouldStop t") (simp_all add: grace_inv_def pending_def in_rundown_def)
qed (use assms(3) in \<open>simp_all add: thread_step_def\<close>)

lemma stopped_early_stays:
  "stopped_early t \<Longrightarrow> stopped_early (thread_Start alive t)" "stopped_early t \<Longrightarrow> stopped_early (thread_add f t)"
  "stopped_early t \<Longrightarrow> stopped_early (stop_begin g t)"
  by (simp_all add: stopped_early_def thread_Start_def thread_add_def stop_begin_def)

lemma graceful_phase:
  assumes "thread_reach throws (\<lambda>g. g) t acc"
  shows "thr_stop t \<noteq> Begun False"
  using assms
proof (induction rule: thread_reach.induct)
  case (thread_tells t acc t')
  then show ?case by (auto simp: stop_tell_def split: stop_phase.splits)
next
  case (thread_completes t acc t')
  then show ?case by (auto simp: stop_complete_def split: if_splits)
next
  case (thread_steps t acc down t')
  have "thr_stop t' = thr_stop t"
    using thread_steps(2)
    by (auto simp: thread_step_def call_return_def rundown_call_def thr_op_defs Let_def split: thread_pc.splits thread_fn.splits option.splits list.splits if_splits)
  then show ?case using thread_steps by simp
qed (auto simp: thread_new_def thread_add_def stop_begin_def thread_Start_def BasicThread_OnStart_def CoreThread_OnStop_def OnStop_complete_def
  OnStop_tell_def BasicThread_OnStop_def queue_Abort_def)

lemma thread_reach_grace:
  assumes "thread_reach (\<lambda>f. None) (\<lambda>g. g) t acc" "\<not> stopped_early t"
  shows "grace_inv t acc"
  using assms
proof (induction rule: thread_reach.induct)
  case (thread_init cap)
  show ?case by (simp add: grace_inv_def thread_new_def pending_def in_rundown_def)
next
  case (thread_adds t acc f)
  then show ?case using stopped_early_stays(2) [of t f] by (intro grace_add) blast
next
  case (thread_starts t acc alive)
  then show ?case using stopped_early_stays(1) [of t alive] by (intro grace_start thread_reach_inv [OF thread_starts(1)]) blast+
next
  case (thread_stops t acc g)
  then show ?case using stopped_early_stays(3) [of t g] by (intro grace_stop thread_reach_inv [OF thread_stops(1)]) blast
next
  case (thread_tells t acc t')
  obtain g where g: "thr_stop t = Begun g" "t' = (OnStop_tell g t)\<lparr>thr_stop := Told\<rparr>"
    using thread_tells(2) by (auto simp: stop_tell_def split: stop_phase.splits)
  then have "thr_stop t = Begun True" using graceful_phase [OF thread_tells(1)] by (cases g) auto
  moreover have "\<not> stopped_early t"
    using thread_tells(4) g(2)
    by (simp add: stopped_early_def OnStop_tell_def BasicThread_OnStop_def queue_Pend_def queue_Abort_def Let_def split: if_splits)
  ultimately show ?case using grace_tell [OF thread_reach_inv [OF thread_tells(1)] _ _ thread_tells(2)] thread_tells(3) by blast
next
  case (thread_completes t acc t')
  have "\<not> stopped_early t"
    using thread_completes(2,4) by (auto simp: stopped_early_def stop_complete_def OnStop_complete_def split: if_splits)
  then show ?case using grace_complete [OF _ thread_completes(2)] thread_completes(3) by blast
next
  case (thread_steps t acc down t')
  have "thr_pc t \<noteq> NotStarted" using thread_steps(2) by (rule contrapos_pn) (simp add: thread_step_def)
  then have "bt_wasStarted t" using thread_reach_inv [OF thread_steps(1)] by (simp add: thr_inv_def)
  then have "grace_inv t acc" using thread_steps(3) by (simp add: stopped_early_def)
  then show ?case using grace_step [OF thread_reach_inv [OF thread_steps(1)] _ thread_steps(2)] by blast
qed

lemma inner_step_reach: "inner_step throws t t' \<Longrightarrow> thread_reach throws ok t acc \<Longrightarrow> thread_reach throws ok t' acc"
  by (auto elim!: inner_step.cases intro: thread_tells thread_completes thread_steps)

lemma inner_steps_reach: "(inner_step throws ^^ n) t t' \<Longrightarrow> thread_reach throws ok t acc \<Longrightarrow> thread_reach throws ok t' acc"
proof (induction n arbitrary: t')
  case (Suc n)
  then obtain u where "(inner_step throws ^^ n) t u" "inner_step throws u t'" by auto
  then show ?case using Suc inner_step_reach by blast
qed simp

lemma inner_step_started: "inner_step throws t t' \<Longrightarrow> bt_wasStarted t \<Longrightarrow> bt_wasStarted t'"
  by (auto elim!: inner_step.cases simp: thread_step_def call_return_def rundown_call_def thr_op_defs Let_def
      split: thread_pc.splits thread_fn.splits option.splits list.splits if_splits stop_phase.splits)

lemma inner_steps_started: "(inner_step throws ^^ n) t t' \<Longrightarrow> bt_wasStarted t \<Longrightarrow> bt_wasStarted t'"
proof (induction n arbitrary: t')
  case (Suc n)
  then obtain u where "(inner_step throws ^^ n) t u" "inner_step throws u t'" by auto
  then show ?case using Suc inner_step_started by blast
qed simp

text \<open>
  A thread that is stopped, gracefully or not, by whomever and at whatever moment, ends, and \<open>Wait\<close> returns, if its functions end and
  none throws \<open>dispatch_aborted_exception\<close>.
\<close>

lemma stopped_thread_ends:
  assumes "thread_reach throws ok t acc" "run_shouldStop t" "no_abort_exceptions throws" "(inner_step throws ^^ n) t t'"
  shows "n \<le> work_left t" "\<nexists>u. inner_step throws t' u \<Longrightarrow> Wait_pred t'"
    "\<nexists>u. inner_step throws t' u \<Longrightarrow> thr_pc t' = Finished \<or> \<not> bt_wasStarted t'"
  using stopping.steps_bounded [OF assms(4)] thread_reach_inv [OF assms(1)] assms(2,3) stopped_stuck [of throws t'] by fastforce+

text \<open>
  C32.  A started thread that is stopped gracefully, whatever other threads do meanwhile: left alone, the thread and the stop that is under way make a
  bounded number of steps, and when none is left the thread has finished, \<open>Wait\<close> returns, and the functions that were accepted before
  the stop have been called first, each once and in the order in which they were added.  The functions return without an exception.
\<close>

theorem core_thread_graceful_stop:
  assumes "thread_reach (\<lambda>f. None) (\<lambda>g. g) t acc" "run_shouldStop t" "bt_wasStarted t"
    and "(inner_step (\<lambda>f. None) ^^ n) t t'"
  shows "n \<le> work_left t \<and>
    ((\<nexists>u. inner_step (\<lambda>f. None) t' u) \<longrightarrow> thr_pc t' = Finished \<and> Wait_pred t' \<and> prefix acc (thr_called t'))"
proof -
  have na: "no_abort_exceptions (\<lambda>f. None)" by (simp add: no_abort_exceptions_def)
  note ends = stopped_thread_ends [OF assms(1,2) na assms(4)]
  have r: "thread_reach (\<lambda>f. None) (\<lambda>g. g) t' acc" by (rule inner_steps_reach [OF assms(4,1)])
  have "thr_pc t' = Finished \<and> Wait_pred t' \<and> prefix acc (thr_called t')" if st: "\<nexists>u. inner_step (\<lambda>f. None) t' u"
  proof -
    have b: "bt_wasStarted t'" using inner_steps_started [OF assms(4,3)] .
    then have fin: "thr_pc t' = Finished" using ends(3) [OF st] by blast
    have "grace_inv t' acc" using thread_reach_grace [OF r] b by (simp add: stopped_early_def)
    then have "prefix acc (thr_called t')" using fin by (auto simp: grace_inv_def pending_def)
    then show ?thesis using fin ends(2) [OF st] by blast
  qed
  then show ?thesis using ends(1) by blast
qed

theorem core_thread_graceful_stop_witness:
  "let t = stop_begin True (thread_Start True (thread_add (7::nat) (thread_new 5))) in
     work_left t = 15 \<and> (\<exists>n t'. n \<le> 15 \<and> (inner_step (\<lambda>f. None) ^^ n) t t' \<and> Wait_pred t' \<and> prefix [7] (thr_called t'))"
proof -
  define t where "t = stop_begin True (thread_Start True (thread_add (7::nat) (thread_new 5)))"
  have "thread_reach (\<lambda>f. None) (\<lambda>g. g) (thread_add (7::nat) (thread_new 5)) [7]"
    using thread_adds [OF thread_init [of "\<lambda>f. None" "\<lambda>g. g" 5], of 7] by (simp add: thread_new_def)
  then have r: "thread_reach (\<lambda>f. None) (\<lambda>g. g) t [7]" unfolding t_def by (intro thread_stops thread_starts) simp_all
  have f: "run_shouldStop t" "bt_wasStarted t" "work_left t = 15"
    by (simp_all add: t_def stop_begin_def thread_Start_def thread_add_def thread_new_def BasicThread_OnStart_def work_left_def)
  obtain n t' where n: "(inner_step (\<lambda>f. None) ^^ n) t t'" "\<nexists>u. inner_step (\<lambda>f. None) t' u"
    using stopping.ends [of t "\<lambda>f. None"] thread_reach_inv [OF r] f(1) by (auto simp: no_abort_exceptions_def)
  from core_thread_graceful_stop [OF r f(1,2) n(1)] n f(3)
  show ?thesis unfolding t_def [symmetric] Let_def by metis
qed

section \<open>Priorities\<close>

text \<open>
  While an \<open>ElevatePriority\<close> object lives the priority is at least the one asked for, and after it the priority is what it was, if the code in
  between leaves the priority alone, also by nested objects.
\<close>

lemma Elevate_raises:
  "ElevateThreadPriority p b = (m_threadPriority b, b') \<Longrightarrow> m_threadPriority b' = max p (m_threadPriority b)"
  by (auto simp: ElevateThreadPriority_def UpdateThreadPriority_def Let_def max_def split: if_splits)

lemma ElevatePriority_restores:
  assumes "\<And>b. m_threadPriority (body b) = m_threadPriority b"
  shows "m_threadPriority (ElevatePriority p body b) = m_threadPriority b"
  using assms
  by (auto simp: ElevatePriority_def ElevateThreadPriority_def DeelevateThreadPriority_def UpdateThreadPriority_def Let_def)

lemma ElevatePriority_nested:
  "m_threadPriority (ElevatePriority p (ElevatePriority q (\<lambda>b. b)) b) = m_threadPriority b"
  by (intro ElevatePriority_restores) simp

end
