(* ===== verification/Autowired_Slot.thy ===== *)
theory Autowired_Slot
  imports Type_Memo_Props
begin

text \<open>
  The handles by which members refer to each other (\<open>AutowirableSlot.{h,cpp}\<close>, \<open>Autowired.h\<close>) over the lookup and the deferred satisfaction of
  \<open>Type_Memo\<close>.  A slot looks its type up when it is made; if nothing is found, it leaves a handler with the memo entry of its context, and so do the
  callbacks that users attach to it.  Handlers are known by their addresses; the log of the store tells which of them the last operation
  has called, in which order, after it has assigned all entries.
\<close>

section \<open>State\<close>

text \<open>A registration names the \<open>once\<close> flag by the context and the type of its memo entry, and the handler.\<close>

record Slot =
  slot_ptr :: AnySharedPointer
  slot_context :: ptr
  m_autowired_notifications :: "(addr \<times> auto_id \<times> addr) list"

datatype slot_handler = SlotHandler addr addr auto_id | UserFn addr

text \<open>\<open>fn_calls\<close> records the calls of users' callbacks, each with the pointer that its slot has at that time.\<close>

record SlotSystem =
  sl_store :: MemberStore
  slots :: "addr \<rightharpoonup> Slot"
  slot_handlers :: "addr \<rightharpoonup> slot_handler"
  fn_calls :: "(addr \<times> ptr) list"

section \<open>Operations\<close>

text \<open>The call of a handler; a handler of a slot that is gone reads a deleted object.\<close>

definition handler_call :: "addr \<Rightarrow> SlotSystem \<Rightarrow> SlotSystem result" where
  "handler_call h S =
     (case slot_handlers S h of
        None \<Rightarrow> Inr S
      | Some (SlotHandler s c ty) \<Rightarrow>
          (case (slots S s, memo_of (sl_store S) c ty) of
             (Some sl, Some m) \<Rightarrow> Inr (S\<lparr>slots := (slots S)(s \<mapsto> sl\<lparr>slot_ptr := m_value m, m_autowired_notifications := []\<rparr>)\<rparr>)
           | _ \<Rightarrow> Inl Undefined_behaviour)
      | Some (UserFn s) \<Rightarrow>
          (case slots S s of
             Some sl \<Rightarrow> Inr (S\<lparr>fn_calls := fn_calls S @ [(h, m_ptr (slot_ptr sl))]\<rparr>)
           | None \<Rightarrow> Inl Undefined_behaviour))"

fun satisfied_handler :: "member_event \<Rightarrow> addr list" where
  "satisfied_handler (Ev_satisfied h) = [h]"
| "satisfied_handler _ = []"

definition called_handlers :: "MemberStore \<Rightarrow> addr list" where
  "called_handlers st = concat (map satisfied_handler (mlog st))"

text \<open>An operation on the members, followed by the handlers that it calls.\<close>

definition slots_AddInternal ::
  "caster \<Rightarrow> (addr \<Rightarrow> bool) \<Rightarrow> addr \<Rightarrow> CoreObjectDescriptor \<Rightarrow> SlotSystem \<Rightarrow> (aw_error option \<times> SlotSystem) result option" where
  "slots_AddInternal cast onStart c d S =
     map_option (\<lambda>(exc, st1). bindR (foldR handler_call (called_handlers st1) (S\<lparr>sl_store := st1\<rparr>)) (\<lambda>S1. Inr (exc, S1)))
       (AddInternal cast onStart c d ((sl_store S)\<lparr>mlog := []\<rparr>))"

text \<open>
  Attaching the handler \<open>h\<close> to the memo entry of the type \<open>ty\<close> that the lookup in \<open>c\<close> gives: whether it is registered, with whose entry, and
  the store; otherwise it is to be called at once.
\<close>

definition attach ::
  "caster \<Rightarrow> addr \<Rightarrow> auto_id \<Rightarrow> addr \<Rightarrow> MemberStore \<Rightarrow> ((addr \<times> bool) result \<times> MemberStore) option" where
  "attach cast c ty h st =
     map_option (\<lambda>(r, st1).
         case r of
           Inl e \<Rightarrow> (Inl e, st1)
         | Inr p \<Rightarrow>
             (case memo_of st1 p ty of
                None \<Rightarrow> (Inl Undefined_behaviour, st1)
              | Some m \<Rightarrow> (case once_add h (onSatisfied m) of (called, reg, o1) \<Rightarrow>
                  (Inr (p, reg \<noteq> None), put_memo p ty (m\<lparr>onSatisfied := o1\<rparr>) st1))))
       (FindByType cast c ty False st)"

text \<open>
  The constructor with a pointer that gives the type (and, in a copy, the value), at the address \<open>s\<close> with its handler at \<open>h\<close>.  An exception of the lookup
  leaves no slot.
\<close>

definition slot_new ::
  "caster \<Rightarrow> AnySharedPointer \<Rightarrow> ptr \<Rightarrow> addr \<Rightarrow> addr \<Rightarrow> SlotSystem \<Rightarrow> SlotSystem result option" where
  "slot_new cast witness context s h S =
     (let sl = \<lparr>slot_ptr = witness, slot_context = context, m_autowired_notifications = []\<rparr>;
          S1 = S\<lparr>slots := (slots S)(s \<mapsto> sl)\<rparr>
      in case context of
           None \<Rightarrow> Some (Inr S1)
         | Some c \<Rightarrow>
             map_option (\<lambda>(r, st1). bindR r (\<lambda>(p, registered).
                 let S2 = S1\<lparr>sl_store := st1, slot_handlers := (slot_handlers S)(h \<mapsto> SlotHandler s p (m_ti witness))\<rparr> in
                 if registered then Inr (S2\<lparr>slots := (slots S)(s \<mapsto> sl\<lparr>m_autowired_notifications := [(p, m_ti witness, h)]\<rparr>)\<rparr>)
                 else handler_call h S2))
               (attach cast c (m_ti witness) h (sl_store S)))"

definition slot_copy :: "caster \<Rightarrow> addr \<Rightarrow> addr \<Rightarrow> addr \<Rightarrow> SlotSystem \<Rightarrow> SlotSystem result option" where
  "slot_copy cast rhs s h S =
     (case slots S rhs of
        None \<Rightarrow> Some (Inl Undefined_behaviour)
      | Some sl \<Rightarrow>
          slot_new cast (slot_ptr sl)
            (Option.bind (slot_context sl) (\<lambda>c. if contexts (sl_store S) c = None then None else Some c)) s h S)"

definition slot_get :: "addr \<Rightarrow> SlotSystem \<Rightarrow> ptr" where
  "slot_get s S = Option.bind (slots S s) (\<lambda>sl. m_ptr (slot_ptr sl))"

definition IsAutowired :: "addr \<Rightarrow> SlotSystem \<Rightarrow> bool" where
  "IsAutowired s S \<longleftrightarrow> slot_get s S \<noteq> None"

text \<open>\<open>operator->\<close>; \<open>name\<close> gives the name of a type.\<close>

definition slot_arrow :: "(auto_id \<Rightarrow> string) \<Rightarrow> auto_id \<Rightarrow> addr \<Rightarrow> SlotSystem \<Rightarrow> addr result" where
  "slot_arrow name T s S =
     (case slot_get s S of
        None \<Rightarrow> Inl (autowiring_error (''Attempted to dereference a null Autowired<'' @ name T @ ''>''))
      | Some a \<Rightarrow> Inr a)"

text \<open>\<open>NotifyWhenAutowired\<close> with the callback \<open>f\<close>.\<close>

definition slot_NotifyWhenAutowired :: "caster \<Rightarrow> addr \<Rightarrow> addr \<Rightarrow> SlotSystem \<Rightarrow> SlotSystem result option" where
  "slot_NotifyWhenAutowired cast f s S =
     (case slots S s of
        None \<Rightarrow> Some (Inl Undefined_behaviour)
      | Some sl \<Rightarrow>
          if m_ptr (slot_ptr sl) \<noteq> None then Some (Inr (S\<lparr>fn_calls := fn_calls S @ [(f, m_ptr (slot_ptr sl))]\<rparr>))
          else case Option.bind (slot_context sl) (contexts (sl_store S)) of
                 None \<Rightarrow> Some (Inr S)
               | Some _ \<Rightarrow>
                   map_option (\<lambda>(r, st1). bindR r (\<lambda>(p, registered).
                       let S1 = S\<lparr>sl_store := st1, slot_handlers := (slot_handlers S)(f \<mapsto> UserFn s)\<rparr> in
                       if registered then
                         Inr (S1\<lparr>slots := (slots S)(s \<mapsto> sl\<lparr>m_autowired_notifications := m_autowired_notifications sl @ [(p, m_ti (slot_ptr sl), f)]\<rparr>)\<rparr>)
                       else handler_call f S1))
                     (attach cast (the (slot_context sl)) (m_ti (slot_ptr sl)) f (sl_store S)))"

text \<open>\<open>reset\<close>, which the destructor calls.\<close>

definition detach :: "addr \<times> auto_id \<times> addr \<Rightarrow> SlotSystem \<Rightarrow> SlotSystem result" where
  "detach n S =
     (case n of (p, ty, h) \<Rightarrow>
        (case memo_of (sl_store S) p ty of
           None \<Rightarrow> Inl Undefined_behaviour
         | Some m \<Rightarrow>
             bindR (once_remove h (onSatisfied m)) (\<lambda>(_, o1).
               Inr (S\<lparr>sl_store := put_memo p ty (m\<lparr>onSatisfied := o1\<rparr>) (sl_store S)\<rparr>))))"

definition slot_reset :: "addr \<Rightarrow> SlotSystem \<Rightarrow> SlotSystem result" where
  "slot_reset s S =
     (case slots S s of
        None \<Rightarrow> Inl Undefined_behaviour
      | Some sl \<Rightarrow>
          (let S1 = S\<lparr>slots := (slots S)(s \<mapsto> \<lparr>slot_ptr = (slot_ptr sl)\<lparr>m_ptr := None\<rparr>, slot_context = None, m_autowired_notifications = []\<rparr>)\<rparr> in
           case Option.bind (slot_context sl) (contexts (sl_store S)) of
             None \<Rightarrow> Inr S1
           | Some _ \<Rightarrow> foldR detach (m_autowired_notifications sl) S1))"

definition slot_destroy :: "addr \<Rightarrow> SlotSystem \<Rightarrow> SlotSystem result" where
  "slot_destroy s S = bindR (slot_reset s S) (\<lambda>S1. Inr (S1\<lparr>slots := (slots S1)(s := None)\<rparr>))"

text \<open>\<open>AutowiredFast\<close>: the pointer at the time of construction.\<close>

definition AutowiredFast_new :: "caster \<Rightarrow> addr \<Rightarrow> auto_id \<Rightarrow> MemberStore \<Rightarrow> (ptr result \<times> MemberStore) option" where
  "AutowiredFast_new cast c T st = lookup_type cast c T False st"

section \<open>Slots that wait\<close>








lemma mlog_irrelevant [simp]:
  "tree_ok (st\<lparr>mlog := evs\<rparr>) = tree_ok st" "kids_distinct (st\<lparr>mlog := evs\<rparr>) = kids_distinct st"
  "memo_of (st\<lparr>mlog := evs\<rparr>) = memo_of st" "edge (st\<lparr>mlog := evs\<rparr>) = edge st"
  by (rule tree_ok_contexts_cong, simp) (auto simp: kids_distinct_def memo_of_def edge_def GetParentContext_def fun_eq_iff)







text \<open>A system with an entry in context 3 that nothing has satisfied, and no slots.\<close>

definition ex_slots :: SlotSystem where
  "ex_slots = \<lparr>sl_store = put_memo 3 5 (memo_new 5) (ex_store (\<lambda>_. [])), slots = Map.empty, slot_handlers = Map.empty, fn_calls = []\<rparr>"

lemma ex_memo_known: "memo_of (sl_store ex_slots) 3 5 = Some (memo_new 5)"
  by (simp add: ex_slots_def)

lemma ex_attach:
  assumes "memo_of st 3 5 = Some m" "once_state (onSatisfied m) = unsignalled"
  shows "attach cast 3 5 h st =
    Some (Inr (3, True), put_memo 3 5 (m\<lparr>onSatisfied := (onSatisfied m)\<lparr>m_fns := m_fns (onSatisfied m) @ [h]\<rparr>\<rparr>) st)"
  using assms by (simp add: attach_def FindByType_known once_add_def)

lemma ex_slot_new:
  "slot_new ex_cast \<lparr>m_ti = 5, m_ptr = None\<rparr> (Some 3) 20 9 ex_slots = Some (Inr (ex_slots
     \<lparr>sl_store := put_memo 3 5 ((memo_new 5)\<lparr>onSatisfied := \<lparr>once_state = unsignalled, m_fns = [9]\<rparr>\<rparr>) (sl_store ex_slots),
      slot_handlers := [9 \<mapsto> SlotHandler 20 3 5],
      slots := [20 \<mapsto> \<lparr>slot_ptr = \<lparr>m_ti = 5, m_ptr = None\<rparr>, slot_context = Some 3, m_autowired_notifications = [(3, 5, 9)]\<rparr>]\<rparr>))"
  using ex_attach [OF ex_memo_known]
  by (simp add: slot_new_def memo_new_def once_new_def ex_slots_def)


section \<open>The order of callbacks\<close>

text \<open>What adding an object to context 1 calls: the handlers of the entry of context 3, in their order.\<close>

lemma ex_add_calls:
  assumes "st = put_memo 3 5 ((memo_new 5)\<lparr>onSatisfied := \<lparr>once_state = unsignalled, m_fns = fns\<rparr>\<rparr>) (ex_store (\<lambda>_. []))"
  shows "\<exists>st'. AddInternal ex_cast (\<lambda>_. True) 1 (ex_obj 100) (st\<lparr>mlog := []\<rparr>) = Some (None, st') \<and> called_handlers st' = fns \<and>
    (\<exists>m. memo_of st' 3 5 = Some m \<and> m_value m = \<lparr>m_ti = 5, m_ptr = Some 100\<rparr>)"
proof -
  let ?d = "ex_obj 100" and ?st = "set_members 1 (add_member (ex_obj 100) (members (st\<lparr>mlog := []\<rparr>) 1)) (st\<lparr>mlog := []\<rparr>)"
  have c: "contexts ?st = contexts four" by (simp add: assms ex_store_def set_members_def)
  have lc: "live_children ?st 1 = [3]" "live_children ?st 3 = []"
    using c by (simp_all add: live_children_def four_contexts context_new_def)
  have "visits ?st [3] [3]" using visits.sub [of ?st 3 "[]" "[]" "[]", OF _ visits.none] lc(2) visits.none [of ?st] by simp
  then have v: "visits ?st (live_children ?st 1) [3]" by (simp only: lc)
  define st2 where "st2 = update_memos ex_cast ?d False 3 (update_memos ex_cast ?d True 1 ?st)"
  have "UpdateDeferredElements ex_cast ?d True 1 ?st = Some st2"
    using UpdateDeferredElements_pass [OF v, of ex_cast ?d] by (simp add: update_all_def st2_def)
  moreover have none: "memo_of (st\<lparr>mlog := []\<rparr>) 1 5 = None" by (simp add: assms)
  ultimately have add: "AddInternal ex_cast (\<lambda>_. True) 1 ?d (st\<lparr>mlog := []\<rparr>) = Some (None, memit [Ev_newObject (Some 100)] st2)"
    by (simp add: AddInternal_def ex_obj_def Let_def)
  have m3: "m_typeMemos (members ?st 3) = [(5, (memo_new 5)\<lparr>onSatisfied := \<lparr>once_state = unsignalled, m_fns = fns\<rparr>\<rparr>)]"
    "m_typeMemos (members ?st 1) = []" "mlog ?st = []"
    by (simp_all add: assms put_memo_def set_members_def add_member_def ex_store_def no_members_def)
  let ?m = "(memo_new 5)\<lparr>onSatisfied := \<lparr>once_state = unsignalled, m_fns = fns\<rparr>\<rparr>"
  have hit: "deferred_hit ex_cast ?d ?m" by (simp add: deferred_hit_def satisfied_def memo_new_def try_assign_def pFromObj_def ex_cast_def ex_obj_def)
  have fire: "fst (memo_fire ?m) = fns" by (simp add: memo_fire_def once_signal_def once_get_def once_calls_all)
  have "mlog st2 = map Ev_satisfied fns"
    using hit fire m3 by (simp add: st2_def update_memos_def memit_def set_members_def)
  then have "called_handlers (memit [Ev_newObject (Some 100)] st2) = fns"
    by (simp add: called_handlers_def memit_def comp_def)
  moreover have "memo_of st2 3 5 = Some (updated ex_cast ?d False ?m)"
    using m3(1) by (simp add: st2_def memo_of_update) (simp add: memo_of_def)
  moreover have "m_value (updated ex_cast ?d False ?m) = \<lparr>m_ti = 5, m_ptr = Some 100\<rparr>"
    using hit by (simp add: updated_def memo_fire_def deferred_assign_def try_assign_def pFromObj_def ex_cast_def ex_obj_def memo_new_def split: prod.splits)
  ultimately show ?thesis using add by (auto simp: memo_of_def memit_def)
qed

text \<open>Two slots of one type in one context, and a callback of the second one; and the same after the first slot has been destroyed.\<close>

definition two_slots :: "addr list \<Rightarrow> SlotSystem" where
  "two_slots fns = \<lparr>sl_store = put_memo 3 5 ((memo_new 5)\<lparr>onSatisfied := \<lparr>once_state = unsignalled, m_fns = fns\<rparr>\<rparr>) (ex_store (\<lambda>_. [])),
     slots = [20 \<mapsto> \<lparr>slot_ptr = \<lparr>m_ti = 5, m_ptr = None\<rparr>, slot_context = Some 3, m_autowired_notifications = [(3, 5, 9)]\<rparr>,
              21 \<mapsto> \<lparr>slot_ptr = \<lparr>m_ti = 5, m_ptr = None\<rparr>, slot_context = Some 3, m_autowired_notifications = [(3, 5, 10), (3, 5, 11)]\<rparr>],
     slot_handlers = [9 \<mapsto> SlotHandler 20 3 5, 10 \<mapsto> SlotHandler 21 3 5, 11 \<mapsto> UserFn 21], fn_calls = []\<rparr>"

lemma put_memo_twice [simp]: "put_memo c ty m (put_memo c ty m' st) = put_memo c ty m st"
proof -
  have "memo_put ty m (memo_put ty m' xs) = memo_put ty m xs" for xs by (induction xs) auto
  then show ?thesis by (simp add: put_memo_def set_members_def)
qed

lemma two_slots_made:
  "\<exists>S1 S2. slot_new ex_cast \<lparr>m_ti = 5, m_ptr = None\<rparr> (Some 3) 20 9 ex_slots = Some (Inr S1) \<and>
     slot_new ex_cast \<lparr>m_ti = 5, m_ptr = None\<rparr> (Some 3) 21 10 S1 = Some (Inr S2) \<and>
     slot_NotifyWhenAutowired ex_cast 11 21 S2 = Some (Inr (two_slots [9, 10, 11]))"
proof -
  let ?s = "\<lambda>ns. \<lparr>slot_ptr = \<lparr>m_ti = 5, m_ptr = None\<rparr>, slot_context = Some 3, m_autowired_notifications = ns\<rparr>"
  let ?st = "\<lambda>fns. put_memo 3 5 ((memo_new 5)\<lparr>onSatisfied := \<lparr>once_state = unsignalled, m_fns = fns\<rparr>\<rparr>) (ex_store (\<lambda>_. []))"
  define S1 where "S1 = \<lparr>sl_store = ?st [9], slots = [20 \<mapsto> ?s [(3, 5, 9)]], slot_handlers = [9 \<mapsto> SlotHandler 20 3 5], fn_calls = []\<rparr>"
  define S2 where "S2 = \<lparr>sl_store = ?st [9, 10], slots = [20 \<mapsto> ?s [(3, 5, 9)], 21 \<mapsto> ?s [(3, 5, 10)]],
    slot_handlers = [9 \<mapsto> SlotHandler 20 3 5, 10 \<mapsto> SlotHandler 21 3 5], fn_calls = []\<rparr>"
  have at: "attach ex_cast 3 5 h (?st fns) = Some (Inr (3, True), ?st (fns @ [h]))" for h fns
    using ex_attach [of "?st fns" "(memo_new 5)\<lparr>onSatisfied := \<lparr>once_state = unsignalled, m_fns = fns\<rparr>\<rparr>" ex_cast h] by simp
  have alive: "contexts (?st fns) 3 \<noteq> None" for fns using ex_store_parent(4) by simp
  have "slot_new ex_cast \<lparr>m_ti = 5, m_ptr = None\<rparr> (Some 3) 20 9 ex_slots = Some (Inr S1)"
    unfolding ex_slot_new by (simp add: S1_def ex_slots_def)
  moreover have "slot_new ex_cast \<lparr>m_ti = 5, m_ptr = None\<rparr> (Some 3) 21 10 S1 = Some (Inr S2)"
    by (simp add: slot_new_def S1_def S2_def at)
  moreover have "slot_NotifyWhenAutowired ex_cast 11 21 S2 = Some (Inr (two_slots [9, 10, 11]))"
    using alive [of "[9, 10]"] by (auto simp: slot_NotifyWhenAutowired_def S2_def two_slots_def at)
  ultimately show ?thesis by blast
qed

text \<open>
  Destroying the first slot puts the callback in its place, before the handler of its own slot: the callback, which is to be called when the
  slot is autowired, is then called while the slot is null.  Without the destruction it is called after the slot has been set.
\<close>

lemma callback_before_slot:
  "slot_destroy 20 (two_slots [9, 10, 11]) = Inr ((two_slots [11, 10])\<lparr>slots := (slots (two_slots []))(20 := None)\<rparr>)"
  "\<exists>S. slots_AddInternal ex_cast (\<lambda>_. True) 1 (ex_obj 100) (two_slots [9, 10, 11]) = Some (Inr (None, S)) \<and> fn_calls S = [(11, Some 100)]"
  "\<exists>S. slots_AddInternal ex_cast (\<lambda>_. True) 1 (ex_obj 100) ((two_slots [11, 10])\<lparr>slots := (slots (two_slots []))(20 := None)\<rparr>) = Some (Inr (None, S)) \<and>
     fn_calls S = [(11, None)] \<and> slot_get 21 S = Some 100"
proof -
  have alive: "contexts (sl_store (two_slots fns)) 3 \<noteq> None" for fns using ex_store_parent(4) by (simp add: two_slots_def)
  have "once_remove 9 \<lparr>once_state = unsignalled, m_fns = [9, 10, 11]\<rparr> = Inr (True, \<lparr>once_state = unsignalled, m_fns = [11, 10]\<rparr>)"
    by (simp add: once_remove_def once_get_def numeral_3_eq_3)
  then show "slot_destroy 20 (two_slots [9, 10, 11]) = Inr ((two_slots [11, 10])\<lparr>slots := (slots (two_slots []))(20 := None)\<rparr>)"
    using alive [of "[9, 10, 11]"] by (auto simp: slot_destroy_def slot_reset_def detach_def two_slots_def)
  obtain st' m where 1: "AddInternal ex_cast (\<lambda>_. True) 1 (ex_obj 100) ((sl_store (two_slots [9, 10, 11]))\<lparr>mlog := []\<rparr>) = Some (None, st')"
    "called_handlers st' = [9, 10, 11]" "memo_of st' 3 5 = Some m" "m_value m = \<lparr>m_ti = 5, m_ptr = Some 100\<rparr>"
    using ex_add_calls [of _ "[9, 10, 11]"] by (auto simp: two_slots_def)
  then show "\<exists>S. slots_AddInternal ex_cast (\<lambda>_. True) 1 (ex_obj 100) (two_slots [9, 10, 11]) = Some (Inr (None, S)) \<and> fn_calls S = [(11, Some 100)]"
    unfolding two_slots_def by (simp add: slots_AddInternal_def handler_call_def)
  obtain st' m where 2: "AddInternal ex_cast (\<lambda>_. True) 1 (ex_obj 100) ((sl_store (two_slots [11, 10]))\<lparr>mlog := []\<rparr>) = Some (None, st')"
    "called_handlers st' = [11, 10]" "memo_of st' 3 5 = Some m" "m_value m = \<lparr>m_ti = 5, m_ptr = Some 100\<rparr>"
    using ex_add_calls [of _ "[11, 10]"] by (auto simp: two_slots_def)
  then show "\<exists>S. slots_AddInternal ex_cast (\<lambda>_. True) 1 (ex_obj 100) ((two_slots [11, 10])\<lparr>slots := (slots (two_slots []))(20 := None)\<rparr>) = Some (Inr (None, S)) \<and>
     fn_calls S = [(11, None)] \<and> slot_get 21 S = Some 100"
    unfolding two_slots_def by (simp add: slots_AddInternal_def handler_call_def slot_get_def)
qed

end
