(* ===== verification/Config_Descriptor.thy ===== *)
theory Config_Descriptor
  imports Config_Manager_Props "HOL-Library.AList"
begin

unbundle bit_operations_syntax

text \<open>
  The descriptors of configurable objects (\<open>config_descriptor.{h,cpp}\<close>), the registry of all descriptors of the program and access to fields by
  name (\<open>ConfigRegistry.{h,cpp}\<close>), and how the managers of \<open>Config_Manager\<close> are filled from them.

  The fields of a descriptor are a \<open>std::unordered_map\<close> from names: here an association list with distinct keys.  The order in which such a map is
  traversed is not specified; it is the parameter \<open>perm\<close>, any function that permutes lists.  An object is a map from the offsets of its
  fields to their values.  The identifier of the type \<open>void\<close> is 0.
\<close>

section \<open>Fields\<close>

record 'v marshaller_base =
  mb_marshal :: "'v \<Rightarrow> string"
  mb_unmarshal :: "string \<Rightarrow> 'v result"

text \<open>A piece of metadata has the identifier of its type; default values have a type of their own.\<close>

datatype 'v field_metadata = DefaultValue nat 'v | OtherMetadata nat nat

fun metadata_id :: "'v field_metadata \<Rightarrow> nat" where
  "metadata_id (DefaultValue i v) = i"
| "metadata_id (OtherMetadata i x) = i"

record 'v field_descriptor =
  fd_name :: "string option"
  fd_description :: "string option"
  fd_type :: nat
  fd_offset :: nat
  fd_default :: "'v option"
  fd_marshaller :: "'v marshaller_base option"
  fd_metadata :: "'v field_metadata list option"
  m_mdMap :: "nat \<Rightarrow> 'v field_metadata list"

definition field_default :: "'v field_descriptor" where
  "field_default = \<lparr>fd_name = None, fd_description = None, fd_type = 0, fd_offset = 0, fd_default = None, fd_marshaller = None,
     fd_metadata = None, m_mdMap = (\<lambda>_. [])\<rparr>"

definition md_push :: "'v field_metadata \<Rightarrow> (nat \<Rightarrow> 'v field_metadata list) \<Rightarrow> nat \<Rightarrow> 'v field_metadata list" where
  "md_push e md = md(metadata_id e := md (metadata_id e) @ [e])"

definition HandleMetadata :: "'v field_metadata \<Rightarrow> 'v option \<Rightarrow> 'v option" where
  "HandleMetadata e d = (case e of DefaultValue i v \<Rightarrow> Some v | OtherMetadata i x \<Rightarrow> d)"

text \<open>
  The constructor for a member of the type \<open>ty\<close> at an offset.  \<open>init\<close> is the value-initialized value of this type; the metadata are handled from
  left to right (C++ leaves the order open, which matters for two default values only).
\<close>

definition field_new ::
  "string \<Rightarrow> string \<Rightarrow> nat \<Rightarrow> nat \<Rightarrow> 'v \<Rightarrow> 'v marshaller_base \<Rightarrow> 'v field_metadata list \<Rightarrow> 'v field_descriptor" where
  "field_new name desc ty offset init mb ms =
     \<lparr>fd_name = Some name, fd_description = Some desc, fd_type = ty, fd_offset = offset, fd_default = fold HandleMetadata ms (Some init),
      fd_marshaller = Some mb, fd_metadata = Some ms, m_mdMap = fold md_push ms (\<lambda>_. [])\<rparr>"

text \<open>The assignment; the copy constructor assigns to a default-constructed field.\<close>

definition field_assign :: "'v field_descriptor \<Rightarrow> 'v field_descriptor \<Rightarrow> 'v field_descriptor" where
  "field_assign lhs rhs =
     (let f = lhs\<lparr>fd_name := fd_name rhs, fd_description := fd_description rhs, fd_offset := fd_offset rhs, fd_default := fd_default rhs,
                  fd_marshaller := fd_marshaller rhs, m_mdMap := (\<lambda>_. [])\<rparr>
      in case fd_metadata rhs of
           Some ms \<Rightarrow> f\<lparr>fd_metadata := Some ms, m_mdMap := fold md_push ms (m_mdMap f)\<rparr>
         | None \<Rightarrow> f\<lparr>fd_metadata := None\<rparr>)"

definition field_copy :: "'v field_descriptor \<Rightarrow> 'v field_descriptor" where
  "field_copy rhs = field_assign field_default rhs"

definition collect_list :: "nat \<Rightarrow> 'v field_descriptor \<Rightarrow> 'v field_metadata list" where
  "collect_list i f = m_mdMap f i"

section \<open>Descriptors\<close>

text \<open>The hash of names, with signed characters.\<close>

definition char_value :: "char \<Rightarrow> 64 word" where
  "char_value c = word_of_int (sint (of_char c :: 8 word))"

fun hash_from :: "string \<Rightarrow> 64 word \<Rightarrow> 64 word" where
  "hash_from [] rv = rv"
| "hash_from (c # p) rv = hash_from p (rv + (push_bit 5 rv + char_value c))"

definition string_hash :: "string \<Rightarrow> 64 word" where
  "string_hash p = hash_from p 5381"

type_synonym 'v config_descriptor = "(string \<times> 'v field_descriptor) list"

text \<open>The loop of \<open>MakeFields\<close> over the copies of the fields in the initializer list; a null name is read.\<close>

fun make_fields :: "'v field_descriptor list \<Rightarrow> 'v config_descriptor \<Rightarrow> 'v config_descriptor result" where
  "make_fields [] d = Inr d"
| "make_fields (f # fs) d =
     (case fd_name f of
        None \<Rightarrow> Inl Undefined_behaviour
      | Some n \<Rightarrow>
          make_fields fs (AList.update n (field_assign (case map_of d n of Some g \<Rightarrow> g | None \<Rightarrow> field_default) (field_copy f)) d))"

definition MakeFields :: "'v field_descriptor list \<Rightarrow> 'v config_descriptor result" where
  "MakeFields fs = make_fields fs []"

type_synonym 'v traversal = "'v config_descriptor \<Rightarrow> 'v config_descriptor"

definition descriptor_get :: "'v traversal \<Rightarrow> nat \<Rightarrow> 'v config_descriptor \<Rightarrow> 'v field_descriptor result" where
  "descriptor_get perm off d =
     (case find (\<lambda>(n, f). fd_offset f = off) (perm d) of
        Some (n, f) \<Rightarrow> Inr f
      | None \<Rightarrow> Inl (range_error ''Attempted to find a configuration field at an invalid offset''))"

section \<open>Access by name\<close>

definition name_not_found :: aw_error where
  "name_not_found = invalid_argument ''Configuration name not found in the specified object's configuration descriptor''"

definition field_ConfigGet :: "string \<Rightarrow> 'v config_descriptor \<Rightarrow> (nat \<rightharpoonup> 'v) \<Rightarrow> string result" where
  "field_ConfigGet name d obj =
     (case map_of d name of
        None \<Rightarrow> Inl name_not_found
      | Some f \<Rightarrow>
          (case (fd_marshaller f, obj (fd_offset f)) of
             (Some mb, Some v) \<Rightarrow> Inr (mb_marshal mb v)
           | _ \<Rightarrow> Inl Undefined_behaviour))"

definition field_ConfigSet :: "string \<Rightarrow> string \<Rightarrow> 'v config_descriptor \<Rightarrow> (nat \<rightharpoonup> 'v) \<Rightarrow> (nat \<rightharpoonup> 'v) result" where
  "field_ConfigSet name text d obj =
     (case map_of d name of
        None \<Rightarrow> Inl name_not_found
      | Some f \<Rightarrow>
          (case (fd_marshaller f, obj (fd_offset f)) of
             (Some mb, Some v) \<Rightarrow> bindR (mb_unmarshal mb text) (\<lambda>v'. Inr (obj(fd_offset f \<mapsto> v')))
           | _ \<Rightarrow> Inl Undefined_behaviour))"

section \<open>Registry\<close>

record 'v registry_entry =
  re_pFlink :: ptr
  re_descriptor :: "'v config_descriptor"

record 'v config_registry =
  g_pFirstEntry :: ptr
  registry_entries :: "addr \<rightharpoonup> 'v registry_entry"

definition registry_Link :: "addr \<Rightarrow> 'v config_registry \<Rightarrow> ptr \<times> 'v config_registry" where
  "registry_Link a R = (g_pFirstEntry R, R\<lparr>g_pFirstEntry := Some a\<rparr>)"

definition registry_entry_new :: "addr \<Rightarrow> 'v config_descriptor \<Rightarrow> 'v config_registry \<Rightarrow> 'v config_registry" where
  "registry_entry_new a d R =
     (case registry_Link a R of
        (pFlink, R1) \<Rightarrow> R1\<lparr>registry_entries := (registry_entries R1)(a \<mapsto> \<lparr>re_pFlink = pFlink, re_descriptor = d\<rparr>)\<rparr>)"

text \<open>What a loop from \<open>begin\<close> to \<open>end\<close> visits.\<close>

partial_function (option) registry_from :: "'v config_registry \<Rightarrow> ptr \<Rightarrow> 'v config_descriptor list result option" where
  "registry_from R cur =
     (case cur of
        None \<Rightarrow> Some (Inr [])
      | Some a \<Rightarrow>
          (case registry_entries R a of
             None \<Rightarrow> Some (Inl Undefined_behaviour)
           | Some e \<Rightarrow>
               Option.bind (registry_from R (re_pFlink e)) (\<lambda>r. Some (bindR r (\<lambda>ds. Inr (re_descriptor e # ds))))))"

definition registry_descriptors :: "'v config_registry \<Rightarrow> 'v config_descriptor list result option" where
  "registry_descriptors R = registry_from R (g_pFirstEntry R)"

section \<open>Managers from descriptors\<close>

text \<open>What the constructor of the root manager takes from a field.\<close>

definition default_text :: "string \<times> 'v field_descriptor \<Rightarrow> (string \<times> string option) result" where
  "default_text x =
     (case x of (n, f) \<Rightarrow>
        (case fd_default f of
           None \<Rightarrow> Inr (n, None)
         | Some v \<Rightarrow> (case fd_marshaller f of None \<Rightarrow> Inl Undefined_behaviour | Some mb \<Rightarrow> Inr (n, Some (mb_marshal mb v)))))"

fun mapR :: "('a \<Rightarrow> 'b result) \<Rightarrow> 'a list \<Rightarrow> 'b list result" where
  "mapR f [] = Inr []"
| "mapR f (x # xs) = bindR (f x) (\<lambda>y. bindR (mapR f xs) (\<lambda>ys. Inr (y # ys)))"

definition root_manager_new :: "'v traversal \<Rightarrow> 'v config_registry \<Rightarrow> 'v ConfigSystem \<Rightarrow> 'v ConfigSystem result option" where
  "root_manager_new perm R st =
     Option.bind (registry_descriptors R) (\<lambda>r. Some (bindR r (\<lambda>ds.
       bindR (mapR default_text (concat (map perm ds))) (\<lambda>fs. Inr (add_manager fs None st)))))"

text \<open>The fields of an object at the address \<open>base\<close> as \<open>Register\<close> takes them.\<close>

definition bound_field :: "nat \<Rightarrow> string \<times> 'v field_descriptor \<Rightarrow> 'v config_field result" where
  "bound_field base x =
     (case x of (n, f) \<Rightarrow>
        (case (fd_name f, fd_marshaller f, fd_metadata f) of
           (Some name, Some mb, Some ms) \<Rightarrow>
             Inr \<lparr>fname = name, pField = base + fd_offset f, funmarshal = mb_unmarshal mb, fmetadata = map metadata_id ms\<rparr>
         | _ \<Rightarrow> Inl Undefined_behaviour))"

definition Register_object ::
  "'v traversal \<Rightarrow> nat \<Rightarrow> nat \<Rightarrow> 'v config_descriptor \<Rightarrow> 'v ConfigSystem \<Rightarrow> ('v ConfigSystem \<times> unit result) option" where
  "Register_object perm m base d st =
     (case mapR (bound_field base) (perm d) of
        Inl e \<Rightarrow> Some (st, Inl e)
      | Inr fds \<Rightarrow> Register m fds st)"

section \<open>Copies of fields\<close>

lemma hash_from_snoc: "hash_from (p @ [c]) rv = 33 * hash_from p rv + char_value c"
  by (induction p rv rule: hash_from.induct) (simp_all add: push_bit_eq_mult)

text \<open>The hash is a polynomial in 33, modulo the range.\<close>

lemma string_hash_snoc: "string_hash (p @ [c]) = 33 * string_hash p + char_value c" "string_hash [] = 5381"
  by (simp_all add: string_hash_def hash_from_snoc)

lemma md_map: "fold md_push ms md i = md i @ filter (\<lambda>e. metadata_id e = i) ms"
  by (induction ms arbitrary: md) (auto simp: md_push_def)

definition made :: "'v field_descriptor \<Rightarrow> bool" where
  "made f \<longleftrightarrow> (\<exists>name desc ty offset init mb ms. f = field_new name desc ty offset init mb ms)"

lemma made_new [simp]: "made (field_new name desc ty offset init mb ms)"
  unfolding made_def by (intro exI) (rule refl)

lemma default_handled: "\<exists>w. fold HandleMetadata ms (Some v) = Some w"
  by (induction ms arbitrary: v) (auto simp: HandleMetadata_def split: field_metadata.splits)

lemma madeD:
  assumes "made f"
  shows "\<exists>n v mb ms. fd_name f = Some n \<and> fd_default f = Some v \<and> fd_marshaller f = Some mb \<and> fd_metadata f = Some ms \<and> m_mdMap f = fold md_push ms (\<lambda>_. [])"
  using assms default_handled by (auto simp: made_def field_new_def)

text \<open>An assignment copies a field that the constructor has made, except for its type; a copy has the type \<open>void\<close>.\<close>

lemma field_assign_made:
  assumes "made f"
  shows "field_assign lhs (f\<lparr>fd_type := t\<rparr>) = f\<lparr>fd_type := fd_type lhs\<rparr>" "field_assign lhs f = f\<lparr>fd_type := fd_type lhs\<rparr>"
  using madeD [OF assms] by (auto simp: field_assign_def intro!: field_descriptor.equality)

lemma field_copy_type:
  assumes "made f"
  shows "field_copy f = f\<lparr>fd_type := 0\<rparr>" "collect_list i (field_copy f) = collect_list i f"
  using field_assign_made(2) [OF assms, of field_default] by (simp_all add: field_copy_def field_default_def collect_list_def)

text \<open>What a field collects, in order.\<close>

lemma collect_list_new: "collect_list i (field_new name desc ty offset init mb ms) = filter (\<lambda>e. metadata_id e = i) ms"
  by (simp add: collect_list_def field_new_def md_map)

section \<open>Descriptors\<close>

lemma find_append: "find P (xs @ ys) = (case find P xs of Some x \<Rightarrow> Some x | None \<Rightarrow> find P ys)"
  by (induction xs) auto

lemma make_fields_result:
  assumes "\<forall>f \<in> set fs. made f" "\<forall>g \<in> ran (map_of d). fd_type g = 0" "distinct (map fst d)"
  shows "\<exists>d'. make_fields fs d = Inr d' \<and> distinct (map fst d') \<and>
    (\<forall>n. map_of d' n = (case find (\<lambda>f. fd_name f = Some n) (rev fs) of Some f \<Rightarrow> Some (f\<lparr>fd_type := 0\<rparr>) | None \<Rightarrow> map_of d n))"
  using assms
proof (induction fs arbitrary: d)
  case (Cons f fs)
  obtain k where k: "fd_name f = Some k" using madeD Cons.prems(1) by fastforce
  define g where "g = (case map_of d k of Some g \<Rightarrow> g | None \<Rightarrow> field_default)"
  have "fd_type g = 0" using Cons.prems(2) by (auto simp: g_def field_default_def ran_def split: option.splits)
  then have a: "field_assign g (field_copy f) = f\<lparr>fd_type := 0\<rparr>"
    using field_copy_type(1) [of f] field_assign_made(1) [of f g 0] Cons.prems(1) by simp
  let ?d = "AList.update k (f\<lparr>fd_type := 0\<rparr>) d"
  have m: "map_of ?d = (map_of d)(k \<mapsto> f\<lparr>fd_type := 0\<rparr>)" by (rule update_conv')
  have "\<forall>g \<in> ran (map_of ?d). fd_type g = 0" using Cons.prems(2) by (auto simp: m ran_def)
  moreover have "distinct (map fst ?d)" using Cons.prems(3) by (rule distinct_update)
  moreover have "make_fields (f # fs) d = make_fields fs ?d" using k a by (simp add: g_def)
  ultimately obtain d' where d': "make_fields (f # fs) d = Inr d'" "distinct (map fst d')"
    "\<forall>n. map_of d' n = (case find (\<lambda>f. fd_name f = Some n) (rev fs) of Some f \<Rightarrow> Some (f\<lparr>fd_type := 0\<rparr>) | None \<Rightarrow> map_of ?d n)"
    using Cons.IH [of ?d] Cons.prems(1) by auto
  have "map_of d' n = (case find (\<lambda>f. fd_name f = Some n) (rev (f # fs)) of Some f \<Rightarrow> Some (f\<lparr>fd_type := 0\<rparr>) | None \<Rightarrow> map_of d n)" for n
    using d'(3) k by (auto simp: m find_append split: option.splits)
  then show ?case using d'(1,2) by blast
qed simp

text \<open>Of several fields of one name the last one is kept.\<close>

lemma MakeFields_result:
  assumes "\<forall>f \<in> set fs. made f"
  shows "\<exists>d. MakeFields fs = Inr d \<and> distinct (map fst d) \<and>
    (\<forall>n. map_of d n = map_option (\<lambda>f. f\<lparr>fd_type := 0\<rparr>) (find (\<lambda>f. fd_name f = Some n) (rev fs)))"
  using make_fields_result [OF assms, of "[]"] by (auto simp: MakeFields_def map_option_case cong: option.case_cong)

text \<open>The fields that a descriptor has by name, if the constructor has made them.\<close>

definition describes :: "'v config_descriptor \<Rightarrow> bool" where
  "describes d \<longleftrightarrow> (\<exists>fs. (\<forall>f \<in> set fs. made f) \<and> MakeFields fs = Inr d)"

lemma describesD:
  assumes "describes d"
  shows "distinct (map fst d)"
    and "(n, f) \<in> set d \<Longrightarrow> \<exists>v mb ms. fd_name f = Some n \<and> fd_default f = Some v \<and> fd_marshaller f = Some mb \<and> fd_metadata f = Some ms"
proof -
  obtain fs where fs: "\<forall>f \<in> set fs. made f" "MakeFields fs = Inr d" using assms by (auto simp: describes_def)
  then have d: "distinct (map fst d)" "\<And>n. map_of d n = map_option (\<lambda>f. f\<lparr>fd_type := 0\<rparr>) (find (\<lambda>f. fd_name f = Some n) (rev fs))"
    using MakeFields_result [OF fs(1)] by auto
  show "distinct (map fst d)" by (rule d(1))
  assume "(n, f) \<in> set d"
  then have "map_of d n = Some f" using d(1) by simp
  then obtain g where g: "find (\<lambda>f. fd_name f = Some n) (rev fs) = Some g" "f = g\<lparr>fd_type := 0\<rparr>" using d(2) [of n] by auto
  then have "g \<in> set fs" "fd_name g = Some n" by (auto simp: find_Some_iff) (metis nth_mem set_rev length_rev)
  then show "\<exists>v mb ms. fd_name f = Some n \<and> fd_default f = Some v \<and> fd_marshaller f = Some mb \<and> fd_metadata f = Some ms"
    using madeD [of g] fs(1) g(2) by auto
qed

text \<open>Looking a field up by its offset finds it whatever the order of the traversal, if no two fields are at one place.\<close>

definition traverses :: "'v traversal \<Rightarrow> bool" where
  "traverses perm \<longleftrightarrow> (\<forall>d. mset (perm d) = mset d)"

lemma traversesD: "traverses perm \<Longrightarrow> set (perm d) = set d" "traverses perm \<Longrightarrow> distinct (map g (perm d)) \<longleftrightarrow> distinct (map g d)"
proof -
  assume "traverses perm"
  then have m: "mset (perm d) = mset d" by (simp add: traverses_def)
  then show "set (perm d) = set d" by (rule mset_eq_setD)
  have "mset (map g (perm d)) = mset (map g d)" using m by simp
  then show "distinct (map g (perm d)) \<longleftrightarrow> distinct (map g d)" by (rule mset_eq_imp_distinct_iff)
qed

definition fields_apart :: "'v config_descriptor \<Rightarrow> bool" where
  "fields_apart d \<longleftrightarrow> distinct (map (\<lambda>x. fd_offset (snd x)) d)"

lemma fields_apartD: "fields_apart d \<Longrightarrow> (n, f) \<in> set d \<Longrightarrow> (k, g) \<in> set d \<Longrightarrow> fd_offset f = fd_offset g \<Longrightarrow> n = k \<and> f = g"
  using inj_onD [of "\<lambda>x. fd_offset (snd x)" "set d" "(n, f)" "(k, g)"] by (simp add: fields_apart_def distinct_map)

lemma descriptor_get_cases:
  assumes "traverses perm" "fields_apart d"
  shows "(n, f) \<in> set d \<Longrightarrow> descriptor_get perm (fd_offset f) d = Inr f"
    and "\<forall>x \<in> set d. fd_offset (snd x) \<noteq> off \<Longrightarrow>
      descriptor_get perm off d = Inl (range_error ''Attempted to find a configuration field at an invalid offset'')"
proof -
  note s = traversesD(1) [OF assms(1), of d]
  show "descriptor_get perm (fd_offset f) d = Inr f" if nf: "(n, f) \<in> set d"
  proof (cases "find (\<lambda>(n, g). fd_offset g = fd_offset f) (perm d)")
    case None
    then show ?thesis using nf s by (auto simp: find_None_iff)
  next
    case (Some x)
    then have "x \<in> set d" "fd_offset (snd x) = fd_offset f" using s by (auto simp: find_Some_iff) (metis nth_mem)
    then have "x = (n, f)" using fields_apartD [OF assms(2), of "fst x" "snd x" n f] nf by (simp add: prod_eq_iff)
    then show ?thesis using Some by (simp add: descriptor_get_def)
  qed
  assume "\<forall>x \<in> set d. fd_offset (snd x) \<noteq> off"
  then have "find (\<lambda>(n, g). fd_offset g = off) (perm d) = None" using s by (auto simp: find_None_iff)
  then show "descriptor_get perm off d = Inl (range_error ''Attempted to find a configuration field at an invalid offset'')"
    by (simp add: descriptor_get_def)
qed

section \<open>Access by name\<close>

text \<open>
  C35.  Access to the fields of an object by name, for a descriptor made from a list of fields at different places of the object: a name that is in no field
  is refused by \<open>ConfigGet\<close> and \<open>ConfigSet\<close>.  A name leads to the last field of this name in the list; if its marshaller accepts the text,
  the field reads as what the marshaller writes for the value, all other names read as before, and if the marshaller throws,
  \<open>ConfigSet\<close> throws the same exception.
\<close>

theorem fields_by_name:
  assumes "\<forall>f \<in> set fs. made f" "MakeFields fs = Inr d" "fields_apart d" "\<forall>x \<in> set d. obj (fd_offset (snd x)) \<noteq> None"
  shows "case find (\<lambda>f. fd_name f = Some n) (rev fs) of
      None \<Rightarrow> field_ConfigGet n d obj = Inl name_not_found \<and> field_ConfigSet n text d obj = Inl name_not_found
    | Some f \<Rightarrow>
        (case mb_unmarshal (the (fd_marshaller f)) text of
           Inl e \<Rightarrow> field_ConfigSet n text d obj = Inl e
         | Inr v \<Rightarrow>
             (\<exists>obj'. field_ConfigSet n text d obj = Inr obj' \<and> obj' (fd_offset f) = Some v \<and>
                field_ConfigGet n d obj' = Inr (mb_marshal (the (fd_marshaller f)) v) \<and>
                (\<forall>k. k \<noteq> n \<longrightarrow> field_ConfigGet k d obj' = field_ConfigGet k d obj)))"
proof (cases "find (\<lambda>f. fd_name f = Some n) (rev fs)")
  case None
  then have "map_of d n = None" using MakeFields_result [OF assms(1)] assms(2) by auto
  then show ?thesis using None by (simp add: field_ConfigGet_def field_ConfigSet_def)
next
  case (Some f)
  have des: "describes d" using assms(1,2) by (auto simp: describes_def)
  let ?f = "f\<lparr>fd_type := 0\<rparr>"
  have n: "map_of d n = Some ?f" using MakeFields_result [OF assms(1)] assms(2) Some by auto
  then have nd: "(n, ?f) \<in> set d" by (rule map_of_SomeD)
  obtain mb w where mb: "fd_marshaller f = Some mb" "obj (fd_offset f) = Some w"
    using describesD(2) [OF des nd] assms(4) nd by fastforce
  show ?thesis
  proof (cases "mb_unmarshal mb text")
    case (Inl e)
    then show ?thesis using Some n mb by (simp add: field_ConfigSet_def)
  next
    case (Inr v)
    let ?obj = "obj(fd_offset f \<mapsto> v)"
    have "field_ConfigGet k d ?obj = field_ConfigGet k d obj" if "k \<noteq> n" for k
    proof (cases "map_of d k")
      case (Some g)
      then have "fd_offset g \<noteq> fd_offset f" using fields_apartD [OF assms(3) nd, of k g] map_of_SomeD [OF Some] that by auto
      then show ?thesis using Some by (simp add: field_ConfigGet_def)
    qed (simp add: field_ConfigGet_def)
    then show ?thesis using Some Inr n mb by (simp add: field_ConfigSet_def field_ConfigGet_def)
  qed
qed

text \<open>Examples: boolean fields, one of them declared twice.\<close>

definition bool_marshaller :: "bool marshaller_base" where
  "bool_marshaller = \<lparr>mb_marshal = marshal_bool, mb_unmarshal = unmarshal_bool\<rparr>"

definition ex_fields :: "bool field_descriptor list" where
  "ex_fields = [field_new ''log'' '''' 5 8 False bool_marshaller [],
     field_new ''fast'' '''' 5 0 False bool_marshaller [OtherMetadata 3 1],
     field_new ''log'' ''again'' 5 4 False bool_marshaller [DefaultValue 9 True]]"

definition ex_desc :: "bool config_descriptor" where
  "ex_desc = [(''log'', (ex_fields ! 2)\<lparr>fd_type := 0\<rparr>), (''fast'', (ex_fields ! 1)\<lparr>fd_type := 0\<rparr>)]"

lemma ex_fields_made: "\<forall>f \<in> set ex_fields. made f"
  by (simp add: ex_fields_def)

lemma ex_desc_made: "MakeFields ex_fields = Inr ex_desc"
proof -
  have e: "ex_fields = [ex_fields ! 0, ex_fields ! 1, ex_fields ! 2]" by (simp add: ex_fields_def)
  have m: "made (ex_fields ! 0)" "made (ex_fields ! 1)" "made (ex_fields ! 2)" using ex_fields_made e by (metis list.set_intros)+
  have n: "fd_name (ex_fields ! 0) = Some ''log''" "fd_name (ex_fields ! 1) = Some ''fast''" "fd_name (ex_fields ! 2) = Some ''log''"
    by (simp_all add: ex_fields_def field_new_def)
  note a = field_copy_type(1) [OF m(1)] field_copy_type(1) [OF m(2)] field_copy_type(1) [OF m(3)]
    field_assign_made(1) [OF m(1)] field_assign_made(1) [OF m(2)] field_assign_made(1) [OF m(3)]
  show ?thesis
    by (subst e) (simp only: MakeFields_def make_fields.simps n option.case a, simp add: a field_default_def ex_desc_def)
qed

lemma ex_desc_facts:
  "fields_apart ex_desc" "fd_offset (ex_fields ! 2) = 4" "fd_offset (ex_fields ! 1) = 0" "fd_default (ex_fields ! 2) = Some True" "fd_default (ex_fields ! 1) = Some False"
  "fd_marshaller (ex_fields ! 2) = Some bool_marshaller" "fd_marshaller (ex_fields ! 1) = Some bool_marshaller"
  by (simp_all add: fields_apart_def ex_desc_def ex_fields_def field_new_def HandleMetadata_def)

theorem fields_by_name_witness:
  "\<exists>obj'. field_ConfigSet ''log'' ''true'' ex_desc [0 \<mapsto> False, 4 \<mapsto> False] = Inr obj' \<and> obj' 4 = Some True \<and>
     field_ConfigGet ''log'' ex_desc obj' = Inr ''true'' \<and> field_ConfigGet ''fast'' ex_desc obj' = Inr ''false'' \<and>
     field_ConfigGet ''slow'' ex_desc obj' = Inl name_not_found"
proof -
  let ?obj = "[0 \<mapsto> False, 4 \<mapsto> False]"
  have "\<forall>x \<in> set ex_desc. ?obj (fd_offset (snd x)) \<noteq> None" using ex_desc_facts by (simp add: ex_desc_def del: not_None_eq)
  moreover have "find (\<lambda>f. fd_name f = Some ''log'') (rev ex_fields) = Some (ex_fields ! 2)" by (simp add: ex_fields_def field_new_def)
  ultimately obtain obj' where o: "field_ConfigSet ''log'' ''true'' ex_desc ?obj = Inr obj'" "obj' 4 = Some True"
    "field_ConfigGet ''log'' ex_desc obj' = Inr (marshal_bool True)" "\<forall>k. k \<noteq> ''log'' \<longrightarrow> field_ConfigGet k ex_desc obj' = field_ConfigGet k ex_desc ?obj"
    using fields_by_name [OF ex_fields_made ex_desc_made ex_desc_facts(1), of ?obj "''log''" "''true''"] ex_desc_facts(2,6)
    by (auto simp: bool_marshaller_def unmarshal_bool_def)
  moreover have "field_ConfigGet ''fast'' ex_desc ?obj = Inr ''false''" "field_ConfigGet ''slow'' ex_desc ?obj = Inl name_not_found"
    using ex_desc_facts by (simp_all add: field_ConfigGet_def ex_desc_def bool_marshaller_def marshal_bool_def)
  ultimately show ?thesis by (simp add: marshal_bool_def)
qed

section \<open>Registry\<close>

definition link_all :: "(addr \<times> 'v config_descriptor) list \<Rightarrow> 'v config_registry" where
  "link_all es = fold (\<lambda>(a, d). registry_entry_new a d) es \<lparr>g_pFirstEntry = None, registry_entries = Map.empty\<rparr>"

text \<open>The entries are a chain from the one that was linked last.\<close>

definition registry_links :: "'v config_registry \<Rightarrow> addr \<rightharpoonup> ptr" where
  "registry_links R a = map_option re_pFlink (registry_entries R a)"

lemma link_all_chain:
  assumes "distinct (map fst es)"
  shows "chain (registry_links (link_all es)) (g_pFirstEntry (link_all es)) (rev (map fst es)) None \<and>
    (\<forall>(a, d) \<in> set es. \<exists>e. registry_entries (link_all es) a = Some e \<and> re_descriptor e = d)"
  using assms
proof (induction es rule: rev_induct)
  case (snoc x es)
  obtain a d where x: "x = (a, d)" by fastforce
  let ?R = "link_all es"
  have R: "link_all (es @ [(a, d)]) = ?R\<lparr>g_pFirstEntry := Some a,
      registry_entries := (registry_entries ?R)(a \<mapsto> \<lparr>re_pFlink = g_pFirstEntry ?R, re_descriptor = d\<rparr>)\<rparr>"
    by (simp add: link_all_def registry_entry_new_def registry_Link_def)
  have a: "a \<notin> fst ` set es" using snoc.prems by (simp add: x)
  have upd: "registry_links (link_all (es @ [(a, d)])) = (registry_links ?R)(a \<mapsto> g_pFirstEntry ?R)"
    by (simp add: R registry_links_def fun_eq_iff)
  have "chain (registry_links (link_all (es @ [(a, d)]))) (Some a) (a # rev (map fst es)) None"
    using snoc a unfolding upd by (simp add: x)
  moreover have "\<forall>(b, c) \<in> set (es @ [(a, d)]). \<exists>e. registry_entries (link_all (es @ [(a, d)])) b = Some e \<and> re_descriptor e = c"
    using snoc a by (auto simp: R x rev_image_eqI)
  ultimately show ?case by (simp add: x R)
qed (simp add: link_all_def)

lemma registry_from_chain:
  assumes "chain (registry_links R) p as None"
  shows "registry_from R p = Some (Inr (map (\<lambda>a. re_descriptor (the (registry_entries R a))) as))"
  using assms
proof (induction as arbitrary: p)
  case Nil
  then show ?case by (simp add: registry_from.simps [of R None])
next
  case (Cons a as)
  then obtain q where q: "p = Some a" "registry_links R a = Some q" "chain (registry_links R) q as None"
    by (auto split: option.splits)
  then obtain e where "registry_entries R a = Some e" "q = re_pFlink e" by (auto simp: registry_links_def)
  then show ?case using q Cons.IH [of q] by (simp add: registry_from.simps [of R "Some a"])
qed

text \<open>The registry is traversed from the descriptor that was linked last to the first one.\<close>

lemma registry_descriptors_linked:
  assumes "distinct (map fst es)"
  shows "registry_descriptors (link_all es) = Some (Inr (rev (map snd es)))"
proof -
  note l = link_all_chain [OF assms]
  have "map (\<lambda>a. re_descriptor (the (registry_entries (link_all es) a))) (rev (map fst es)) = rev (map snd es)"
    using l [THEN conjunct2] by (force simp: rev_map)
  then show ?thesis using registry_from_chain [OF l [THEN conjunct1]] by (simp add: registry_descriptors_def)
qed

section \<open>Defaults\<close>

lemma mapR_all:
  assumes "\<forall>x \<in> set xs. f x = Inr (g x)"
  shows "mapR f xs = Inr (map g xs)"
  using assms by (induction xs) auto

lemma prepopulate_last:
  "map_of (rev fs) n = Some (Some s) \<Longrightarrow> \<exists>e. prepopulate fs cfg n = Some e \<and> evalue e = s"
  "n \<notin> fst ` set fs \<Longrightarrow> prepopulate fs cfg n = cfg n"
proof (induction fs arbitrary: cfg)
  case (Cons x fs)
  obtain k t where x: "x = (k, t)" by fastforce
  {
    case 1
    show ?case
    proof (cases "map_of (rev fs) n")
      case None
      then have "n \<notin> fst ` set fs" by (simp add: map_of_eq_None_iff)
      moreover have "k = n" "t = Some s" using 1 None by (simp_all add: x map_add_def split: if_splits)
      ultimately show ?thesis using Cons.IH(2) by (simp add: x Let_def)
    next
      case (Some u)
      then show ?thesis using Cons.IH(1) 1 by (simp add: x Let_def map_add_def)
    qed
  next
    case 2
    then show ?case using Cons.IH(2) by (simp add: x Let_def)
  }
qed simp_all

definition text_of :: "'v field_descriptor \<Rightarrow> string" where
  "text_of f = mb_marshal (the (fd_marshaller f)) (the (fd_default f))"

lemma default_text_made: "describes d \<Longrightarrow> x \<in> set d \<Longrightarrow> default_text x = Inr (fst x, Some (text_of (snd x)))"
  using describesD(2) [of d "fst x" "snd x"] by (cases x) (auto simp: default_text_def text_of_def)

text \<open>
  A root manager that is made from the registry: a name has the default of the descriptor that was linked first among those that have
  the name.
\<close>

lemma root_manager_defaults:
  assumes "traverses perm" "distinct (map fst (es1 @ (a, d) # es2))" "\<forall>x \<in> set (es1 @ (a, d) # es2). describes (snd x)"
    and "\<forall>x \<in> set es1. fst ` set (snd x) \<inter> fst ` set d = {}"
  shows "\<exists>fs. root_manager_new perm (link_all (es1 @ (a, d) # es2)) st = Some (Inr (add_manager fs None st)) \<and>
    (\<forall>(n, f) \<in> set d. map_of (rev fs) n = Some (Some (text_of f)))"
proof -
  let ?es = "es1 @ (a, d) # es2" and ?t = "\<lambda>x. (fst x, Some (text_of (snd x)))"
  define fs where "fs = map ?t (concat (map perm (rev (map snd ?es))))"
  have "mapR default_text (concat (map perm (rev (map snd ?es)))) = Inr fs"
  proof (unfold fs_def, rule mapR_all, rule ballI)
    fix x
    assume "x \<in> set (concat (map perm (rev (map snd ?es))))"
    then have "\<exists>y \<in> set ?es. x \<in> set (snd y)" using traversesD(1) [OF assms(1)] by auto
    then show "default_text x = Inr (?t x)" using default_text_made assms(3) by blast
  qed
  then have "root_manager_new perm (link_all ?es) st = Some (Inr (add_manager fs None st))"
    unfolding root_manager_new_def registry_descriptors_linked [OF assms(2)] by simp
  moreover have "map_of (rev fs) n = Some (Some (text_of f))" if nf: "(n, f) \<in> set d" for n f
  proof -
    define early where "early = map ?t (concat (map perm (rev (map snd es1))))"
    define late where "late = map ?t (concat (map perm (rev (map snd es2))))"
    have f: "fs = late @ map ?t (perm d) @ early" by (simp add: fs_def early_def late_def)
    have "fst ` set early = (\<Union>x \<in> set es1. fst ` set (snd x))" using traversesD(1) [OF assms(1)] by (simp add: early_def image_UN image_image)
    moreover have "n \<in> fst ` set d" using nf by force
    ultimately have "n \<notin> fst ` set early" using assms(4) by blast
    then have "map_of (rev early) n = None" by (simp add: map_of_eq_None_iff)
    moreover have "distinct (map fst (rev (map ?t (perm d))))"
      using traversesD(2) [OF assms(1), of fst d] describesD(1) [of d] assms(3) by (simp add: rev_map comp_def flip: rev_map)
    moreover have "(n, Some (text_of f)) \<in> set (rev (map ?t (perm d)))" using nf traversesD(1) [OF assms(1)] by force
    ultimately show ?thesis by (simp add: f map_add_def)
  qed
  ultimately show ?thesis by blast
qed

definition reads_back :: "'v field_descriptor \<Rightarrow> bool" where
  "reads_back f \<longleftrightarrow> (\<forall>mb v. fd_marshaller f = Some mb \<longrightarrow> fd_default f = Some v \<longrightarrow> mb_unmarshal mb (mb_marshal mb v) = Inr v)"

text \<open>Fields with a marshaller that keeps the contract of \<open>marshalling\<close> read their defaults back.\<close>

lemma marshalling_reads_back:
  assumes "marshalling marshal unmarshal"
  shows "reads_back (field_new name desc ty offset init \<lparr>mb_marshal = marshal, mb_unmarshal = unmarshal\<rparr> ms)"
  using marshalling.unmarshal_marshal [OF assms] by (simp add: reads_back_def field_new_def)

lemma bound_fields:
  assumes "traverses perm" "describes d"
  shows "\<exists>fds. mapR (bound_field base) (perm d) = Inr fds \<and> map pField fds = map (\<lambda>x. base + fd_offset (snd x)) (perm d) \<and>
    (\<forall>fd \<in> set fds. \<exists>n f mb. (n, f) \<in> set d \<and> fd_marshaller f = Some mb \<and> fname fd = n \<and> pField fd = base + fd_offset f \<and> funmarshal fd = mb_unmarshal mb) \<and>
    (\<forall>(n, f) \<in> set d. \<exists>fd \<in> set fds. fname fd = n \<and> pField fd = base + fd_offset f \<and> funmarshal fd = mb_unmarshal (the (fd_marshaller f)))"
proof -
  define b where "b = (\<lambda>x :: string \<times> 'a field_descriptor. \<lparr>fname = fst x, pField = base + fd_offset (snd x), funmarshal = mb_unmarshal (the (fd_marshaller (snd x))),
    fmetadata = map metadata_id (the (fd_metadata (snd x)))\<rparr>)"
  note s = traversesD(1) [OF assms(1), of d]
  have "bound_field base x = Inr (b x)" if "x \<in> set d" for x
    using describesD(2) [OF assms(2), of "fst x" "snd x"] that by (cases x) (auto simp: bound_field_def b_def)
  then have "mapR (bound_field base) (perm d) = Inr (map b (perm d))" using s by (intro mapR_all) simp
  moreover have "\<exists>n f mb. (n, f) \<in> set d \<and> fd_marshaller f = Some mb \<and> fname (b x) = n \<and> pField (b x) = base + fd_offset f \<and> funmarshal (b x) = mb_unmarshal mb"
    if "x \<in> set d" for x
    using describesD(2) [OF assms(2), of "fst x" "snd x"] that by (cases x) (fastforce simp: b_def)
  ultimately show ?thesis using s by (intro exI [of _ "map b (perm d)"]) (force simp: b_def)
qed

text \<open>A manager that has just been made.\<close>

lemma fresh_root:
  fixes fs
  defines "st \<equiv> add_manager fs None (no_managers :: 'v ConfigSystem)"
  shows "config_reach ok st" "map_of (rev fs) n = Some (Some s) \<Longrightarrow> ConfigGet st 0 n = Some s" "\<not> handles st k j h"
proof -
  show r: "config_reach ok st" for ok unfolding st_def by (intro reach_new reach_none) simp
  have m: "managers st k = manager_new (if k = 0 then fs else []) None" for k by (simp add: st_def add_manager_def no_managers_def)
  show "ConfigGet st 0 n = Some s" if last: "map_of (rev fs) n = Some (Some s)"
  proof -
    obtain e where "find_entry st 0 n = Some e" "evalue e = s"
      using prepopulate_last(1) [OF last, of Map.empty] by (auto simp: find_entry_def m manager_new_def)
    then show ?thesis using ConfigGet_entry [OF config_reach_invD [OF r], of 0 n] by (simp add: entry_of_find)
  qed
  show "\<not> handles st k j h"
  proof (cases "find_entry st k j")
    case (Some e)
    then have "onChanged e = []" using m [of k] by (auto simp only: find_entry_def dest: manager_new_entries)
    then show ?thesis using Some by (simp add: entry_of_def)
  qed (simp add: entry_of_def entry_new_def)
qed

text \<open>
  C34.  The descriptors of a program are linked into the registry, in any order, and a root manager is made; \<open>d\<close> is a descriptor whose fields are at
  different places of the object and whose names are in no descriptor that was linked before it, and the default values of its fields are read
  back from their texts.  Then registering an object with the descriptor \<open>d\<close> succeeds and gives each of its fields the default value, in
  whatever order the maps of fields are traversed.
\<close>

theorem registered_object_has_defaults:
  assumes "traverses perm" "distinct (map fst (es1 @ (a, d) # es2))" "\<forall>x \<in> set (es1 @ (a, d) # es2). describes (snd x)"
    and "\<forall>x \<in> set es1. fst ` set (snd x) \<inter> fst ` set d = {}" "fields_apart d" "\<forall>x \<in> set d. reads_back (snd x)"
  shows "\<exists>st st'. root_manager_new perm (link_all (es1 @ (a, d) # es2)) no_managers = Some (Inr st) \<and>
    Register_object perm 0 base d st = Some (st', Inr ()) \<and>
    (\<forall>(n, f) \<in> set d. fd_default f \<noteq> None \<and> cells st' (base + fd_offset f) = fd_default f \<and> ConfigGet st' 0 n = Some (text_of f))"
proof -
  obtain fs where fs: "root_manager_new perm (link_all (es1 @ (a, d) # es2)) no_managers = Some (Inr (add_manager fs None no_managers))"
    "\<forall>(n, f) \<in> set d. map_of (rev fs) n = Some (Some (text_of f))"
    using root_manager_defaults [OF assms(1-4)] by blast
  define st where "st = add_manager fs None (no_managers :: 'a ConfigSystem)"
  define ok where "ok = (\<lambda>n s. ConfigGet st 0 n = Some s)"
  note root = fresh_root [where fs = fs and 'v = 'a, folded st_def]
  have get: "ConfigGet st 0 n = Some (text_of f)" if nf: "(n, f) \<in> set d" for n f
    using fs(2) nf by (intro root(2)) auto
  have des: "describes d" using assms(3) by simp
  have rb: "\<exists>v mb. fd_default f = Some v \<and> fd_marshaller f = Some mb \<and> mb_unmarshal mb (text_of f) = Inr v" if "(n, f) \<in> set d" for n f
    using describesD(2) [OF des that] assms(6) that by (fastforce simp: reads_back_def text_of_def)
  obtain fds where fds: "mapR (bound_field base) (perm d) = Inr fds" "map pField fds = map (\<lambda>x. base + fd_offset (snd x)) (perm d)"
    "\<forall>fd \<in> set fds. \<exists>n f mb. (n, f) \<in> set d \<and> fd_marshaller f = Some mb \<and> fname fd = n \<and> pField fd = base + fd_offset f \<and> funmarshal fd = mb_unmarshal mb"
    "\<forall>(n, f) \<in> set d. \<exists>fd \<in> set fds. fname fd = n \<and> pField fd = base + fd_offset f \<and> funmarshal fd = mb_unmarshal (the (fd_marshaller f))"
    using bound_fields [OF assms(1) des] by blast
  have "distinct (map (\<lambda>x. base + fd_offset (snd x)) (perm d))"
    using assms(5) traversesD(2) [OF assms(1), of "\<lambda>x. base + fd_offset (snd x)" d] by (simp add: fields_apart_def distinct_map inj_on_def)
  then have dist: "distinct (map pField fds)" using fds(2) by simp
  have ok: "field_ok ok st 0 fd" if fd: "fd \<in> set fds" for fd
  proof -
    obtain n f mb where f: "(n, f) \<in> set d" "fd_marshaller f = Some mb" "fname fd = n" "funmarshal fd = mb_unmarshal mb" using fds(3) fd by blast
    then show ?thesis using get [OF f(1)] rb [OF f(1)] root(3) by (auto simp: field_ok_def ok_def)
  qed
  obtain st' where st': "Register 0 fds st = Some (st', Inr ())" "cfg_inv ok st'" "overrides_ext st st'"
    "\<forall>fd \<in> set fds. handles st' 0 (fname fd) (FieldHandler (funmarshal fd) (pField fd))"
    using Register_inv [of ok st fds 0] config_reach_inv [OF root(1)] ok dist by blast
  have "fd_default f \<noteq> None \<and> cells st' (base + fd_offset f) = fd_default f \<and> ConfigGet st' 0 n = Some (text_of f)" if nf: "(n, f) \<in> set d" for n f
  proof -
    have g: "ConfigGet st' 0 n = Some (text_of f)" using ConfigGet_ext [OF config_reach_invD [OF root(1)] st'(2,3)] get [OF nf] by simp
    obtain v mb where v: "fd_default f = Some v" "fd_marshaller f = Some mb" "mb_unmarshal mb (text_of f) = Inr v" using rb [OF nf] by blast
    have h: "handles st' 0 n (FieldHandler (mb_unmarshal mb) (base + fd_offset f))" using fds(4) st'(4) nf v(2) by fastforce
    then have "find_entry st' 0 n \<noteq> None" by (cases "find_entry st' 0 n") (simp_all add: entry_of_def entry_new_def)
    then have "evalue (entry_of st' 0 n) = text_of f" using ConfigGet_entry [OF st'(2)] g by simp
    then show ?thesis using cfg_syncD [OF st'(2) h] v g by (simp add: synced_def)
  qed
  then show ?thesis using fs(1) fds(1) st'(1) unfolding st_def [symmetric] by (intro exI [of _ st] exI [of _ st']) (auto simp: Register_object_def)
qed

text \<open>The example with a second descriptor that has one of the names with another default and is linked later.\<close>

definition ex_late :: "bool config_descriptor" where
  "ex_late = [(''log'', (field_new ''log'' '''' 5 0 False bool_marshaller [])\<lparr>fd_type := 0\<rparr>)]"

lemma ex_late_made: "MakeFields [field_new ''log'' '''' 5 0 False bool_marshaller []] = Inr ex_late"
  by (simp add: MakeFields_def ex_late_def field_new_def field_copy_def field_assign_def field_default_def)

theorem registered_object_has_defaults_witness:
  "\<exists>st st'. root_manager_new rev (link_all [(1, ex_desc), (2, ex_late)]) no_managers = Some (Inr st) \<and>
     Register_object rev 0 100 ex_desc st = Some (st', Inr ()) \<and> cells st' 100 = Some False \<and> cells st' 104 = Some True"
proof -
  have "describes ex_desc" "describes ex_late"
    using ex_fields_made ex_desc_made ex_late_made made_new unfolding describes_def by (blast, metis empty_iff list.set(1) set_ConsD)
  moreover have "traverses rev" by (simp add: traverses_def)
  moreover have "\<forall>x \<in> set ex_desc. reads_back (snd x)"
    using ex_desc_facts bool_m.unmarshal_marshal by (simp add: ex_desc_def reads_back_def bool_marshaller_def)
  ultimately obtain st st' where "root_manager_new rev (link_all [(1, ex_desc), (2, ex_late)]) no_managers = Some (Inr st)"
    "Register_object rev 0 100 ex_desc st = Some (st', Inr ())"
    "\<forall>(n, f) \<in> set ex_desc. fd_default f \<noteq> None \<and> cells st' (100 + fd_offset f) = fd_default f \<and> ConfigGet st' 0 n = Some (text_of f)"
    using registered_object_has_defaults [of rev "[]" 1 ex_desc "[(2, ex_late)]" 100] ex_desc_facts(1) by auto
  then show ?thesis using ex_desc_facts by (auto simp: ex_desc_def)
qed

end
