(* ===== verification/Packet_Graph.thy ===== *)
theory Packet_Graph
  imports Packet_Factory_Props Auto_Packet_Props Marshaller
begin

text \<open>
  The graph of deliveries (\<open>AutoPacketGraph.{h,cpp}\<close>): one edge for each argument of each subscriber of the packet factory, with the number of
  packets in which it was delivered, counted when a packet is torn down, and written in the format of graphviz.

  The map from edges to counts is an association list; its order stands for the order of traversal.  \<open>autoType\<close> is \<open>CoreContext::GetAutoTypeId\<close>
  of the context, which gives the type of the object of a filter and throws for an object that is not a member (\<open>GetAutoTypeId\<close> in
  \<open>Type_Memo\<close>), and \<open>graphType\<close> the identifier of \<open>AutoPacketGraph\<close>.
\<close>

section \<open>State\<close>

datatype ArgType = ArgInput | ArgOutput | ArgRvalue

record DeliveryEdge =
  type_info :: auto_id
  edge_descriptor :: AutoFilterDescriptor
  edge_arg_type :: ArgType

definition edge_eq :: "DeliveryEdge \<Rightarrow> DeliveryEdge \<Rightarrow> bool" where
  "edge_eq e rhs \<longleftrightarrow>
     type_info e = type_info rhs \<and> descriptor_eq (edge_descriptor e) (edge_descriptor rhs) \<and> edge_arg_type e = edge_arg_type rhs"

definition mk_edge :: "auto_id \<Rightarrow> 'a AutoFilterDescriptor_scheme \<Rightarrow> ArgType \<Rightarrow> DeliveryEdge" where
  "mk_edge i d t = \<lparr>type_info = i, edge_descriptor = AutoFilterDescriptor.truncate d, edge_arg_type = t\<rparr>"

type_synonym delivery_graph = "(DeliveryEdge \<times> 64 word) list"

section \<open>Operations\<close>

definition arg_type_of :: "AutoFilterArgument \<Rightarrow> ArgType" where
  "arg_type_of a = (if is_rvalue a then ArgRvalue else if is_input a then ArgInput else ArgOutput)"

definition add_edge :: "DeliveryEdge \<Rightarrow> delivery_graph \<Rightarrow> delivery_graph" where
  "add_edge e g = (if list_ex (\<lambda>x. edge_eq (fst x) e) g then g else g @ [(e, 0)])"

definition load_argument ::
  "(ptr \<Rightarrow> auto_id result) \<Rightarrow> auto_id \<Rightarrow> AutoFilterDescriptor \<Rightarrow> AutoFilterArgument \<Rightarrow> delivery_graph \<Rightarrow> delivery_graph exn" where
  "load_argument autoType graphType d a g =
     (case autoType (m_autoFilter d) of
        Inl e \<Rightarrow> (Some e, g)
      | Inr descType \<Rightarrow> (None, if descType = graphType then g else add_edge (mk_edge (arg_id a) d (arg_type_of a)) g))"

definition LoadEdges :: "(ptr \<Rightarrow> auto_id result) \<Rightarrow> auto_id \<Rightarrow> PacketFactory \<Rightarrow> delivery_graph \<Rightarrow> delivery_graph exn" where
  "LoadEdges autoType graphType fac g =
     foldX (\<lambda>d. foldX (load_argument autoType graphType d) (m_pArgs d)) (AppendAutoFiltersTo [] fac) g"

text \<open>\<open>RecordDelivery\<close>: an edge that is not in the map is written past the end of the map.\<close>

fun RecordDelivery :: "DeliveryEdge \<Rightarrow> delivery_graph \<Rightarrow> delivery_graph result" where
  "RecordDelivery e [] = Inl Undefined_behaviour"
| "RecordDelivery e ((f, n) # g) =
     (if edge_eq f e then Inr ((f, n + 1) # g) else bindR (RecordDelivery e g) (\<lambda>g'. Inr ((f, n) # g')))"

text \<open>One modifier, publisher or subscriber of a decoration of the type \<open>i\<close>.\<close>

definition record_counter :: "auto_id \<Rightarrow> ArgType \<Rightarrow> AutoPacket \<Rightarrow> addr \<Rightarrow> delivery_graph \<Rightarrow> delivery_graph result" where
  "record_counter i t p c g =
     (case m_counters p c of
        None \<Rightarrow> Inl Undefined_behaviour
      | Some s \<Rightarrow> if remaining s = 0 then RecordDelivery (mk_edge i s t) g else Inr g)"

definition record_subscriber ::
  "(ptr \<Rightarrow> auto_id result) \<Rightarrow> auto_id \<Rightarrow> auto_id \<Rightarrow> AutoPacket \<Rightarrow> addr \<Rightarrow> delivery_graph \<Rightarrow> delivery_graph result" where
  "record_subscriber autoType graphType i p c g =
     (case m_counters p c of
        None \<Rightarrow> Inl Undefined_behaviour
      | Some s \<Rightarrow>
          bindR (autoType (m_autoFilter s)) (\<lambda>descType. if descType = graphType then Inr g else record_counter i ArgInput p c g))"

definition record_decoration ::
  "(ptr \<Rightarrow> auto_id result) \<Rightarrow> auto_id \<Rightarrow> AutoPacket \<Rightarrow> auto_id \<Rightarrow> delivery_graph \<Rightarrow> delivery_graph result" where
  "record_decoration autoType graphType p i g =
     (let d = entry i p in
      bindR (foldR (record_counter i ArgRvalue p) (map mod_satCounter (m_modifiers d)) g) (\<lambda>g1.
      bindR (foldR (record_counter i ArgOutput p) (m_publishers d) g1) (\<lambda>g2.
        foldR (record_subscriber autoType graphType i p) (map sub_satCounter (m_subscribers d)) g2)))"

text \<open>The teardown listener that \<open>AutoFilter\<close> leaves with a packet; \<open>keys\<close> are the decorations in the order of traversal.\<close>

definition record_packet ::
  "(ptr \<Rightarrow> auto_id result) \<Rightarrow> auto_id \<Rightarrow> auto_id list \<Rightarrow> AutoPacket \<Rightarrow> delivery_graph \<Rightarrow> delivery_graph result" where
  "record_packet autoType graphType keys p g = foldR (record_decoration autoType graphType p) keys g"

subsection \<open>Writing\<close>

definition quoted :: "string \<Rightarrow> string" where
  "quoted s = CHR 0x22 # s @ [CHR 0x22]"

definition newline :: string where
  "newline = [CHR 0x0A]"

record gv_state =
  gv_file :: string
  gv_typeNames :: "string list"
  gv_descriptorNames :: "string list"

definition gv_label :: "64 word \<Rightarrow> string" where
  "gv_label n = ''label='' @ quoted (marshal_unsigned n)"

definition gv_edge :: "string \<Rightarrow> string \<Rightarrow> ArgType \<Rightarrow> 64 word \<Rightarrow> bool \<Rightarrow> string" where
  "gv_edge typeName descriptorName t n numPackets =
     (case t of
        ArgRvalue \<Rightarrow>
          ''  '' @ quoted typeName @ '' -> '' @ quoted descriptorName @ '' [dir=both'' @ (if numPackets then '', '' @ gv_label n else []) @ ''];''
      | ArgInput \<Rightarrow> ''  '' @ quoted typeName @ '' -> '' @ quoted descriptorName @ (if numPackets then '' ['' @ gv_label n @ ''];'' else [])
      | ArgOutput \<Rightarrow> ''  '' @ quoted descriptorName @ '' -> '' @ quoted typeName @ (if numPackets then '' ['' @ gv_label n @ ''];'' else []))
     @ newline"

definition write_edge ::
  "(ptr \<Rightarrow> auto_id result) \<Rightarrow> auto_id \<Rightarrow> (auto_id \<Rightarrow> string) \<Rightarrow> bool \<Rightarrow> DeliveryEdge \<times> 64 word \<Rightarrow> gv_state \<Rightarrow> gv_state exn" where
  "write_edge autoType graphType demangle numPackets x w =
     (case x of (e, n) \<Rightarrow>
        (case autoType (m_autoFilter (edge_descriptor e)) of
           Inl exc \<Rightarrow> (Some exc, w)
         | Inr descType \<Rightarrow>
             if descType = graphType then (None, w)
             else (None, \<lparr>gv_file = gv_file w @ gv_edge (demangle (type_info e)) (demangle descType) (edge_arg_type e) n numPackets,
                          gv_typeNames = List.insert (demangle (type_info e)) (gv_typeNames w),
                          gv_descriptorNames = List.insert (demangle descType) (gv_descriptorNames w)\<rparr>)))"

definition gv_shape :: "string \<Rightarrow> string \<Rightarrow> string" where
  "gv_shape shape name = ''  '' @ quoted name @ '' [shape='' @ shape @ ''];'' @ newline"

text \<open>
  \<open>WriteGV\<close>: the exception, what it returns and what it has written.  \<open>good\<close> says whether the file can be opened, \<open>sigil\<close> is the name
  of the context, and the names are written in the order in which the sets of names are traversed.
\<close>

definition WriteGV ::
  "(ptr \<Rightarrow> auto_id result) \<Rightarrow> auto_id \<Rightarrow> (auto_id \<Rightarrow> string) \<Rightarrow> bool \<Rightarrow> string \<Rightarrow> bool \<Rightarrow> delivery_graph \<Rightarrow> aw_error option \<times> bool \<times> string" where
  "WriteGV autoType graphType demangle good sigil numPackets g =
     (if \<not> good then (None, False, [])
      else
        case foldX (write_edge autoType graphType demangle numPackets) g
          \<lparr>gv_file = ''digraph '' @ quoted (sigil @ '' context'') @ '' {'' @ newline, gv_typeNames = [], gv_descriptorNames = []\<rparr> of
          (Some e, w) \<Rightarrow> (Some e, False, gv_file w)
        | (None, w) \<Rightarrow>
            (None, True, gv_file w @ newline @ concat (map (gv_shape ''box'') (gv_typeNames w)) @
               concat (map (gv_shape ''ellipse'') (gv_descriptorNames w)) @ ''}'' @ newline))"

section \<open>Counting deliveries\<close>

lemma edge_eq_equiv: "edge_eq e e" "edge_eq e f \<Longrightarrow> edge_eq f e" "edge_eq e f \<Longrightarrow> edge_eq f h \<Longrightarrow> edge_eq e h"
  by (simp_all add: edge_eq_def descriptor_eq_def)

lemma edge_eq_mk: "descriptor_eq d f \<Longrightarrow> edge_eq (mk_edge i d t) (mk_edge i f t)"
  by (simp add: edge_eq_def mk_edge_def descriptor_eq_def AutoFilterDescriptor.truncate_def)

definition graph_ok :: "delivery_graph \<Rightarrow> bool" where
  "graph_ok g \<longleftrightarrow> sorted_wrt (\<lambda>e f. \<not> edge_eq e f) (map fst g)"

definition has_edge :: "DeliveryEdge \<Rightarrow> delivery_graph \<Rightarrow> bool" where
  "has_edge e g \<longleftrightarrow> (\<exists>f \<in> fst ` set g. edge_eq f e)"

lemma has_edge_eq: "has_edge e g \<Longrightarrow> edge_eq e f \<Longrightarrow> has_edge f g"
  unfolding has_edge_def using edge_eq_equiv(3) by blast

text \<open>The graph after the deliveries of a list of edges.\<close>

definition bumps :: "DeliveryEdge list \<Rightarrow> delivery_graph \<Rightarrow> delivery_graph" where
  "bumps es g = map (\<lambda>(f, n). (f, n + of_nat (length (filter (edge_eq f) es)))) g"

lemma bumps_simps [simp]: "bumps [] g = g" "bumps fs (bumps es g) = bumps (es @ fs) g" "map fst (bumps es g) = map fst g"
  by (simp_all add: bumps_def case_prod_beta comp_def add.assoc)

lemma bumps_keeps [simp]: "graph_ok (bumps es g) = graph_ok g" "has_edge e (bumps es g) = has_edge e g"
  using bumps_simps(3) [of es g] by (simp_all add: graph_ok_def has_edge_def flip: set_map)

lemma RecordDelivery_bumps:
  assumes "graph_ok g" "has_edge e g"
  shows "RecordDelivery e g = Inr (bumps [e] g)"
  using assms
proof (induction g)
  case (Cons x g)
  obtain f n where x: "x = (f, n)" by fastforce
  show ?case
  proof (cases "edge_eq f e")
    case True
    have "\<not> edge_eq h e" if "(h, m) \<in> set g" for h m
    proof
      assume "edge_eq h e"
      then have "edge_eq f h" using True edge_eq_equiv by blast
      then show False using Cons.prems(1) that by (force simp: graph_ok_def x)
    qed
    then have "bumps [e] g = g" by (auto simp: bumps_def intro!: map_idI)
    then show ?thesis using True by (simp add: x bumps_def)
  next
    case False
    then have "has_edge e g" "graph_ok g" using Cons.prems by (auto simp: has_edge_def graph_ok_def x)
    then show ?thesis using Cons.IH False by (simp add: x bumps_def)
  qed
qed (simp add: has_edge_def)

lemma foldR_bumps:
  assumes "\<And>x g'. x \<in> set xs \<Longrightarrow> map fst g' = map fst g \<Longrightarrow> f x g' = Inr (bumps (h x) g')"
  shows "foldR f xs g = Inr (bumps (concat (map h xs)) g)"
  using assms
proof (induction xs arbitrary: g)
  case (Cons x xs)
  have "foldR f xs (bumps (h x) g) = Inr (bumps (concat (map h xs)) (bumps (h x) g))" using Cons.prems by (intro Cons.IH) simp_all
  then show ?case using Cons.prems [of x g] by simp
qed simp

text \<open>What a decoration of a packet delivers, and what must be there to record it.\<close>

definition delivered :: "auto_id \<Rightarrow> ArgType \<Rightarrow> AutoPacket \<Rightarrow> addr \<Rightarrow> DeliveryEdge list" where
  "delivered i t p c = (case m_counters p c of Some s \<Rightarrow> if remaining s = 0 then [mk_edge i s t] else [] | None \<Rightarrow> [])"

definition of_graph :: "(ptr \<Rightarrow> auto_id result) \<Rightarrow> auto_id \<Rightarrow> AutoPacket \<Rightarrow> addr \<Rightarrow> bool" where
  "of_graph autoType graphType p c \<longleftrightarrow> (case m_counters p c of Some s \<Rightarrow> autoType (m_autoFilter s) = Inr graphType | None \<Rightarrow> False)"

definition deliveries :: "(ptr \<Rightarrow> auto_id result) \<Rightarrow> auto_id \<Rightarrow> AutoPacket \<Rightarrow> auto_id \<Rightarrow> DeliveryEdge list" where
  "deliveries autoType graphType p i =
     (let d = entry i p in
      concat (map (delivered i ArgRvalue p) (map mod_satCounter (m_modifiers d))) @
      concat (map (delivered i ArgOutput p) (m_publishers d)) @
      concat (map (delivered i ArgInput p) (filter (\<lambda>c. \<not> of_graph autoType graphType p c) (map sub_satCounter (m_subscribers d)))))"

lemma record_counter_bumps:
  assumes "graph_ok g" "m_counters p c = Some s" "has_edge (mk_edge i s t) g"
  shows "record_counter i t p c g = Inr (bumps (delivered i t p c) g)"
  using assms RecordDelivery_bumps [of g "mk_edge i s t"] by (simp add: record_counter_def delivered_def)

text \<open>\<open>known g d\<close>: the graph has the edges of all the arguments of a filter that is not its own, and the filter belongs to a member.\<close>

definition known :: "(ptr \<Rightarrow> auto_id result) \<Rightarrow> auto_id \<Rightarrow> delivery_graph \<Rightarrow> AutoFilterDescriptor \<Rightarrow> bool" where
  "known autoType graphType g d \<longleftrightarrow>
     (\<forall>a \<in> set (m_pArgs d). \<exists>t. autoType (m_autoFilter d) = Inr t \<and>
        (t = graphType \<or> has_edge (mk_edge (arg_id a) d (arg_type_of a)) g))"

lemma add_edge_cases: "add_edge e g = (if has_edge e g then g else g @ [(e, 0)])"
  by (simp add: add_edge_def has_edge_def list_ex_iff)

lemma has_edge_append: "has_edge e (g @ h) \<longleftrightarrow> has_edge e g \<or> has_edge e h" "has_edge e [(e, n)]"
  by (simp_all add: has_edge_def image_Un bex_Un edge_eq_equiv(1))

lemma has_edge_add: "has_edge e (add_edge e g)" "has_edge f g \<Longrightarrow> has_edge f (add_edge e g)"
  by (simp_all add: add_edge_cases has_edge_append)

lemma graph_ok_add:
  assumes "graph_ok g"
  shows "graph_ok (add_edge e g)"
proof (cases "has_edge e g")
  case False
  then have "\<forall>f \<in> set (map fst g). \<not> edge_eq f e" unfolding has_edge_def set_map by blast
  then show ?thesis using False assms unfolding graph_ok_def add_edge_cases by (simp del: set_map add: sorted_wrt_append)
qed (use assms in \<open>simp add: add_edge_cases\<close>)

lemma foldX_collects:
  assumes "foldX f xs s = (None, t)" "I s" "\<And>x s s'. x \<in> set xs \<Longrightarrow> I s \<Longrightarrow> f x s = (None, s') \<Longrightarrow> I s' \<and> Q x s'"
    and "\<And>x y s s'. x \<in> set xs \<Longrightarrow> Q y s \<Longrightarrow> f x s = (None, s') \<Longrightarrow> Q y s'"
  shows "I t \<and> (\<forall>x \<in> set xs. Q x t) \<and> (\<forall>y. Q y s \<longrightarrow> Q y t)"
  using assms
proof (induction xs arbitrary: s)
  case (Cons x xs)
  obtain s1 where s1: "f x s = (None, s1)" "foldX f xs s1 = (None, t)" using Cons.prems(1) by (auto simp: seqX_None_iff)
  have x: "I s1" "Q x s1" using Cons.prems(3) [OF _ Cons.prems(2) s1(1)] by simp_all
  have keep: "Q y s1" if "Q y s" for y using Cons.prems(4) [OF _ that s1(1)] by simp
  have "I t \<and> (\<forall>x \<in> set xs. Q x t) \<and> (\<forall>y. Q y s1 \<longrightarrow> Q y t)"
  proof (rule Cons.IH [OF s1(2) x(1)])
    show "I u' \<and> Q y u'" if "y \<in> set xs" "I u" "f y u = (None, u')" for y u u'
      by (rule Cons.prems(3) [OF _ that(2,3)]) (use that(1) in simp)
    show "Q y u'" if "z \<in> set xs" "Q y u" "f z u = (None, u')" for z y u u'
      by (rule Cons.prems(4) [OF _ that(2,3)]) (use that(1) in simp)
  qed
  then show ?case using x(2) keep by simp
qed simp

lemma LoadEdges_known:
  assumes "LoadEdges autoType graphType fac g0 = (None, g)" "graph_ok g0"
  shows "graph_ok g \<and> (\<forall>d \<in> set (m_autoFilters fac). known autoType graphType g d)"
proof -
  let ?arg = "\<lambda>d a g. \<exists>t. autoType (m_autoFilter d) = Inr t \<and> (t = graphType \<or> has_edge (mk_edge (arg_id a) d (arg_type_of a)) g)"
  have step: "(graph_ok g1 \<longrightarrow> graph_ok g2) \<and> ?arg d a g2 \<and> (\<forall>e. has_edge e g1 \<longrightarrow> has_edge e g2)"
    if "load_argument autoType graphType d a g1 = (None, g2)" for d a g1 g2
    using that has_edge_add graph_ok_add by (cases "autoType (m_autoFilter d)") (auto simp: load_argument_def split: if_splits)
  have outer: "(graph_ok g1 \<longrightarrow> graph_ok g2) \<and> known autoType graphType g2 d \<and> (\<forall>e. has_edge e g1 \<longrightarrow> has_edge e g2)"
    if one: "foldX (load_argument autoType graphType d) (m_pArgs d) g1 = (None, g2)" for d g1 g2
  proof -
    have "known autoType graphType g2 d"
      using foldX_collects [OF one, where I = "\<lambda>_. True" and Q = "?arg d"] step unfolding known_def by blast
    moreover have "\<forall>e. has_edge e g1 \<longrightarrow> has_edge e g2"
      using foldX_invariant [where f = "load_argument autoType graphType d" and I = "\<lambda>g. \<forall>e. has_edge e g1 \<longrightarrow> has_edge e g" and s = g1 and xs = "m_pArgs d"] one has_edge_add(2)
      by (auto simp: load_argument_def split: sum.splits)
    moreover have "graph_ok g1 \<longrightarrow> graph_ok g2"
      using foldX_invariant [where f = "load_argument autoType graphType d" and I = graph_ok and s = g1 and xs = "m_pArgs d"] one graph_ok_add
      by (auto simp: load_argument_def split: sum.splits)
    ultimately show ?thesis by blast
  qed
  have keeps: "known autoType graphType g2 e" if "known autoType graphType g1 e" "\<forall>e. has_edge e g1 \<longrightarrow> has_edge e g2" for g1 g2 e
    using that unfolding known_def by blast
  have "graph_ok g \<and> (\<forall>d \<in> set (AppendAutoFiltersTo [] fac). known autoType graphType g d) \<and>
      (\<forall>d. known autoType graphType g0 d \<longrightarrow> known autoType graphType g d)"
  proof (rule foldX_collects [where Q = "\<lambda>d g. known autoType graphType g d" and I = graph_ok, OF assms(1) [unfolded LoadEdges_def] assms(2)])
    show "graph_ok g2 \<and> known autoType graphType g2 d" if "graph_ok g1" "foldX (load_argument autoType graphType d) (m_pArgs d) g1 = (None, g2)" for d g1 g2
      using outer [OF that(2)] that(1) by simp
    show "known autoType graphType g2 e" if "known autoType graphType g1 e" "foldX (load_argument autoType graphType d) (m_pArgs d) g1 = (None, g2)" for d e g1 g2
      using keeps [OF that(1)] outer [OF that(2)] by simp
  qed
  then show ?thesis by (simp add: AppendAutoFiltersTo_def)
qed

text \<open>The lists of a decoration name counters that have an argument of its type.\<close>

definition wired_to :: "'w AutoPacket_scheme \<Rightarrow> auto_id \<Rightarrow> (AutoFilterArgument \<Rightarrow> bool) \<Rightarrow> addr \<Rightarrow> bool" where
  "wired_to p k P c \<longleftrightarrow> (\<exists>s. m_counters p c = Some s \<and> (\<exists>a \<in> set (m_pArgs s). arg_id a = k \<and> P a))"

definition entry_wired :: "'w AutoPacket_scheme \<Rightarrow> auto_id \<Rightarrow> DecorationDisposition \<Rightarrow> bool" where
  "entry_wired p k d \<longleftrightarrow>
     (\<forall>m \<in> set (m_modifiers d). wired_to p k is_rvalue (mod_satCounter m)) \<and>
     (\<forall>c \<in> set (m_publishers d). wired_to p k (\<lambda>a. is_output a \<and> \<not> is_rvalue a) c) \<and>
     (\<forall>sub \<in> set (m_subscribers d). wired_to p k (\<lambda>a. is_input a \<and> \<not> is_rvalue a) (sub_satCounter sub))"

definition wired :: "'w AutoPacket_scheme \<Rightarrow> bool" where
  "wired p \<longleftrightarrow> (\<forall>k d. m_decoration_map p k = Some d \<longrightarrow> entry_wired p k d)"

definition args_usual :: "'a AutoFilterDescriptor_scheme \<Rightarrow> bool" where
  "args_usual d \<longleftrightarrow> (\<forall>a \<in> set (m_pArgs d). (is_rvalue a \<longrightarrow> is_output a) \<and> (is_input a \<and> is_output a \<longrightarrow> is_rvalue a))"

text \<open>All forms of arguments are of this kind.\<close>

lemma args_usual_forms: "args_usual (mk_descriptor f ty alt (map AutoFilterArgumentT as) deferred call)"
proof -
  have "(is_rvalue (AutoFilterArgumentT a) \<longrightarrow> is_output (AutoFilterArgumentT a)) \<and>
      (is_input (AutoFilterArgumentT a) \<and> is_output (AutoFilterArgumentT a) \<longrightarrow> is_rvalue (AutoFilterArgumentT a))" for a
    by (cases a) (simp_all add: auto_arg_defs)
  then show ?thesis by (auto simp: args_usual_def mk_descriptor_def split: prod.splits)
qed

text \<open>Subscribing a filter keeps the lists so.\<close>

lemma wired_to_alt: "wired_to p k P c \<longleftrightarrow> (\<exists>alt args. counter_shape p c = Some (alt, args) \<and> (\<exists>a \<in> set args. arg_id a = k \<and> P a))"
  by (cases "m_counters p c") (simp_all add: wired_to_def counter_shape_def)

lemma wired_to_shape: "counter_shape p = counter_shape q \<Longrightarrow> wired_to p k P c = wired_to q k P c"
  by (simp add: wired_to_alt)

lemma wired_frame:
  assumes "wired p" "counter_shape q = counter_shape p" "m_decoration_map q = m_decoration_map p"
  shows "wired q"
  using assms by (simp add: wired_def entry_wired_def wired_to_shape [OF assms(2)])

lemma wired_set_entry: "wired p \<Longrightarrow> entry_wired p k d \<Longrightarrow> wired (set_entry k d p)"
  by (auto simp: wired_def entry_wired_def wired_to_shape [OF counter_shape_set_entry])

lemma wired_entry: "wired p \<Longrightarrow> entry_wired p k (entry k p)"
  by (auto simp: wired_def entry_wired_def entry_def disposition_new_def split: option.splits)

lemma add_argument_wired:
  assumes w: "wired p" and sat: "m_counters p sat = Some s" "a \<in> set (m_pArgs s)"
  shows "wired (snd (add_argument sat alt a p)) \<and> counter_shape (snd (add_argument sat alt a p)) = counter_shape p"
proof -
  have "wired (snd (add_input sat a p)) \<and> counter_shape (snd (add_input sat a p)) = counter_shape p"
  proof -
    let ?p = "set_entry (arg_id a) (entry (arg_id a) p) p"
    have "wired ?p" using wired_set_entry [OF w wired_entry [OF w]] .
    then have "wired q \<and> counter_shape q = counter_shape p" if "dec_counter sat ?p = Some (b, q)" for b q
      using wired_frame [of ?p q] dec_counter_shape [OF that] by simp
    then show ?thesis using \<open>wired ?p\<close> by (auto simp: add_input_def Let_def split: option.splits)
  qed
  moreover obtain x q where q: "add_input sat a p = (x, q)" by fastforce
  ultimately have wq: "wired q" "counter_shape q = counter_shape p" by simp_all
  have to: "wired_to r (arg_id a) P sat" if "counter_shape r = counter_shape p" "P a" for r and P :: "AutoFilterArgument \<Rightarrow> bool"
  proof -
    have "wired_to p (arg_id a) P sat" using sat that(2) by (auto simp: wired_to_def)
    then show ?thesis by (simp add: wired_to_shape [OF that(1)])
  qed
  have m: "wired (snd (add_modifier sat alt a q)) \<and> counter_shape (snd (add_modifier sat alt a q)) = counter_shape q" if "is_rvalue a"
    using wq wired_entry [OF wq(1), of "arg_id a"] to [OF wq(2), of is_rvalue] that
    by (auto simp: add_modifier_def Let_def entry_wired_def intro!: wired_set_entry dest!: set_modifier_insert split: option.splits)
  have s: "wired (add_subscriber sat alt a q) \<and> counter_shape (add_subscriber sat alt a q) = counter_shape q" if "\<not> is_rvalue a"
  proof (cases "is_input a")
    case True
    let ?s = "\<lparr>sub_is_shared = is_shared a, sub_type = sub_type_of a, sub_altitude = alt, sub_satCounter = sat\<rparr>" and ?e = "entry (arg_id a) q"
    have "entry_wired q (arg_id a) (?e\<lparr>m_subscribers := subscriber_emplace ?s (m_subscribers ?e)\<rparr>)"
      using wired_entry [OF wq(1), of "arg_id a"] to [OF wq(2), of "\<lambda>a. is_input a \<and> \<not> is_rvalue a"] True that set_subscriber_emplace [of ?s "m_subscribers ?e"]
      by (auto simp: entry_wired_def)
    then show ?thesis using wired_set_entry [OF wq(1)] True by (simp add: add_subscriber_def Let_def)
  qed (use wq in \<open>simp add: add_subscriber_def\<close>)
  have "wired (snd (add_publisher sat a r)) \<and> counter_shape (snd (add_publisher sat a r)) = counter_shape r"
    if "\<not> is_rvalue a" "wired r" "counter_shape r = counter_shape p" for r
    using wired_entry [OF that(2), of "arg_id a"] to [OF that(3), of "\<lambda>a. is_output a \<and> \<not> is_rvalue a"] that
    by (auto simp: add_publisher_def Let_def entry_wired_def intro!: wired_set_entry)
  then show ?thesis using m s wq q by (cases x) (auto simp: add_argument_def)
qed

lemma AddSatCounterUnsafe_wired:
  assumes "wired p" "AddSatCounterUnsafe sat p = Some (exc, p')"
  shows "wired p'"
proof (cases "m_counters p sat")
  case (Some s)
  let ?f = "foldX (add_argument sat (m_altitude s)) (m_pArgs s) p"
  have "wired (snd ?f) \<and> counter_shape (snd ?f) = counter_shape p"
  proof (rule foldX_invariant [where I = "\<lambda>q. wired q \<and> counter_shape q = counter_shape p"])
    fix a q
    assume a: "a \<in> set (m_pArgs s)" and q: "wired q \<and> counter_shape q = counter_shape p"
    then have "counter_shape q sat = counter_shape p sat" by simp
    then obtain t where "m_counters q sat = Some t" "m_pArgs t = m_pArgs s"
      using Some by (cases "m_counters q sat") (auto simp: counter_shape_def)
    then show "wired (snd (add_argument sat (m_altitude s) a q)) \<and> counter_shape (snd (add_argument sat (m_altitude s) a q)) = counter_shape p"
      using add_argument_wired [of q sat t a "m_altitude s"] a q by simp
  qed (use assms(1) in simp)
  moreover have "p' = snd ?f"
  proof -
    have "snd (case r of Inl e \<Rightarrow> (Some e, q) | Inr _ \<Rightarrow> (None, q)) = q" for r :: "(addr set \<times> addr set) result" and q :: "'a AutoPacket_scheme" by (cases r) simp_all
    then show ?thesis using assms(2) Some by (cases ?f; cases "fst ?f") (auto simp: AddSatCounterUnsafe_def dest!: arg_cong [of _ _ snd])
  qed
  ultimately show ?thesis by simp
qed (use assms in \<open>simp add: AddSatCounterUnsafe_def\<close>)

text \<open>The graph has the edge of each argument of each counter of a packet, but for the filters of the graph itself, which have no outputs.\<close>

definition traced :: "(ptr \<Rightarrow> auto_id result) \<Rightarrow> auto_id \<Rightarrow> delivery_graph \<Rightarrow> AutoPacket \<Rightarrow> bool" where
  "traced autoType graphType g p \<longleftrightarrow>
     (\<forall>c s. m_counters p c = Some s \<longrightarrow> args_usual s \<and>
       (\<forall>a \<in> set (m_pArgs s). \<exists>t. autoType (m_autoFilter s) = Inr t \<and> (t = graphType \<longrightarrow> \<not> is_output a) \<and>
          (t = graphType \<or> has_edge (mk_edge (arg_id a) s (arg_type_of a)) g)))"

lemma loaded_traced:
  assumes "\<forall>d \<in> set fs. known autoType graphType g d"
    and "\<forall>c s. m_counters p c = Some s \<longrightarrow> (\<exists>d \<in> set fs. descriptor_eq d s \<and> m_pArgs d = m_pArgs s)"
    and "\<forall>d \<in> set fs. args_usual d \<and> (autoType (m_autoFilter d) = Inr graphType \<longrightarrow> (\<forall>a \<in> set (m_pArgs d). \<not> is_output a))"
  shows "traced autoType graphType g p"
  unfolding traced_def
proof (intro allI impI conjI ballI)
  fix c s
  assume "m_counters p c = Some s"
  then obtain d where d: "d \<in> set fs" "descriptor_eq d s" "m_pArgs d = m_pArgs s" using assms(2) by blast
  then show "args_usual s" using assms(3) by (fastforce simp: args_usual_def)
  fix a
  assume a: "a \<in> set (m_pArgs s)"
  then obtain t where t: "autoType (m_autoFilter d) = Inr t" "t = graphType \<or> has_edge (mk_edge (arg_id a) d (arg_type_of a)) g"
    using assms(1) d(1,3) unfolding known_def by metis
  have "t = graphType \<longrightarrow> \<not> is_output a" using assms(3) d(1,3) t(1) a by metis
  moreover have "t = graphType \<or> has_edge (mk_edge (arg_id a) s (arg_type_of a)) g" using t(2) has_edge_eq edge_eq_mk [OF d(2)] by blast
  ultimately show "\<exists>t. autoType (m_autoFilter s) = Inr t \<and> (t = graphType \<longrightarrow> \<not> is_output a) \<and>
      (t = graphType \<or> has_edge (mk_edge (arg_id a) s (arg_type_of a)) g)"
    using t(1) d(2) by (simp add: descriptor_eq_def)
qed

lemma same_edges: "map fst g' = map fst g \<Longrightarrow> graph_ok g' = graph_ok g" "map fst g' = map fst g \<Longrightarrow> has_edge e g' = has_edge e g"
  by (simp add: graph_ok_def) (simp add: has_edge_def flip: set_map)

lemma traced_counter:
  assumes "traced autoType graphType g p" "graph_ok g" "wired_to p k P c" "map fst g' = map fst g"
    and "\<And>a. P a \<Longrightarrow> is_rvalue a \<longrightarrow> is_output a \<Longrightarrow> is_input a \<and> is_output a \<longrightarrow> is_rvalue a \<Longrightarrow> arg_type_of a = t \<and> is_output a"
  shows "record_counter k t p c g' = Inr (bumps (delivered k t p c) g')"
proof -
  obtain s a where s: "m_counters p c = Some s" "a \<in> set (m_pArgs s)" "arg_id a = k" "P a" using assms(3) by (auto simp: wired_to_def)
  have u: "args_usual s" using assms(1) s(1) by (simp add: traced_def)
  have ua: "is_rvalue a \<longrightarrow> is_output a" "is_input a \<and> is_output a \<longrightarrow> is_rvalue a" using u s(2) unfolding args_usual_def by blast+
  have a: "arg_type_of a = t" "is_output a" using assms(5) [OF s(4) ua] by simp_all
  have "\<forall>a \<in> set (m_pArgs s). \<exists>t. autoType (m_autoFilter s) = Inr t \<and> (t = graphType \<longrightarrow> \<not> is_output a) \<and>
      (t = graphType \<or> has_edge (mk_edge (arg_id a) s (arg_type_of a)) g)"
    using assms(1) s(1) by (simp add: traced_def)
  then have "has_edge (mk_edge k s t) g" using s(2,3) a by fastforce
  then show ?thesis using record_counter_bumps [OF _ s(1)] assms(2) same_edges [OF assms(4)] by simp
qed

lemma traced_subscriber:
  assumes "traced autoType graphType g p" "graph_ok g" "wired_to p k (\<lambda>a. is_input a \<and> \<not> is_rvalue a) c" "map fst g' = map fst g"
  shows "record_subscriber autoType graphType k p c g' =
    Inr (bumps (if of_graph autoType graphType p c then [] else delivered k ArgInput p c) g')"
proof -
  obtain s a where s: "m_counters p c = Some s" "a \<in> set (m_pArgs s)" "arg_id a = k" "arg_type_of a = ArgInput"
    using assms(3) by (auto simp: wired_to_def arg_type_of_def)
  obtain t where t: "autoType (m_autoFilter s) = Inr t" "t = graphType \<or> has_edge (mk_edge k s ArgInput) g"
    using assms(1) s unfolding traced_def by metis
  then show ?thesis
    using s(1) record_counter_bumps [OF _ s(1), of g' k ArgInput] assms(2) same_edges [OF assms(4)] by (auto simp: record_subscriber_def of_graph_def)
qed

lemma concat_filter: "concat (map (\<lambda>c. if P c then [] else f c) xs) = concat (map f (filter (\<lambda>c. \<not> P c) xs))"
  by (induction xs) simp_all

lemma record_decoration_bumps:
  assumes t: "traced autoType graphType g p" and g: "graph_ok g" and w: "entry_wired p k (entry k p)"
  shows "record_decoration autoType graphType p k g = Inr (bumps (deliveries autoType graphType p k) g)"
proof -
  let ?d = "entry k p"
  have "foldR (record_counter k ArgRvalue p) (map mod_satCounter (m_modifiers ?d)) h = Inr (bumps (concat (map (delivered k ArgRvalue p) (map mod_satCounter (m_modifiers ?d)))) h)"
    if "map fst h = map fst g" for h
    by (rule foldR_bumps, rule traced_counter [OF t g, where P = is_rvalue]) (use w that in \<open>auto simp: entry_wired_def arg_type_of_def\<close>)
  moreover have "foldR (record_counter k ArgOutput p) (m_publishers ?d) h = Inr (bumps (concat (map (delivered k ArgOutput p) (m_publishers ?d))) h)"
    if "map fst h = map fst g" for h
    by (rule foldR_bumps, rule traced_counter [OF t g, where P = "\<lambda>a. is_output a \<and> \<not> is_rvalue a"])
       (use w that in \<open>auto simp: entry_wired_def arg_type_of_def\<close>)
  moreover have "foldR (record_subscriber autoType graphType k p) (map sub_satCounter (m_subscribers ?d)) h =
      Inr (bumps (concat (map (\<lambda>c. if of_graph autoType graphType p c then [] else delivered k ArgInput p c) (map sub_satCounter (m_subscribers ?d)))) h)"
    if "map fst h = map fst g" for h
    by (rule foldR_bumps, rule traced_subscriber [OF t g]) (use w that in \<open>auto simp: entry_wired_def\<close>)
  ultimately show ?thesis by (simp add: record_decoration_def deliveries_def Let_def concat_filter del: map_map)
qed

text \<open>
  C36.  When a packet is torn down whose counters are those of subscribers of the factory, after the graph has loaded the edges of the factory, every
  count grows by the number of modifiers, publishers and subscribers for its edge whose filters have had all their inputs (filters of the graph
  itself excepted), whatever the order of the decorations; the edges stay as they are, and no edge is missing.
\<close>

theorem packet_recorded:
  assumes "LoadEdges autoType graphType fac g0 = (None, g)" "graph_ok g0" "wired p"
    and "\<forall>c s. m_counters p c = Some s \<longrightarrow> (\<exists>d \<in> set (m_autoFilters fac). descriptor_eq d s \<and> m_pArgs d = m_pArgs s)"
    and "\<forall>d \<in> set (m_autoFilters fac). args_usual d \<and> (autoType (m_autoFilter d) = Inr graphType \<longrightarrow> (\<forall>a \<in> set (m_pArgs d). \<not> is_output a))"
  shows "record_packet autoType graphType keys p g =
    Inr (map (\<lambda>(e, n). (e, n + of_nat (length (filter (edge_eq e) (concat (map (deliveries autoType graphType p) keys)))))) g)"
proof -
  note g = LoadEdges_known [OF assms(1,2)]
  then have t: "traced autoType graphType g p" using loaded_traced [OF _ assms(4,5)] by blast
  have "record_decoration autoType graphType p k g' = Inr (bumps (deliveries autoType graphType p k) g')" if "map fst g' = map fst g" for k g'
    using record_decoration_bumps [OF _ _ wired_entry [OF assms(3)], of autoType graphType g' k] t g same_edges [OF that] by (simp add: traced_def)
  then show ?thesis unfolding record_packet_def bumps_def [symmetric] by (intro foldR_bumps) simp
qed

text \<open>Two filters in a row, of which the first has been called.\<close>

definition ex_filter :: "addr \<Rightarrow> AutoFilterArgument list \<Rightarrow> AutoFilterDescriptor" where
  "ex_filter a args = mk_descriptor (Some a) a (altitude_value Standard) args False (Some a)"

definition ex_graph_factory :: PacketFactory where
  "ex_graph_factory = factory_new\<lparr>m_autoFilters := [ex_filter 1 [auto_arg_const_ref 5, auto_arg_ref 6], ex_filter 2 [auto_arg_const_ref 6]]\<rparr>"

definition ex_sub :: "addr \<Rightarrow> Subscriber" where
  "ex_sub c = \<lparr>sub_is_shared = False, sub_type = Normal, sub_altitude = altitude_value Standard, sub_satCounter = c\<rparr>"

definition ex_graph_packet :: AutoPacket where
  "ex_graph_packet = packet_new\<lparr>
     m_counters := [1 \<mapsto> (ex_counter 1 [auto_arg_const_ref 5, auto_arg_ref 6])\<lparr>remaining := 0\<rparr>, 2 \<mapsto> ex_counter 2 [auto_arg_const_ref 6]],
     m_decoration_map := [5 \<mapsto> disposition_new\<lparr>m_subscribers := [ex_sub 1]\<rparr>, 6 \<mapsto> disposition_new\<lparr>m_publishers := [1], m_subscribers := [ex_sub 2]\<rparr>]\<rparr>"

definition ex_autoType :: "ptr \<Rightarrow> auto_id result" where
  "ex_autoType f = (case f of Some a \<Rightarrow> Inr a | None \<Rightarrow> Inl Undefined_behaviour)"

definition ex_graph :: delivery_graph where
  "ex_graph = [(mk_edge 5 (ex_filter 1 [auto_arg_const_ref 5, auto_arg_ref 6]) ArgInput, 0),
     (mk_edge 6 (ex_filter 1 [auto_arg_const_ref 5, auto_arg_ref 6]) ArgOutput, 0), (mk_edge 6 (ex_filter 2 [auto_arg_const_ref 6]) ArgInput, 0)]"

lemma ex_filter_fields [simp]: "m_pArgs (ex_filter a args) = args" "m_autoFilter (ex_filter a args) = Some a" "m_pCall (ex_filter a args) = Some a"
  by (simp_all add: ex_filter_def mk_descriptor_def split: prod.splits)

lemma ex_counter_fields [simp]: "m_pArgs (ex_counter a args) = args" "m_autoFilter (ex_counter a args) = Some a" "m_pCall (ex_counter a args) = Some a"
  "remaining (ex_counter a args) = m_requiredCount (ex_filter a args)"
  by (simp_all add: ex_counter_def mk_sat_counter_def ex_filter_def mk_descriptor_def AutoFilterDescriptor.extend_def split: prod.splits)

lemma edge_eq_mk_iff: "edge_eq (mk_edge i d t) (mk_edge j f u) \<longleftrightarrow> i = j \<and> descriptor_eq d f \<and> t = u"
  by (auto simp: edge_eq_def mk_edge_def descriptor_eq_def AutoFilterDescriptor.truncate_def)

lemma ex_loaded: "LoadEdges ex_autoType 9 ex_graph_factory [] = (None, ex_graph)"
  by (simp add: LoadEdges_def AppendAutoFiltersTo_def ex_graph_factory_def load_argument_def ex_autoType_def add_edge_def arg_type_of_def auto_arg_defs
        edge_eq_mk_iff ex_graph_def)

theorem packet_recorded_witness:
  "LoadEdges ex_autoType 9 ex_graph_factory [] = (None, ex_graph) \<and>
   record_packet ex_autoType 9 [5, 6] ex_graph_packet ex_graph =
     Inr [(fst (ex_graph ! 0), 1), (fst (ex_graph ! 1), 1), (fst (ex_graph ! 2), 0)]"
proof -
  have "record_packet ex_autoType 9 [5, 6] ex_graph_packet ex_graph =
    Inr (map (\<lambda>(e, n). (e, n + of_nat (length (filter (edge_eq e) (concat (map (deliveries ex_autoType 9 ex_graph_packet) [5, 6])))))) ex_graph)"
  proof (rule packet_recorded [OF ex_loaded])
    show "graph_ok []" by (simp add: graph_ok_def)
    show "wired ex_graph_packet"
      by (auto simp: wired_def entry_wired_def wired_to_def ex_graph_packet_def packet_new_def disposition_new_def ex_sub_def auto_arg_defs split: if_splits)
    show "\<forall>c s. m_counters ex_graph_packet c = Some s \<longrightarrow> (\<exists>d \<in> set (m_autoFilters ex_graph_factory). descriptor_eq d s \<and> m_pArgs d = m_pArgs s)"
      by (auto simp: ex_graph_packet_def ex_graph_factory_def descriptor_eq_def)
    show "\<forall>d \<in> set (m_autoFilters ex_graph_factory). args_usual d \<and> (ex_autoType (m_autoFilter d) = Inr 9 \<longrightarrow> (\<forall>a \<in> set (m_pArgs d). \<not> is_output a))"
      by (auto simp: ex_graph_factory_def args_usual_def auto_arg_defs ex_autoType_def)
  qed
  moreover have "m_requiredCount (ex_filter 2 [auto_arg_const_ref 6]) = 1" by (simp add: ex_filter_def mk_descriptor_def auto_arg_defs)
  ultimately show ?thesis
    using ex_loaded
    by (simp add: deliveries_def delivered_def of_graph_def ex_autoType_def ex_graph_packet_def ex_graph_def entry_def disposition_new_def ex_sub_def
          edge_eq_mk_iff descriptor_eq_def)
qed

text \<open>
  A recipient that was added to the packet itself is not among the subscribers of the factory: when it has been called, recording its delivery
  looks for an edge that does not exist.
\<close>

lemma recipient_not_in_graph:
  assumes "m_counters p c = Some s" "remaining s = 0" "\<not> has_edge (mk_edge i s t) g"
  shows "record_counter i t p c g = Inl Undefined_behaviour"
proof -
  have "RecordDelivery e g = Inl Undefined_behaviour" if "\<not> has_edge e g" for e
    using that by (induction g) (auto simp: has_edge_def)
  then show ?thesis using assms by (simp add: record_counter_def)
qed

text \<open>Arguments that are neither inputs nor outputs, the packet itself and contexts, are taken for outputs.\<close>

lemma packet_argument_is_output: "arg_type_of (auto_arg_packet i) = ArgOutput" "arg_type_of (auto_arg_context i) = ArgOutput"
  by (simp_all add: arg_type_of_def auto_arg_defs)

section \<open>The file\<close>

text \<open>Writing a graph whose filters are all members returns true, with one line for each edge that is not of the graph itself.\<close>

lemma write_edges:
  assumes "\<forall>x \<in> set g. \<exists>t. autoType (m_autoFilter (edge_descriptor (fst x))) = Inr t"
  shows "\<exists>w'. foldX (write_edge autoType graphType demangle numPackets) g w = (None, w') \<and>
    gv_file w' = gv_file w @ concat (map (\<lambda>(e, n). case autoType (m_autoFilter (edge_descriptor e)) of Inr t \<Rightarrow>
      if t = graphType then [] else gv_edge (demangle (type_info e)) (demangle t) (edge_arg_type e) n numPackets | Inl _ \<Rightarrow> []) g)"
  using assms
proof (induction g arbitrary: w)
  case (Cons x g)
  obtain e n where x: "x = (e, n)" by fastforce
  obtain t where t: "autoType (m_autoFilter (edge_descriptor e)) = Inr t" using Cons.prems by (auto simp: x)
  obtain w1 where w1: "write_edge autoType graphType demangle numPackets x w = (None, w1)"
    "gv_file w1 = gv_file w @ (if t = graphType then [] else gv_edge (demangle (type_info e)) (demangle t) (edge_arg_type e) n numPackets)"
    using t by (cases "t = graphType") (simp_all add: write_edge_def x)
  show ?case using Cons.IH [of w1] Cons.prems w1 t by (auto simp: x)
qed simp

lemma WriteGV_returns:
  assumes "\<forall>x \<in> set g. \<exists>t. autoType (m_autoFilter (edge_descriptor (fst x))) = Inr t"
  shows "\<exists>file. WriteGV autoType graphType demangle good sigil numPackets g = (None, good, file) \<and> (\<not> good \<longrightarrow> file = [])"
proof -
  obtain w where "foldX (write_edge autoType graphType demangle numPackets) g
      \<lparr>gv_file = ''digraph '' @ quoted (sigil @ '' context'') @ '' {'' @ newline, gv_typeNames = [], gv_descriptorNames = []\<rparr> = (None, w)"
    using write_edges [OF assms] by blast
  then show ?thesis by (simp add: WriteGV_def)
qed

end
