(* ===== verification/Spec2Isabelle.thy ===== *)
theory Spec2Isabelle
  imports
    Dispatch_Queue_Props Dispatch_Queue_Clear
    Auto_Packet_Props Auto_Packet_Satisfaction
    Context_Quiescence Context_Scope_Props
    Once Type_Memo_Props Config_Manager_Props Object_Pool_Props
    Signal_Props Signal_Protocol
    Core_Job_Props Context_Map_Props Packet_Factory_Props Hetero_Block
    Teardown_Notifier Thread_Pool Parallel Core_Thread_Props
    Autowired_Slot Config_Descriptor Packet_Graph
begin

text \<open>
  A verification library for Autowiring (\<open>src/src/autowiring\<close>), a C++ framework in which the members of a tree
  of contexts find each other by type, run dispatch queues on their threads, exchange packets through networks
  of filters and are configured by name.

  \<^bold>\<open>Parts and how they interact.\<close>  A \<open>CoreContext\<close> owns members and runnables, has a parent and children, and is
  started and shut down with its subtree.  Members are found by type in the context or its ancestors; the
  result is kept in memo entries, whose \<open>once\<close> flags fire when a member arrives later.  A runnable that is a
  thread owns a \<open>DispatchQueue\<close> of functions.  An \<open>AutoPacket\<close> carries decorations to filters; a filter is
  called when all its inputs are there.  A \<open>signal\<close> is a list of handlers that may be changed and raised by
  several threads without blocking.  A \<open>ConfigManager\<close> belongs to each context; its entries use signals to
  announce changes to fields and to the managers of child contexts, and marshallers to convert texts.  An
  \<open>AutoPacketFactory\<close> makes the packets of a context, a \<open>CoreJob\<close> runs a dispatch queue without a thread of its own,
  a thread pool runs functions for a context, and pools of objects, maps of contexts and blocks of objects of
  several types serve the members.

  \<^bold>\<open>Conventions.\<close>  A pointer is \<open>addr option\<close>, heaps are maps from addresses to records, dereferencing a null or
  freed pointer is the error \<open>Undefined_behaviour\<close>.  \<open>'a result\<close> is an exception or a value, \<open>'s exn\<close> a state with
  the exception that left the operation, if one did.  Loops whose end is not evident are
  \<open>partial_function (option)\<close>: \<open>None\<close> is a call that does not return, and where a property says that an operation
  gives \<open>Some\<close>, that is its termination.  No fuel is used.  Code that the user supplies (functions in a queue,
  filters, handlers, constructors, casts, unmarshallers) is a parameter; what is assumed of it is a hypothesis of the
  property, and the witness of the property discharges it for a concrete function.

  \<^bold>\<open>Theories.\<close>
  \<^item> \<open>Prelude\<close>: errors, results, chains of cells, and two interfaces: \<open>forward_simulation\<close>, a refinement
    between an implementation and an abstract machine, and \<open>measured_system\<close>, a step relation that keeps an invariant and
    ends.
  \<^item> \<open>Dispatch_Queue\<close> models \<open>DispatchQueue.{h,cpp}\<close> and \<open>DispatchThunk.h\<close>: a linked list of thunks in a heap and a
    priority queue of delayed thunks.  \<open>Dispatch_Queue_Props\<close> (with the interface \<open>min_queue\<close>, interpreted
    on the delayed queue) shows that the list represents a sequence, that functions run first in first out and
    delayed ones by deadline; \<open>Dispatch_Queue_Clear\<close> treats teardown, and that the queue refines its abstract
    machine in every sequence of operations.
  \<^item> \<open>Auto_Filter\<close> models the arguments and descriptors of filters, \<open>Auto_Packet\<close> the packet
    (\<open>AutoPacket.{h,cpp}\<close>, \<open>AutoPacketInternal.cpp\<close>, \<open>SatCounter.h\<close>, \<open>CallExtractor.h\<close>).  \<open>Auto_Packet_Props\<close>: cycle
    detection is exact and ends, subscription keeps the packet well formed.  \<open>Auto_Packet_Satisfaction\<close>: a
    decoration calls exactly the filters that it satisfies, and propagation ends.
  \<^item> \<open>Core_Context\<close> models the tree of contexts, runnables, enumerators, bolts and scopes (\<open>CoreContext.{h,cpp}\<close>,
    \<open>CoreContextStateBlock.{h,cpp}\<close>, \<open>CoreRunnable.{h,cpp}\<close>, \<open>ContextEnumerator.{h,cpp}\<close>, \<open>Bolt.h\<close>,
    \<open>CurrentContextPusher.{h,cpp}\<close>).  \<open>Core_Context_Props\<close>: the states of parents and children agree in every
    reachable tree; \<open>Context_Quiescence\<close>: shutdown stops every runnable of the subtree, so waits end;
    \<open>Context_Enumerator_Props\<close>: enumeration is the preorder of the subtree; \<open>Context_Scope_Props\<close>: creation
    of children, notification of bolts, and the current context.
  \<^item> \<open>Type_Memo\<close> models the members of contexts: lookup by type, injection, deferred satisfaction, exception
    filters (\<open>CoreContext.{h,cpp}\<close>, \<open>MemoEntry.h\<close>, \<open>AnySharedPointer.h\<close>), over \<open>Once\<close> (\<open>once.{h,cpp}\<close>).
    \<open>Type_Memo_Props\<close>: the nearest member is found, a later member satisfies those who wait, injection makes one
    object; and, as lemmas, situations in which memo entries are wrong.
  \<^item> \<open>Signal\<close> models signals and their list of delayed calls as one thread uses them (\<open>auto_signal.h\<close>,
    \<open>atomic_list.{h,cpp}\<close>, \<open>registration.h\<close>).  \<open>Signal_Props\<close>: they refine a list of listeners with a queue of
    requests (an interpretation of \<open>forward_simulation\<close>).  \<open>Signal_Protocol\<close>: the state word under any
    interleaving of threads, with the exclusion of handlers and one execution that loses a call.
  \<^item> \<open>Marshaller\<close> models \<open>marshaller.h\<close>; the interface \<open>marshalling\<close> is interpreted on its marshallers.
    \<open>Config_Manager\<close> models \<open>ConfigManager.{h,cpp}\<close> and \<open>config.h\<close>; the handlers of an entry's signal are a list that is
    called in order, which \<open>Signal_Props\<close> shows of signals.  \<open>Config_Manager_Inv\<close> and \<open>Config_Manager_Steps\<close>
    hold the invariant and that each operation keeps it, \<open>Config_Manager_Props\<close> the properties: managers report the
    nearest override, fields hold the reported values, \<open>Set\<close> refines an update of the overrides, and what
    exceptions of unmarshallers do.
  \<^item> \<open>Config_Descriptor\<close> models \<open>config_descriptor.{h,cpp}\<close> and \<open>ConfigRegistry.{h,cpp}\<close>: access to fields by name, and that an
    object that is registered with the root manager gets the defaults of its descriptor, whatever the order of links and of
    the maps of fields; lemmas on copies of fields, which lose their types.
  \<^item> \<open>Object_Pool\<close> models \<open>ObjectPool.h\<close> and \<open>ObjectPoolMonitor.{h,cpp}\<close>, pools that hand out shared pointers and take
    the objects back.  \<open>Object_Pool_Props\<close>: every object is issued once or cached once, and counted, through any
    sequence of operations on several pools, moves included; and what a throwing constructor does.
  \<^item> \<open>Core_Job\<close> models \<open>CoreJob.{h,cpp}\<close>, a runnable whose queue is emptied by an asynchronous task, as steps of
    the task and of other threads.  \<open>Core_Job_Props\<close>: in every interleaving a job with work has a task that comes to
    it, functions are called in order, the task ends when it is left alone, and a function that throws stops the job.
  \<^item> \<open>Packet_Factory\<close> models \<open>AutoPacketFactory.{h,cpp}\<close> over the subscription of \<open>Auto_Packet\<close>.  \<open>Packet_Factory_Props\<close>:
    a new packet has one counter per subscriber by altitude, and how packets are counted.
  \<^item> \<open>Packet_Graph\<close> models \<open>AutoPacketGraph.{h,cpp}\<close>: the edges that are loaded from the factory are those that a packet
    of its subscribers needs, and every count grows by the deliveries of the packet; lemmas on the file that is written,
    and on recipients that are not in the graph.
  \<^item> \<open>Context_Map\<close> models \<open>ContextMap.h\<close> with the reference counts of contexts and the teardown handlers.
    \<open>Context_Map_Props\<close>: it refines a map from which a context disappears with its last reference, whenever the
    handlers run (an interpretation of \<open>forward_simulation\<close>).
  \<^item> \<open>Hetero_Block\<close> models \<open>HeteroBlock.{h,cpp}\<close>, objects of several types in one allocation: the layout is aligned and
    stays in the block, and the deleter destroys what was constructed, constructors that throw included.
  \<^item> \<open>Teardown_Notifier\<close> models \<open>TeardownNotifier.{h,cpp}\<close> and shows that an uncontended add loses the listeners
    that are there.
  \<^item> \<open>Thread_Pool\<close> models \<open>ThreadPool.{h,cpp}\<close>, \<open>NullPool.{h,cpp}\<close>, \<open>ManualThreadPool.{h,cpp}\<close> and
    \<open>SystemThreadPoolStl.{h,cpp}\<close>: work that waits in the placeholder pool is handed over and called in order;
    lemmas on restarted pools, functions that throw, and participants that leave.
  \<^item> \<open>Parallel\<close> models \<open>Parallel.{h,cpp}\<close>: under every schedule a loop over the results of a type is given each result once
    (an interpretation of \<open>measured_system\<close>); lemmas on barriers, refused functions and stopping.
  \<^item> \<open>Core_Thread\<close> models \<open>CoreThread.{h,cpp}\<close> over \<open>BasicThread.{h,cpp}\<close> and \<open>CoreRunnable.{h,cpp}\<close>: the program counter of the
    thread, stops by other threads in steps, and priorities.  \<open>Core_Thread_Props\<close>: in every interleaving a stopped thread ends,
    and a graceful stop calls everything that was accepted before it (an interpretation of \<open>measured_system\<close>).
  \<^item> \<open>Autowired_Slot\<close> models \<open>AutowirableSlot.{h,cpp}\<close> and the handles of \<open>Autowired.h\<close> over \<open>Type_Memo\<close>: a slot that is
    made before its object is satisfied when the object is added; a lemma on the order of callbacks.

  \<^bold>\<open>Not modelled.\<close>  Threads of the operating system and blocking waits (the condition that a wait tests is
  modelled, and what other threads change meanwhile is a parameter), memory orders weaker than sequential
  consistency, compile-time computation on types (types are numbers, casts a parameter), floating-point and atomic
  fields, statistics about durations, the thread pools of Windows, debugging output, the network server, test
  support and benchmarks; vendored libraries under \<open>contrib\<close>.
\<close>

end
